(* ===== verification/Prelude.thy ===== *)
theory Prelude
  imports
    Main
    "HOL-Library.Word"
    "HOL-Library.Multiset"
    "HOL-Library.Monad_Syntax"
    "HOL-Library.Char_ord"
    "HOL-Library.List_Lexorder"
begin

text \<open>
  Shared types and lemmas of the development.  Machine integers keep their width
  (\<open>u64\<close>), \<^verbatim>\<open>*big.Int\<close> is \<open>int\<close>, byte slices are lists of 8-bit words, a fixed
  byte array (\<^verbatim>\<open>common.Address\<close>, \<^verbatim>\<open>common.Hash\<close>) is the word its bytes spell in
  big-endian order, so that \<open>bytes.Compare\<close> on arrays is the order of words.
  A Go function that can panic returns an \<open>option\<close>, with \<open>None\<close> for the panic.
\<close>

unbundle bit_operations_syntax

type_synonym byte = "8 word"
type_synonym bytes = "byte list"
type_synonym u64 = "64 word"

named_theorems bft_simps \<open>equations that evaluate the consensus core\<close>
named_theorems bft_inv \<open>invariants kept by the operations of the consensus core\<close>

section \<open>Comparison as \<^verbatim>\<open>big.Int.Cmp\<close> and \<^verbatim>\<open>strings.Compare\<close> return it\<close>

definition go_cmp :: "'a::linorder \<Rightarrow> 'a \<Rightarrow> int" where
  "go_cmp x y = (if x < y then -1 else if x > y then 1 else 0)"

lemma go_cmp_less [simp]: "go_cmp x y < 0 \<longleftrightarrow> x < y"
  by (simp add: go_cmp_def)

lemma go_cmp_greater [simp]: "go_cmp x y > 0 \<longleftrightarrow> x > y"
  by (auto simp: go_cmp_def)

lemma go_cmp_zero [simp]: "go_cmp x y = 0 \<longleftrightarrow> x = y"
  by (auto simp: go_cmp_def)

lemma go_cmp_le [simp]: "go_cmp x y \<le> 0 \<longleftrightarrow> x \<le> y"
  by (auto simp: go_cmp_def)

lemma go_cmp_ge [simp]: "go_cmp x y \<ge> 0 \<longleftrightarrow> x \<ge> y"
  by (auto simp: go_cmp_def)

section \<open>Big-endian bytes of a fixed array\<close>

definition be_bytes :: "nat \<Rightarrow> 'a::len word \<Rightarrow> bytes" where
  "be_bytes n w = map (\<lambda>i. ucast (drop_bit (8 * (n - 1 - i)) w)) [0..<n]"

lemma length_be_bytes [simp]: "length (be_bytes n w) = n"
  by (simp add: be_bytes_def)

lemma be_bytes_nth:
  "i < n \<Longrightarrow> be_bytes n w ! i = ucast (drop_bit (8 * (n - 1 - i)) w)"
  by (simp add: be_bytes_def)

lemma be_bytes_inject:
  fixes v w :: "'a::len word"
  assumes eq: "be_bytes n v = be_bytes n w" and len: "LENGTH('a) = 8 * n"
  shows "v = w"
proof (rule bit_word_eqI)
  fix k
  assume k: "k < LENGTH('a)"
  let ?i = "n - 1 - k div 8"
  have q: "k div 8 < n"
    using k len by simp
  then have i: "?i < n" and sub: "n - 1 - ?i = k div 8"
    by auto
  have "bit (be_bytes n v ! ?i) (k mod 8) = bit (be_bytes n w ! ?i) (k mod 8)"
    using eq by simp
  then have "bit v (8 * (k div 8) + k mod 8) = bit w (8 * (k div 8) + k mod 8)"
    unfolding be_bytes_nth [OF i] sub
    by (simp add: bit_unsigned_iff bit_drop_bit_eq)
  then show "bit v k = bit w k"
    by simp
qed

section \<open>Words\<close>

lemma unat_byte_less: "unat (b :: byte) < 256"
  using unsigned_less [of b, where ?'a = nat] by simp

lemma unat_ucast_byte [simp]: "unat (ucast (b :: byte) :: u64) = unat b"
  using unat_byte_less [of b] by (simp add: unsigned_ucast_eq take_bit_nat_eq_self)

lemma push_bit_or_byte: "push_bit 8 (w :: u64) OR ucast (b :: byte) = w * 256 + ucast b"
proof -
  have "push_bit 8 w AND ucast b = (0 :: u64)"
    by (rule bit_word_eqI) (auto simp: bit_simps dest: bit_imp_le_length)
  then have "push_bit 8 w + ucast b = push_bit 8 w OR ucast b"
    by (rule disjunctive_add_eq_or)
  then show ?thesis
    by (simp add: push_bit_eq_mult)
qed

lemma unat_push_bit_or_byte:
  assumes "unat (w::u64) < 2 ^ 56"
  shows "unat (push_bit 8 w OR ucast (b::byte)) = unat w * 256 + unat b"
proof -
  have "unat w * 256 + unat b < 2 ^ 64"
    using assms unat_byte_less [of b] by simp
  then show ?thesis
    unfolding push_bit_or_byte by (simp add: unat_word_ariths)
qed

lemma unat_ucast_Suc [simp]: "unat (ucast (b :: byte) + 1 :: u64) = Suc (unat b)"
  using unat_byte_less [of b] by (simp add: unat_word_ariths)

lemma unat_tag: "unat t + n < 256 \<Longrightarrow> unat (t + of_nat n :: byte) = unat t + n"
  by (simp add: unat_word_ariths unat_of_nat take_bit_nat_eq_self)

section \<open>Big integers\<close>

fun nat_bitlen :: "nat \<Rightarrow> nat" where
  "nat_bitlen n = (if n = 0 then 0 else Suc (nat_bitlen (n div 2)))"

declare nat_bitlen.simps [simp del]

definition big_BitLen :: "int \<Rightarrow> nat" where
  "big_BitLen x = nat_bitlen (nat \<bar>x\<bar>)"

text \<open>\<^verbatim>\<open>big.Int.Uint64\<close> keeps the low 64 bits of the magnitude, \<^verbatim>\<open>Int64\<close> gives them the sign.\<close>

definition big_Uint64 :: "int \<Rightarrow> u64" where
  "big_Uint64 x = word_of_int \<bar>x\<bar>"

definition big_Int64 :: "int \<Rightarrow> int" where
  "big_Int64 x = sint (word_of_int x :: u64)"

lemma nat_bitlen_le: "nat_bitlen n \<le> k \<longleftrightarrow> n < 2 ^ k"
proof (induction n arbitrary: k rule: nat_bitlen.induct)
  case (1 n)
  show ?case
  proof (cases k)
    case (Suc j)
    with 1 show ?thesis
      by (subst nat_bitlen.simps) (auto simp: less_mult_imp_div_less div_less_iff_less_mult mult.commute)
  qed (subst nat_bitlen.simps, simp)
qed

lemma big_BitLen_le: "big_BitLen x \<le> k \<longleftrightarrow> \<bar>x\<bar> < 2 ^ k"
  unfolding big_BitLen_def nat_bitlen_le by (metis abs_ge_zero nat_less_iff of_nat_numeral of_nat_power)

lemma uint_big_Uint64: "0 \<le> x \<Longrightarrow> x < 2 ^ 64 \<Longrightarrow> uint (big_Uint64 x) = x"
  by (simp add: big_Uint64_def unsigned_of_int take_bit_int_eq_self)

section \<open>Lists and multisets\<close>

lemma distinct_mset_set_eq:
  "mset xs = mset ys \<Longrightarrow> distinct xs \<longleftrightarrow> distinct ys"
  by (metis distinct_count_atmost_1 set_mset_mset)

lemma card_filter_distinct:
  "distinct xs \<Longrightarrow> length (filter P xs) = card {x \<in> set xs. P x}"
  by (metis distinct_card distinct_filter set_filter)

lemma find_index_bound:
  "\<exists>i < length xs. P (xs ! i) \<Longrightarrow> \<exists>x \<in> set xs. P x"
  by auto

section \<open>Options and sums\<close>

lemma map_sum_eq_Inr: "map_sum f g x = Inr y \<longleftrightarrow> (\<exists>z. x = Inr z \<and> y = g z)"
  by (cases x) auto

text \<open>The splits that run through the branches of an operation in the option monad.\<close>

lemmas op_splits = bind_split_asm option.split_asm sum.split_asm prod.split_asm if_split_asm

lemma bind_Some_cases:
  "Option.bind m f = Some y \<Longrightarrow> (\<And>x. m = Some x \<Longrightarrow> f x = Some y \<Longrightarrow> R) \<Longrightarrow> R"
  by (cases m) auto

end
