(* ===== verification/RLP_Encode.thy ===== *)
theory RLP_Encode
  imports Prelude
begin

text \<open>
  \<^verbatim>\<open>rlp/encode.go\<close>: the reflection-based RLP encoder.  A value of the datatype \<open>rval\<close>
  is a \<^verbatim>\<open>reflect.Value\<close>, with one constructor for each case of the type switch in
  \<^verbatim>\<open>makeWriter\<close>; the writers append to an \<^verbatim>\<open>encbuf\<close>, which keeps the string data and
  the list headers apart until \<^verbatim>\<open>toBytes\<close> merges them.  The reference encoding
  \<open>rlp_spec\<close> is the recursive definition of RLP, and the main lemma shows that the
  two-pass encoder computes it.  Lengths and offsets (Go \<^verbatim>\<open>int\<close>) are natural numbers.
\<close>

datatype rlp_error =
    EOL | ErrExpectedString | ErrExpectedList | ErrCanonInt | ErrCanonSize | ErrElemTooLarge
  | ErrValueTooLarge | ErrMoreThanOneValue | errNotInList | errNotAtEOL | errUintOverflow
  | io_EOF | io_ErrUnexpectedEOF | errNegativeBigInt | errInvalidBool u64 | decodeError string

section \<open>Integers and headers\<close>

definition putint :: "u64 \<Rightarrow> bytes" where
  "putint i =
     (if i < 2 ^ 8 then be_bytes 1 i
      else if i < 2 ^ 16 then be_bytes 2 i
      else if i < 2 ^ 24 then be_bytes 3 i
      else if i < 2 ^ 32 then be_bytes 4 i
      else if i < 2 ^ 40 then be_bytes 5 i
      else if i < 2 ^ 48 then be_bytes 6 i
      else if i < 2 ^ 56 then be_bytes 7 i
      else be_bytes 8 i)"

lemma unat_drop_bit_8: "unat (drop_bit 8 (i :: u64)) = unat i div 256"
  by (simp add: drop_bit_eq_div unat_div_distrib)

function intsize :: "u64 \<Rightarrow> nat" where
  "intsize i = (let i' = drop_bit 8 i in if i' = 0 then 1 else Suc (intsize i'))"
  by pat_completeness auto
termination
proof (relation "measure unat")
  fix i i' :: u64
  assume i': "i' = drop_bit 8 i" and "i' \<noteq> 0"
  then have "unat i' \<noteq> 0"
    by (simp add: unat_eq_zero)
  then show "(i', i) \<in> measure unat"
    by (simp add: i' unat_drop_bit_8)
qed simp

declare intsize.simps [simp del]

definition headsize :: "u64 \<Rightarrow> nat" where
  "headsize sz = (if sz < 56 then 1 else 1 + intsize sz)"

text \<open>The bytes \<^verbatim>\<open>puthead\<close> writes at the start of the buffer.\<close>

definition puthead :: "byte \<Rightarrow> byte \<Rightarrow> u64 \<Rightarrow> bytes" where
  "puthead smalltag largetag sz =
     (if sz < 56 then [smalltag + ucast sz]
      else let p = putint sz in (largetag + of_nat (length p)) # p)"

section \<open>The encoder buffer\<close>

record listhead =
  lh_offset :: nat
  lh_size :: nat

record encbuf =
  eb_str :: bytes
  eb_lheads :: "listhead list"
  eb_lhsize :: nat

definition listhead_encode :: "listhead \<Rightarrow> bytes" where
  "listhead_encode head = puthead 0xC0 0xF7 (of_nat (lh_size head))"

definition encbuf_reset :: encbuf where
  "encbuf_reset = \<lparr>eb_str = [], eb_lheads = [], eb_lhsize = 0\<rparr>"

definition encbuf_Write :: "bytes \<Rightarrow> encbuf \<Rightarrow> encbuf" where
  "encbuf_Write b w = w\<lparr>eb_str := eb_str w @ b\<rparr>"

definition encodeStringHeader :: "nat \<Rightarrow> encbuf \<Rightarrow> encbuf" where
  "encodeStringHeader sz w =
     (if sz < 56 then encbuf_Write [0x80 + of_nat sz] w
      else let p = putint (of_nat sz) in encbuf_Write ((0xB7 + of_nat (length p)) # p) w)"

definition encodeString :: "bytes \<Rightarrow> encbuf \<Rightarrow> encbuf" where
  "encodeString b w =
     (if length b = 1 \<and> hd b \<le> 0x7F then encbuf_Write [hd b] w
      else encbuf_Write b (encodeStringHeader (length b) w))"

definition encbuf_size :: "encbuf \<Rightarrow> nat" where
  "encbuf_size w = length (eb_str w) + eb_lhsize w"

text \<open>The pointer to the new header is its index in the slice.\<close>

definition encbuf_list :: "encbuf \<Rightarrow> nat \<times> encbuf" where
  "encbuf_list w =
     (length (eb_lheads w),
      w\<lparr>eb_lheads := eb_lheads w @ [\<lparr>lh_offset = length (eb_str w), lh_size = eb_lhsize w\<rparr>]\<rparr>)"

definition listEnd :: "nat \<Rightarrow> encbuf \<Rightarrow> encbuf" where
  "listEnd i w =
     (let lh = eb_lheads w ! i;
          sz = encbuf_size w - lh_offset lh - lh_size lh
      in w\<lparr>eb_lheads := (eb_lheads w)[i := lh\<lparr>lh_size := sz\<rparr>],
           eb_lhsize := eb_lhsize w + (if sz < 56 then 1 else 1 + intsize (of_nat sz))\<rparr>)"

text \<open>
  Go's \<^verbatim>\<open>copy(out[pos:], src)\<close>: it copies as much as fits and returns the number of bytes.
\<close>

definition copy_at :: "bytes \<Rightarrow> nat \<Rightarrow> bytes \<Rightarrow> bytes \<times> nat" where
  "copy_at out pos src =
     (let n = min (length out - pos) (length src)
      in (take pos out @ take n src @ drop (pos + n) out, n))"

text \<open>
  The loop of \<^verbatim>\<open>toBytes\<close>.  A slice expression or an index out of range panics (\<open>None\<close>): the
  output buffer has exactly the computed size, and the headers are written into it.
\<close>

fun toBytes_loop :: "bytes \<Rightarrow> nat \<Rightarrow> nat \<Rightarrow> bytes \<Rightarrow> listhead list \<Rightarrow> bytes option" where
  "toBytes_loop str strpos pos out [] =
     (if pos > length out \<or> strpos > length str then None
      else Some (fst (copy_at out pos (drop strpos str))))"
| "toBytes_loop str strpos pos out (head # heads) =
     (if pos > length out \<or> strpos > lh_offset head \<or> lh_offset head > length str then None
      else let (out1, n) = copy_at out pos (take (lh_offset head - strpos) (drop strpos str));
               enc = listhead_encode head
           in if length out1 < pos + n + length enc then None
              else toBytes_loop str (strpos + n) (pos + n + length enc)
                     (fst (copy_at out1 (pos + n) enc)) heads)"

definition toBytes :: "encbuf \<Rightarrow> bytes option" where
  "toBytes w = toBytes_loop (eb_str w) 0 0 (replicate (encbuf_size w) 0) (eb_lheads w)"

text \<open>The \<^verbatim>\<open>Write\<close> calls of \<^verbatim>\<open>toWriter\<close> on a writer that accepts every call.\<close>

fun toWriter_loop :: "bytes \<Rightarrow> nat \<Rightarrow> listhead list \<Rightarrow> bytes list" where
  "toWriter_loop str strpos [] = (if strpos < length str then [drop strpos str] else [])"
| "toWriter_loop str strpos (head # heads) =
     (if lh_offset head - strpos > 0
      then [take (lh_offset head - strpos) (drop strpos str), listhead_encode head] @
           toWriter_loop str (lh_offset head) heads
      else listhead_encode head # toWriter_loop str strpos heads)"

definition toWriter :: "encbuf \<Rightarrow> bytes list" where
  "toWriter w = toWriter_loop (eb_str w) 0 (eb_lheads w)"

section \<open>Values and writers\<close>

text \<open>
  The value of a Go type the encoder accepts.  \<open>VEncoder v\<close> is a value whose \<^verbatim>\<open>EncodeRLP(w)\<close>
  calls \<^verbatim>\<open>rlp.Encode(w, v)\<close>, as every encoder of the repository does.  A nil pointer keeps what
  decides its encoding: the kind of its element type.
\<close>

datatype rval =
    VRaw bytes
  | VEncoder rval
  | VInterface "rval option"
  | VBigIntPtr "int option"
  | VBigInt int
  | VUint u64
  | VBool bool
  | VString bytes
  | VBytes bytes
  | VByteArray bytes
  | VSlice bool "rval list"
  | VStruct "rval list"
  | VPtr rval
  | VNilByteArray
  | VNilStruct
  | VNilPtr rval

type_synonym writer = "encbuf \<Rightarrow> rlp_error + encbuf"

definition writeRawValue :: "bytes \<Rightarrow> writer" where
  "writeRawValue b w = Inr (encbuf_Write b w)"

definition writeUint :: "u64 \<Rightarrow> writer" where
  "writeUint i w =
     (if i = 0 then Inr (encbuf_Write [0x80] w)
      else if i < 128 then Inr (encbuf_Write [ucast i] w)
      else let p = putint i in Inr (encbuf_Write ((0x80 + of_nat (length p)) # p) w))"

definition writeBool :: "bool \<Rightarrow> writer" where
  "writeBool b w = Inr (encbuf_Write [if b then 0x01 else 0x80] w)"

text \<open>\<^verbatim>\<open>big.Int.Bytes\<close>: the absolute value as big-endian bytes without leading zeros.\<close>

fun nat_be :: "nat \<Rightarrow> bytes" where
  "nat_be n = (if n = 0 then [] else nat_be (n div 256) @ [of_nat (n mod 256)])"

declare nat_be.simps [simp del]

definition big_Bytes :: "int \<Rightarrow> bytes" where
  "big_Bytes i = nat_be (nat \<bar>i\<bar>)"

definition writeBigInt :: "int \<Rightarrow> writer" where
  "writeBigInt i w =
     (if go_cmp i 0 = -1 then Inl errNegativeBigInt
      else if go_cmp i 0 = 0 then Inr (encbuf_Write [0x80] w)
      else Inr (encodeString (big_Bytes i) w))"

definition writeBigIntPtr :: "int option \<Rightarrow> writer" where
  "writeBigIntPtr p w = (case p of None \<Rightarrow> Inr (encbuf_Write [0x80] w) | Some i \<Rightarrow> writeBigInt i w)"

definition writeBytes :: "bytes \<Rightarrow> writer" where
  "writeBytes b w = Inr (encodeString b w)"

definition writeByteArray :: "bytes \<Rightarrow> writer" where
  "writeByteArray b w = Inr (encodeString b w)"

definition writeString :: "bytes \<Rightarrow> writer" where
  "writeString s w =
     (if length s = 1 \<and> hd s \<le> 0x7F then Inr (encbuf_Write [hd s] w)
      else Inr (encbuf_Write s (encodeStringHeader (length s) w)))"

fun write_all :: "writer list \<Rightarrow> writer" where
  "write_all [] w = Inr w"
| "write_all (f # fs) w = (case f w of Inl err \<Rightarrow> Inl err | Inr w' \<Rightarrow> write_all fs w')"

definition makeSliceWriter :: "bool \<Rightarrow> writer list \<Rightarrow> writer" where
  "makeSliceWriter tail elems w =
     (if tail then write_all elems w
      else let (lh, w1) = encbuf_list w
           in case write_all elems w1 of Inl err \<Rightarrow> Inl err | Inr w2 \<Rightarrow> Inr (listEnd lh w2))"

definition makeStructWriter :: "writer list \<Rightarrow> writer" where
  "makeStructWriter fs w =
     (let (lh, w1) = encbuf_list w
      in case write_all fs w1 of Inl err \<Rightarrow> Inl err | Inr w2 \<Rightarrow> Inr (listEnd lh w2))"

fun makeWriter :: "rval \<Rightarrow> writer" where
  "makeWriter (VRaw b) = writeRawValue b"
| "makeWriter (VEncoder v) = makeWriter v"
| "makeWriter (VInterface None) = writeRawValue [0xC0]"
| "makeWriter (VInterface (Some v)) = makeWriter v"
| "makeWriter (VBigIntPtr p) = writeBigIntPtr p"
| "makeWriter (VBigInt i) = writeBigInt i"
| "makeWriter (VUint i) = writeUint i"
| "makeWriter (VBool b) = writeBool b"
| "makeWriter (VString s) = writeString s"
| "makeWriter (VBytes b) = writeBytes b"
| "makeWriter (VByteArray b) = writeByteArray b"
| "makeWriter (VSlice tail vs) = makeSliceWriter tail (map makeWriter vs)"
| "makeWriter (VStruct vs) = makeStructWriter (map makeWriter vs)"
| "makeWriter (VPtr v) = makeWriter v"
| "makeWriter VNilByteArray = writeRawValue [0x80]"
| "makeWriter VNilStruct = makeStructWriter []"
| "makeWriter (VNilPtr zero) = makeWriter zero"

definition encbuf_encode :: "rval \<Rightarrow> writer" where
  "encbuf_encode val = makeWriter val"

definition EncodeToBytes :: "rval \<Rightarrow> (rlp_error + bytes) option" where
  "EncodeToBytes val =
     (case encbuf_encode val encbuf_reset of
        Inl err \<Rightarrow> Some (Inl err)
      | Inr eb \<Rightarrow> map_option Inr (toBytes eb))"

definition Encode :: "rval \<Rightarrow> rlp_error + bytes list" where
  "Encode val =
     (case encbuf_encode val encbuf_reset of Inl err \<Rightarrow> Inl err | Inr eb \<Rightarrow> Inr (toWriter eb))"

section \<open>The reference encoding\<close>

definition rlp_head :: "byte \<Rightarrow> byte \<Rightarrow> nat \<Rightarrow> bytes" where
  "rlp_head smalltag largetag n =
     (if n < 56 then [smalltag + of_nat n] else (largetag + of_nat (length (nat_be n))) # nat_be n)"

definition rlp_string :: "bytes \<Rightarrow> bytes" where
  "rlp_string b = (if length b = 1 \<and> hd b \<le> 0x7F then b else rlp_head 0x80 0xB7 (length b) @ b)"

definition rlp_list :: "bytes \<Rightarrow> bytes" where
  "rlp_list payload = rlp_head 0xC0 0xF7 (length payload) @ payload"

fun rlp_spec :: "rval \<Rightarrow> bytes" where
  "rlp_spec (VRaw b) = b"
| "rlp_spec (VEncoder v) = rlp_spec v"
| "rlp_spec (VInterface None) = rlp_list []"
| "rlp_spec (VInterface (Some v)) = rlp_spec v"
| "rlp_spec (VBigIntPtr p) = rlp_string (case p of None \<Rightarrow> [] | Some i \<Rightarrow> nat_be (nat i))"
| "rlp_spec (VBigInt i) = rlp_string (nat_be (nat i))"
| "rlp_spec (VUint i) = rlp_string (nat_be (unat i))"
| "rlp_spec (VBool b) = rlp_string (nat_be (of_bool b))"
| "rlp_spec (VString s) = rlp_string s"
| "rlp_spec (VBytes b) = rlp_string b"
| "rlp_spec (VByteArray b) = rlp_string b"
| "rlp_spec (VSlice tail vs) =
     (if tail then concat (map rlp_spec vs) else rlp_list (concat (map rlp_spec vs)))"
| "rlp_spec (VStruct vs) = rlp_list (concat (map rlp_spec vs))"
| "rlp_spec (VPtr v) = rlp_spec v"
| "rlp_spec VNilByteArray = rlp_string []"
| "rlp_spec VNilStruct = rlp_list []"
| "rlp_spec (VNilPtr zero) = rlp_spec zero"

text \<open>The only values the encoder rejects are negative integers.\<close>

fun rlp_encodable :: "rval \<Rightarrow> bool" where
  "rlp_encodable (VEncoder v) = rlp_encodable v"
| "rlp_encodable (VInterface (Some v)) = rlp_encodable v"
| "rlp_encodable (VBigIntPtr (Some i)) = (0 \<le> i)"
| "rlp_encodable (VBigInt i) = (0 \<le> i)"
| "rlp_encodable (VSlice tail vs) = (\<forall>v \<in> set vs. rlp_encodable v)"
| "rlp_encodable (VStruct vs) = (\<forall>v \<in> set vs. rlp_encodable v)"
| "rlp_encodable (VPtr v) = rlp_encodable v"
| "rlp_encodable (VNilPtr zero) = rlp_encodable zero"
| "rlp_encodable _ = True"

section \<open>Minimal big-endian integers\<close>

lemma nat_be_0 [simp]: "nat_be 0 = []"
  by (simp add: nat_be.simps)

lemma nat_be_pos: "0 < n \<Longrightarrow> nat_be n = nat_be (n div 256) @ [of_nat (n mod 256)]"
  by (subst nat_be.simps) simp

lemma nat_be_Nil [simp]: "nat_be n = [] \<longleftrightarrow> n = 0"
  by (cases "n = 0") (simp_all add: nat_be_pos)

lemma length_nat_be: "256 ^ k \<le> n \<Longrightarrow> n < 256 ^ Suc k \<Longrightarrow> length (nat_be n) = Suc k"
proof (induction k arbitrary: n)
  case (Suc k)
  have "256 ^ k \<le> n div 256" "n div 256 < 256 ^ Suc k" "0 < n"
    using Suc.prems by (auto simp: less_mult_imp_div_less less_eq_div_iff_mult_less_eq mult.commute)
  with Suc.IH [of "n div 256"] show ?case
    by (simp add: nat_be_pos)
qed (simp add: nat_be_pos)

lemma be_bytes_Suc:
  fixes w :: u64
  shows "be_bytes (Suc k) w = be_bytes k (drop_bit 8 w) @ [ucast w]"
proof (rule nth_equalityI)
  fix i
  assume "i < length (be_bytes (Suc k) w)"
  then consider "i < k" | "i = k"
    by fastforce
  then show "be_bytes (Suc k) w ! i = (be_bytes k (drop_bit 8 w) @ [ucast w]) ! i"
  proof cases
    case 1
    then have "8 * (k - i) = 8 * (k - 1 - i) + 8"
      by simp
    then have "drop_bit (8 * (k - i)) w = drop_bit (8 * (k - 1 - i)) (drop_bit 8 w)"
      by (simp only: drop_bit_drop_bit)
    with 1 show ?thesis
      by (simp add: be_bytes_nth nth_append)
  qed (simp add: be_bytes_nth nth_append)
qed simp

lemma byte_of_nat_mod: "(of_nat (n mod 256) :: byte) = of_nat n"
  by (simp add: word_of_nat_eq_iff take_bit_eq_mod)

lemma byte_of_word: "(ucast (w :: u64) :: byte) = of_nat (unat w mod 256)"
  unfolding byte_of_nat_mod by simp

lemma be_bytes_nat_be:
  "256 ^ k \<le> unat w \<Longrightarrow> unat w < 256 ^ Suc k \<Longrightarrow> be_bytes (Suc k) w = nat_be (unat w)" for w :: u64
proof (induction k arbitrary: w)
  case 0
  then have "unat w div 256 = 0" "0 < unat w"
    by auto
  then have "nat_be (unat w) = [of_nat (unat w mod 256)]"
    by (simp only: nat_be_pos nat_be_0 append_Nil)
  then show ?case
    by (simp only: be_bytes_Suc be_bytes_def [of 0] byte_of_word) simp
next
  case (Suc k)
  have "256 ^ k \<le> unat w div 256" "unat w div 256 < 256 ^ Suc k" "0 < unat w"
    using Suc.prems by (auto simp: less_mult_imp_div_less less_eq_div_iff_mult_less_eq mult.commute)
  with Suc.IH [of "drop_bit 8 w"] show ?case
    unfolding be_bytes_Suc [of "Suc k"]
    by (simp add: unat_drop_bit_8 nat_be_pos [of "unat w"] byte_of_word)
qed

lemma putint_nat_be:
  assumes "0 < i"
  shows "putint i = nat_be (unat i)"
proof -
  have be: "be_bytes (Suc k) i = nat_be (unat i)" if "256 ^ k \<le> unat i" "unat i < 256 ^ Suc k" for k
    using that by (rule be_bytes_nat_be)
  have "0 < unat i" "unat i < 2 ^ 64"
    using assms unsigned_less [of i, where ?'a = nat] by (simp_all add: word_less_nat_alt)
  then show ?thesis
    using be [of 0] be [of 1, unfolded Suc_1] be [of 2] be [of 3] be [of 4] be [of 5] be [of 6] be [of 7]
    by (simp add: putint_def word_less_nat_alt)
qed

lemma intsize_nat_be: "0 < i \<Longrightarrow> intsize i = length (nat_be (unat i))"
proof (induction i rule: intsize.induct)
  case (1 i)
  have pos: "0 < unat i"
    using "1.prems" by (simp add: word_less_nat_alt)
  show ?case
  proof (cases "drop_bit 8 i = 0")
    case True
    then have "unat i div 256 = 0"
      using unat_drop_bit_8 [of i] by simp
    with True pos show ?thesis
      by (simp only: intsize.simps [of i] nat_be_pos Let_def if_True) simp
  next
    case False
    then have "0 < drop_bit 8 i"
      by (simp add: word_gt_0)
    with "1.IH" [OF refl False] False pos show ?thesis
      by (simp add: intsize.simps [of i] nat_be_pos [of "unat i"] unat_drop_bit_8)
  qed
qed

lemma unat_of_nat_u64 [simp]: "n < 2 ^ 64 \<Longrightarrow> unat (of_nat n :: u64) = n"
  by (simp add: unat_of_nat take_bit_nat_eq_self)

lemma of_nat_u64_less: "n < 2 ^ 64 \<Longrightarrow> of_nat n < (56 :: u64) \<longleftrightarrow> n < 56"
  by (simp add: word_less_nat_alt)

lemma puthead_spec:
  assumes "n < 2 ^ 64"
  shows "puthead st lt (of_nat n) = rlp_head st lt n"
proof (cases "n < 56")
  case True
  with assms show ?thesis
    by (simp add: puthead_def rlp_head_def of_nat_u64_less byte_of_word byte_of_nat_mod)
next
  case False
  with assms have "0 < (of_nat n :: u64)"
    by (simp add: word_less_nat_alt)
  with assms False show ?thesis
    by (simp add: puthead_def rlp_head_def of_nat_u64_less putint_nat_be Let_def)
qed

lemma headsize_spec:
  assumes "n < 2 ^ 64"
  shows "headsize (of_nat n) = length (rlp_head st lt n)"
proof (cases "n < 56")
  case False
  with assms have "0 < (of_nat n :: u64)"
    by (simp add: word_less_nat_alt)
  with assms False show ?thesis
    by (simp add: headsize_def rlp_head_def of_nat_u64_less intsize_nat_be)
qed (use assms in \<open>simp add: headsize_def rlp_head_def of_nat_u64_less\<close>)

section \<open>The buffer and its rendering\<close>

text \<open>
  The bytes a buffer stands for, from string data that starts at offset \<open>base\<close> and the headers
  that belong to it.
\<close>

fun heads_ok :: "nat \<Rightarrow> nat \<Rightarrow> listhead list \<Rightarrow> bool" where
  "heads_ok base e [] \<longleftrightarrow> base \<le> e"
| "heads_ok base e (h # hs) \<longleftrightarrow> base \<le> lh_offset h \<and> heads_ok (lh_offset h) e hs"

fun render :: "nat \<Rightarrow> bytes \<Rightarrow> listhead list \<Rightarrow> bytes" where
  "render base s [] = s"
| "render base s (h # hs) =
     take (lh_offset h - base) s @ listhead_encode h @
     render (lh_offset h) (drop (lh_offset h - base) s) hs"

definition heads_len :: "listhead list \<Rightarrow> nat" where
  "heads_len hs = sum_list (map (length \<circ> listhead_encode) hs)"

lemma heads_len_simps [simp]:
  "heads_len [] = 0" "heads_len (h # hs) = length (listhead_encode h) + heads_len hs"
  "heads_len (hs @ hs') = heads_len hs + heads_len hs'"
  by (simp_all add: heads_len_def)

lemma heads_ok_le: "heads_ok base e hs \<Longrightarrow> base \<le> e"
  by (induction hs arbitrary: base) force+

lemma heads_ok_append:
  "heads_ok base e hs \<Longrightarrow> heads_ok e e' hs' \<Longrightarrow> heads_ok base e' (hs @ hs')"
proof (induction hs arbitrary: base)
  case Nil
  then show ?case
    by (cases hs') auto
qed auto

lemma heads_ok_drop:
  assumes "heads_ok base (base + length s) (h # hs)"
  shows "lh_offset h \<le> base + length s"
    and "lh_offset h + length (drop (lh_offset h - base) s) = base + length s"
    and "heads_ok (lh_offset h) (lh_offset h + length (drop (lh_offset h - base) s)) hs"
proof -
  have ok: "base \<le> lh_offset h" "heads_ok (lh_offset h) (base + length s) hs"
    using assms by simp_all
  then show le: "lh_offset h \<le> base + length s"
    using heads_ok_le by blast
  show eq: "lh_offset h + length (drop (lh_offset h - base) s) = base + length s"
    using ok(1) le by simp
  show "heads_ok (lh_offset h) (lh_offset h + length (drop (lh_offset h - base) s)) hs"
    unfolding eq by (rule ok(2))
qed

lemma length_render:
  "heads_ok base (base + length s) hs \<Longrightarrow> length (render base s hs) = length s + heads_len hs"
proof (induction hs arbitrary: base s)
  case (Cons h hs)
  note drop = heads_ok_drop [OF Cons.prems]
  have "base \<le> lh_offset h"
    using Cons.prems by simp
  then show ?case
    using drop(1,2) Cons.IH [OF drop(3)] by simp
qed simp

lemma render_append:
  "heads_ok base (base + length s) hs \<Longrightarrow> heads_ok (base + length s) e hs' \<Longrightarrow>
     render base (s @ s') (hs @ hs') = render base s hs @ render (base + length s) s' hs'"
proof (induction hs arbitrary: base s)
  case Nil
  then show ?case
    by (cases hs') auto
next
  case (Cons h hs)
  note drop = heads_ok_drop [OF Cons.prems(1)]
  have "lh_offset h - base \<le> length s"
    using drop(1) by simp
  then show ?case
    using Cons.IH [OF drop(3)] Cons.prems(2) unfolding drop(2) by simp
qed

text \<open>A writer emits \<open>bs\<close>: what it appends to any buffer renders as \<open>bs\<close>.\<close>

definition encbuf_extend :: "encbuf \<Rightarrow> bytes \<Rightarrow> listhead list \<Rightarrow> encbuf" where
  "encbuf_extend w s hs =
     \<lparr>eb_str = eb_str w @ s, eb_lheads = eb_lheads w @ hs, eb_lhsize = eb_lhsize w + heads_len hs\<rparr>"

definition emits :: "writer \<Rightarrow> bytes \<Rightarrow> bool" where
  "emits f bs \<longleftrightarrow> (\<forall>w. \<exists>s hs. f w = Inr (encbuf_extend w s hs) \<and>
     heads_ok (length (eb_str w)) (length (eb_str w) + length s) hs \<and>
     render (length (eb_str w)) s hs = bs)"

lemma emitsE:
  assumes "emits f bs"
  obtains s hs where "f w = Inr (encbuf_extend w s hs)"
    "heads_ok (length (eb_str w)) (length (eb_str w) + length s) hs"
    "render (length (eb_str w)) s hs = bs"
  using assms unfolding emits_def by blast

lemma encbuf_extend_extend:
  "encbuf_extend (encbuf_extend w s hs) s' hs' = encbuf_extend w (s @ s') (hs @ hs')"
  by (simp add: encbuf_extend_def)

lemma encbuf_Write_extend: "encbuf_Write b w = encbuf_extend w b []"
  by (simp add: encbuf_Write_def encbuf_extend_def)

lemma emits_Write: "emits (\<lambda>w. Inr (encbuf_Write b w)) b"
  by (simp add: emits_def encbuf_Write_extend exI [of _ b] exI [of _ "[]"])

lemma emits_write_all_Nil: "emits (write_all []) []"
  by (simp add: emits_def encbuf_extend_def exI [of _ "[]"])

lemma emits_write_all_Cons:
  assumes "emits f bs" and "emits (write_all fs) bs'"
  shows "emits (write_all (f # fs)) (bs @ bs')"
  unfolding emits_def
proof
  fix w :: encbuf
  let ?n = "length (eb_str w)"
  obtain s hs where 1: "f w = Inr (encbuf_extend w s hs)" "heads_ok ?n (?n + length s) hs"
    "render ?n s hs = bs"
    using assms(1) by (rule emitsE)
  obtain s' hs' where 2: "write_all fs (encbuf_extend w s hs) = Inr (encbuf_extend (encbuf_extend w s hs) s' hs')"
    "heads_ok (?n + length s) (?n + length s + length s') hs'" "render (?n + length s) s' hs' = bs'"
    using assms(2) by (rule emitsE [of _ _ "encbuf_extend w s hs"]) (simp add: encbuf_extend_def)
  have "write_all (f # fs) w = Inr (encbuf_extend w (s @ s') (hs @ hs'))"
    by (simp add: 1(1) 2(1) encbuf_extend_extend)
  moreover have "heads_ok ?n (?n + length (s @ s')) (hs @ hs')"
    using heads_ok_append [OF 1(2) 2(2)] by (simp add: add.assoc)
  moreover have "render ?n (s @ s') (hs @ hs') = bs @ bs'"
    using render_append [OF 1(2) 2(2), of s'] 1(3) 2(3) by simp
  ultimately show "\<exists>s hs. write_all (f # fs) w = Inr (encbuf_extend w s hs) \<and>
      heads_ok ?n (?n + length s) hs \<and> render ?n s hs = bs @ bs'"
    by blast
qed

lemma emits_write_all:
  "list_all2 emits fs bss \<Longrightarrow> emits (write_all fs) (concat bss)"
  by (induction fs bss rule: list_all2_induct)
    (auto simp: emits_write_all_Nil intro: emits_write_all_Cons simp del: write_all.simps)

lemma emits_struct:
  assumes "emits (write_all fs) bs" and "length bs < 2 ^ 64"
  shows "emits (makeStructWriter fs) (rlp_list bs)"
  unfolding emits_def
proof
  fix w :: encbuf
  let ?n = "length (eb_str w)"
  let ?open = "\<lparr>lh_offset = ?n, lh_size = eb_lhsize w\<rparr>" and ?h = "\<lparr>lh_offset = ?n, lh_size = length bs\<rparr>"
  let ?w1 = "w\<lparr>eb_lheads := eb_lheads w @ [?open]\<rparr>"
  obtain s hs where body: "write_all fs ?w1 = Inr (encbuf_extend ?w1 s hs)"
    "heads_ok ?n (?n + length s) hs" "render ?n s hs = bs"
    using assms(1) by (rule emitsE [of _ _ ?w1]) simp
  have enc: "listhead_encode ?h = rlp_head 0xC0 0xF7 (length bs)"
    using assms(2) by (simp add: listhead_encode_def puthead_spec)
  have len: "length bs = length s + heads_len hs"
    using length_render [OF body(2)] body(3) by simp
  have size: "headsize (of_nat (length bs)) = length (listhead_encode ?h)"
    unfolding enc using assms(2) by (rule headsize_spec)
  have "listEnd (length (eb_lheads w)) (encbuf_extend ?w1 s hs) = encbuf_extend w s (?h # hs)"
  proof -
    let ?w2 = "encbuf_extend ?w1 s hs"
    have "eb_lheads ?w2 ! length (eb_lheads w) = ?open"
      by (simp add: encbuf_extend_def)
    moreover have "encbuf_size ?w2 - ?n - eb_lhsize w = length bs"
      by (simp add: encbuf_size_def encbuf_extend_def len)
    moreover have "(if length bs < 56 then 1 else 1 + intsize (of_nat (length bs))) =
      length (listhead_encode ?h)"
      using size assms(2) by (simp add: headsize_def of_nat_u64_less)
    ultimately show ?thesis
      unfolding listEnd_def Let_def by (simp add: encbuf_extend_def split: if_splits)
  qed
  then have "makeStructWriter fs w = Inr (encbuf_extend w s (?h # hs))"
    by (simp add: makeStructWriter_def encbuf_list_def body(1))
  moreover have "heads_ok ?n (?n + length s) (?h # hs)"
    using body(2) by simp
  moreover have "render ?n s (?h # hs) = rlp_list bs"
    using enc body(3) by (simp add: rlp_list_def)
  ultimately show "\<exists>s hs. makeStructWriter fs w = Inr (encbuf_extend w s hs) \<and>
      heads_ok ?n (?n + length s) hs \<and> render ?n s hs = rlp_list bs"
    by blast
qed

text \<open>The writers of the leaf values.\<close>

lemma emits_encodeString:
  assumes "length b < 2 ^ 64"
  shows "emits (\<lambda>w. Inr (encodeString b w)) (rlp_string b)"
proof (cases "length b = 1 \<and> hd b \<le> 0x7F")
  case True
  then have "[hd b] = b"
    by (cases b) auto
  then show ?thesis
    using True emits_Write [of b] by (simp add: encodeString_def rlp_string_def)
next
  case False
  have "encodeStringHeader (length b) w = encbuf_Write (rlp_head 0x80 0xB7 (length b)) w" for w
    using assms puthead_spec [OF assms, of "0x80" "0xB7"]
    by (auto simp: encodeStringHeader_def puthead_def rlp_head_def of_nat_u64_less Let_def)
  then have "encodeString b w = encbuf_Write (rlp_string b) w" for w
    using False by (auto simp: encodeString_def rlp_string_def encbuf_Write_def)
  then show ?thesis
    using emits_Write by simp
qed

lemma writeString_encodeString: "writeString s = (\<lambda>w. Inr (encodeString s w))"
  by (auto simp: writeString_def encodeString_def)

lemma length_nat_be_u64: "length (nat_be (unat (i :: u64))) \<le> 8"
proof (cases "i = 0")
  case False
  then have "nat_be (unat i) = putint i"
    using putint_nat_be [of i] by (simp add: word_gt_0)
  then show ?thesis
    by (simp add: putint_def)
qed simp

lemma rlp_string_empty [simp]: "rlp_string [] = [0x80]"
  by (simp add: rlp_string_def rlp_head_def)

lemma rlp_list_empty [simp]: "rlp_list [] = [0xC0]"
  by (simp add: rlp_list_def rlp_head_def)

lemma nat_be_small: "0 < n \<Longrightarrow> n < 256 \<Longrightarrow> nat_be n = [of_nat n]"
  by (simp only: nat_be_pos) simp

lemma rlp_string_single: "n < 128 \<Longrightarrow> rlp_string [of_nat n] = [of_nat n]"
  by (simp add: rlp_string_def word_le_nat_alt unat_of_nat take_bit_nat_eq_self)

lemma length_nat_be_ge2: "256 \<le> n \<Longrightarrow> 2 \<le> length (nat_be n)"
  by (subst nat_be_pos, simp, subst nat_be_pos) (auto simp: div_greater_zero_iff)

lemma rlp_string_uint:
  assumes "128 \<le> n" and "length (nat_be n) < 56"
  shows "rlp_string (nat_be n) = (0x80 + of_nat (length (nat_be n))) # nat_be n"
proof -
  have "\<not> (length (nat_be n) = 1 \<and> hd (nat_be n) \<le> 0x7F)"
  proof (cases "n < 256")
    case True
    with assms show ?thesis
      by (simp add: nat_be_small word_le_nat_alt unat_of_nat take_bit_nat_eq_self)
  next
    case False
    then show ?thesis
      using length_nat_be_ge2 [of n] by simp
  qed
  with assms(2) show ?thesis
    by (auto simp: rlp_string_def rlp_head_def)
qed

lemma emits_writeUint: "emits (writeUint i) (rlp_string (nat_be (unat i)))"
proof -
  have "writeUint i = (\<lambda>w. Inr (encbuf_Write (rlp_string (nat_be (unat i))) w))"
  proof (cases "i < 128")
    case True
    then have lt: "unat i < 128"
      by (simp add: word_less_nat_alt)
    show ?thesis
    proof (cases "i = 0")
      case False
      with lt have "nat_be (unat i) = [of_nat (unat i)]"
        by (intro nat_be_small) (simp_all add: unat_gt_0)
      then have "rlp_string (nat_be (unat i)) = [ucast i]"
        using rlp_string_single [OF lt] by simp
      with True False show ?thesis
        by (simp add: writeUint_def fun_eq_iff)
    qed (simp add: writeUint_def fun_eq_iff)
  next
    case False
    then have "128 \<le> unat i" "0 < i"
      by (simp_all add: word_less_nat_alt)
    with False rlp_string_uint [of "unat i"] length_nat_be_u64 [of i] show ?thesis
      by (auto simp: writeUint_def putint_nat_be Let_def)
  qed
  then show ?thesis
    using emits_Write by simp
qed

lemma length_rlp_string: "length b \<le> length (rlp_string b)"
  by (simp add: rlp_string_def)

lemma length_rlp_list: "length b < length (rlp_list b)"
  by (simp add: rlp_list_def rlp_head_def)

lemma emits_writeBigInt:
  assumes "0 \<le> i" and "length (rlp_string (nat_be (nat i))) < 2 ^ 64"
  shows "emits (writeBigInt i) (rlp_string (nat_be (nat i)))"
proof (cases "i = 0")
  case True
  then show ?thesis
    using emits_Write [of "[0x80]"] by (simp add: writeBigInt_def [abs_def] go_cmp_def)
next
  case False
  with assms(1) have "writeBigInt i = (\<lambda>w. Inr (encodeString (nat_be (nat i)) w))"
    by (auto simp: writeBigInt_def big_Bytes_def go_cmp_def)
  moreover have "length (nat_be (nat i)) < 2 ^ 64"
    using assms(2) length_rlp_string by (rule order_le_less_trans [rotated])
  ultimately show ?thesis
    using emits_encodeString by simp
qed

lemma emits_writeBool: "emits (writeBool b) (rlp_string (nat_be (of_bool b)))"
proof -
  have "rlp_string (nat_be (of_bool b)) = [if b then 0x01 else 0x80]"
    using rlp_string_single [of 1] by (simp add: nat_be_small)
  then show ?thesis
    using emits_Write unfolding writeBool_def [abs_def] by simp
qed

lemma length_le_concat: "x \<in> set xs \<Longrightarrow> length x \<le> length (concat xs)"
  by (induction xs) auto

lemma emits_write_all_map:
  assumes "\<And>v. v \<in> set vs \<Longrightarrow> rlp_encodable v \<Longrightarrow> length (rlp_spec v) < 2 ^ 64 \<Longrightarrow>
      emits (makeWriter v) (rlp_spec v)"
    and "\<forall>v \<in> set vs. rlp_encodable v" and "length (concat (map rlp_spec vs)) < 2 ^ 64"
  shows "emits (write_all (map makeWriter vs)) (concat (map rlp_spec vs))"
proof -
  have "length (rlp_spec v) < 2 ^ 64" if "v \<in> set vs" for v
    using length_le_concat [of "rlp_spec v" "map rlp_spec vs"] that assms(3) by simp
  then show ?thesis
    using assms(1,2) by (intro emits_write_all) (simp add: list_all2_map1 list_all2_map2 list_all2_same)
qed

lemma makeWriter_emits:
  "rlp_encodable v \<Longrightarrow> length (rlp_spec v) < 2 ^ 64 \<Longrightarrow> emits (makeWriter v) (rlp_spec v)"
proof (induction v)
  case (VInterface p)
  then show ?case
    using emits_Write by (cases p) (simp_all add: writeRawValue_def [abs_def])
next
  case (VBigIntPtr p)
  then show ?case
    using emits_Write emits_writeBigInt by (cases p) (simp_all add: writeBigIntPtr_def [abs_def])
next
  case (VSlice tail vs)
  show ?case
  proof (cases tail)
    case True
    with VSlice show ?thesis
      using emits_write_all_map [of vs] by (simp add: makeSliceWriter_def [abs_def])
  next
    case False
    have len: "length (concat (map rlp_spec vs)) < 2 ^ 64"
      using VSlice.prems(2) False length_rlp_list [of "concat (map rlp_spec vs)"] by simp
    have "emits (write_all (map makeWriter vs)) (concat (map rlp_spec vs))"
      using VSlice.IH VSlice.prems(1) len by (intro emits_write_all_map) auto
    from emits_struct [OF this len] False show ?thesis
      by (simp add: makeSliceWriter_def [abs_def] makeStructWriter_def [abs_def])
  qed
next
  case (VStruct vs)
  have len: "length (concat (map rlp_spec vs)) < 2 ^ 64"
    using VStruct.prems(2) length_rlp_list [of "concat (map rlp_spec vs)"] by simp
  have "emits (write_all (map makeWriter vs)) (concat (map rlp_spec vs))"
    using VStruct.IH VStruct.prems(1) len by (intro emits_write_all_map) auto
  from emits_struct [OF this len] show ?case
    by simp
next
  case VNilStruct
  show ?case
    using emits_struct [OF emits_write_all_Nil] by simp
qed (use emits_Write emits_writeBigInt emits_writeUint emits_writeBool emits_encodeString length_rlp_string
  in \<open>auto simp: writeRawValue_def [abs_def] writeString_encodeString writeBytes_def [abs_def]
    writeByteArray_def [abs_def] dest: order_le_less_trans [OF length_rlp_string]\<close>)

text \<open>Merging the headers into a buffer of the computed size gives the rendering.\<close>

lemma copy_at_fits:
  "pos + length src \<le> length out \<Longrightarrow>
     copy_at out pos src = (take pos out @ src @ drop (pos + length src) out, length src)"
  by (simp add: copy_at_def Let_def)

lemma toBytes_loop_render:
  "heads_ok strpos (length str) hs \<Longrightarrow>
   length out = pos + length (render strpos (drop strpos str) hs) \<Longrightarrow>
   toBytes_loop str strpos pos out hs = Some (take pos out @ render strpos (drop strpos str) hs)"
proof (induction hs arbitrary: strpos pos out)
  case Nil
  then show ?case
    by (simp add: copy_at_fits)
next
  case (Cons h hs)
  let ?s = "take (lh_offset h - strpos) (drop strpos str)" and ?e = "listhead_encode h"
  let ?r = "render (lh_offset h) (drop (lh_offset h) str) hs"
  have off: "strpos \<le> lh_offset h" "lh_offset h \<le> length str" "heads_ok (lh_offset h) (length str) hs"
    using Cons.prems(1) heads_ok_le by auto
  then have s: "length ?s = lh_offset h - strpos" "drop (lh_offset h - strpos) (drop strpos str) = drop (lh_offset h) str"
    by simp_all
  have len: "length out = pos + length ?s + length ?e + length ?r"
    using Cons.prems(2) s(2) by simp
  let ?out1 = "take pos out @ ?s @ drop (pos + length ?s) out"
  let ?out2 = "take (pos + length ?s) ?out1 @ ?e @ drop (pos + length ?s + length ?e) ?out1"
  have c1: "copy_at out pos ?s = (?out1, length ?s)"
    using len by (intro copy_at_fits) linarith
  have l1: "length ?out1 = length out"
    using len by simp
  have c2: "copy_at ?out1 (pos + length ?s) ?e = (?out2, length ?e)"
    using len l1 by (intro copy_at_fits) linarith
  have "\<not> (length out < pos \<or> lh_offset h < strpos \<or> length str < lh_offset h)"
    "\<not> length ?out1 < pos + length ?s + length ?e"
    using len l1 off(1,2) by linarith+
  then have "toBytes_loop str strpos pos out (h # hs) =
    toBytes_loop str (strpos + length ?s) (pos + length ?s + length ?e) ?out2 hs"
    by (simp only: toBytes_loop.simps c1 c2 Let_def prod.case fst_conv if_False)
  also have "strpos + length ?s = lh_offset h"
    using s(1) off(1) by simp
  also have "toBytes_loop str (lh_offset h) (pos + length ?s + length ?e) ?out2 hs =
      Some (take (pos + length ?s + length ?e) ?out2 @ ?r)"
    using len l1 by (intro Cons.IH off(3)) simp
  also have "take (pos + length ?s + length ?e) ?out2 = take pos out @ ?s @ ?e"
    using len off(2) by simp
  finally show ?case
    using s(2) by simp
qed

lemma toWriter_loop_render:
  "heads_ok strpos (length str) hs \<Longrightarrow>
   concat (toWriter_loop str strpos hs) = render strpos (drop strpos str) hs"
proof (induction hs arbitrary: strpos)
  case (Cons h hs)
  have "lh_offset h - strpos > 0 \<or> lh_offset h = strpos"
    using Cons.prems by auto
  then show ?case
    using Cons by auto
qed auto

lemma EncodeToBytes_spec:
  assumes "rlp_encodable v" and "length (rlp_spec v) < 2 ^ 64"
  shows "EncodeToBytes v = Some (Inr (rlp_spec v))" and "map_sum id concat (Encode v) = Inr (rlp_spec v)"
proof -
  obtain s hs where eb: "makeWriter v encbuf_reset = Inr (encbuf_extend encbuf_reset s hs)"
    "heads_ok 0 (length s) hs" "render 0 s hs = rlp_spec v"
    using makeWriter_emits [OF assms] by (rule emitsE [of _ _ encbuf_reset]) (simp add: encbuf_reset_def)
  have len: "length (rlp_spec v) = length s + heads_len hs"
    using length_render [of 0 s hs] eb(2,3) by simp
  let ?eb = "encbuf_extend encbuf_reset s hs"
  have "toBytes ?eb = Some (rlp_spec v)"
    using toBytes_loop_render [of 0 s hs "replicate (encbuf_size ?eb) 0" 0] eb(2,3) len
    by (simp add: toBytes_def encbuf_extend_def encbuf_reset_def encbuf_size_def)
  then show "EncodeToBytes v = Some (Inr (rlp_spec v))"
    by (simp add: EncodeToBytes_def encbuf_encode_def eb(1))
  have "concat (toWriter ?eb) = rlp_spec v"
    using toWriter_loop_render [of 0 s hs] eb(2,3)
    by (simp add: toWriter_def encbuf_extend_def encbuf_reset_def)
  then show "map_sum id concat (Encode v) = Inr (rlp_spec v)"
    by (simp add: Encode_def encbuf_encode_def eb(1))
qed

text \<open>A negative integer anywhere in the value is the one error of the encoder.\<close>

definition writer_total :: "bool \<Rightarrow> writer \<Rightarrow> bool" where
  "writer_total ok f \<longleftrightarrow> (\<forall>w. if ok then \<exists>w'. f w = Inr w' else f w = Inl errNegativeBigInt)"

lemma write_all_total:
  assumes "list_all2 writer_total oks fs"
  shows "writer_total (list_all (\<lambda>ok. ok) oks) (write_all fs)"
  using assms
proof (induction oks fs rule: list_all2_induct)
  case (Cons ok oks f fs)
  then show ?case
    unfolding writer_total_def
    by (cases ok; cases "list_all (\<lambda>ok. ok) oks"; simp) (metis old.sum.simps(6))+
qed (simp add: writer_total_def)

lemma write_all_map_total:
  assumes "\<And>v. v \<in> set vs \<Longrightarrow> writer_total (rlp_encodable v) (makeWriter v)"
  shows "writer_total (\<forall>v \<in> set vs. rlp_encodable v) (write_all (map makeWriter vs))"
  using write_all_total [of "map rlp_encodable vs" "map makeWriter vs"] assms
  by (simp add: list_all2_map1 list_all2_map2 list_all2_same list_all_iff)

lemma makeStructWriter_total:
  "writer_total ok (write_all fs) \<Longrightarrow> writer_total ok (makeStructWriter fs)"
  unfolding writer_total_def makeStructWriter_def encbuf_list_def
  by (auto split: sum.splits) (metis sum.distinct(1))+

lemma makeWriter_total: "writer_total (rlp_encodable v) (makeWriter v)"
proof (induction v)
  case (VInterface p)
  then show ?case
    by (cases p) (simp_all add: writer_total_def writeRawValue_def)
next
  case (VBigIntPtr p)
  then show ?case
    by (cases p) (auto simp: writer_total_def writeBigIntPtr_def writeBigInt_def go_cmp_def)
next
  case (VSlice tail vs)
  then have body: "writer_total (\<forall>v \<in> set vs. rlp_encodable v) (write_all (map makeWriter vs))"
    by (rule write_all_map_total)
  show ?case
  proof (cases tail)
    case True
    with body show ?thesis
      by (simp add: makeSliceWriter_def [abs_def])
  next
    case False
    with makeStructWriter_total [OF body] show ?thesis
      by (simp add: makeSliceWriter_def [abs_def] makeStructWriter_def [abs_def])
  qed
next
  case (VStruct vs)
  then show ?case
    using makeStructWriter_total [OF write_all_map_total] by simp
next
  case VNilStruct
  show ?case
    using makeStructWriter_total [OF write_all_total [of "[]" "[]"]] by simp
qed (auto simp: writer_total_def writeRawValue_def writeBigInt_def go_cmp_def writeUint_def writeBool_def
  writeString_def writeBytes_def writeByteArray_def Let_def)



end
