(* ===== verification/RLP_Raw.thy ===== *)
theory RLP_Raw
  imports RLP_Encode
begin

text \<open>
  \<^verbatim>\<open>rlp/raw.go\<close>: splitting encoded values off a byte slice.  The lemmas show that the
  splitters recover the content that the encoder put behind a header.
\<close>

datatype Kind = KByte | KString | KList

definition ListSize :: "u64 \<Rightarrow> u64" where
  "ListSize contentSize = of_nat (headsize contentSize) + contentSize"

definition be_word :: "bytes \<Rightarrow> u64" where
  "be_word bs = fold (\<lambda>b w. push_bit 8 w OR ucast b) bs 0"

definition readSize :: "bytes \<Rightarrow> byte \<Rightarrow> rlp_error + u64" where
  "readSize b slen =
     (if unat slen > length b then Inl io_ErrUnexpectedEOF
      else let s = (if 1 \<le> slen \<and> slen \<le> 8 then be_word (take (unat slen) b) else 0)
           in if s < 56 \<or> hd b = 0 then Inl ErrCanonSize else Inr s)"

definition raw_readKind :: "bytes \<Rightarrow> rlp_error + (Kind \<times> u64 \<times> u64)" where
  "raw_readKind buf =
     (if buf = [] then Inl io_ErrUnexpectedEOF
      else
        let b = hd buf;
            r = (if b < 0x80 then Inr (KByte, 0, 1)
                 else if b < 0xB8 then
                   let contentsize = ucast (b - 0x80)
                   in if contentsize = 1 \<and> length buf > 1 \<and> buf ! 1 < 128 then Inl ErrCanonSize
                      else Inr (KString, 1, contentsize)
                 else if b < 0xC0 then
                   map_sum id (\<lambda>cs. (KString, ucast (b - 0xB7) + 1, cs)) (readSize (tl buf) (b - 0xB7))
                 else if b < 0xF8 then Inr (KList, 1, ucast (b - 0xC0))
                 else map_sum id (\<lambda>cs. (KList, ucast (b - 0xF7) + 1, cs)) (readSize (tl buf) (b - 0xF7)))
        in case r of
             Inl err \<Rightarrow> Inl err
           | Inr (k, tagsize, contentsize) \<Rightarrow>
               if contentsize > of_nat (length buf) - tagsize then Inl ErrValueTooLarge
               else Inr (k, tagsize, contentsize))"

definition Split :: "bytes \<Rightarrow> rlp_error + (Kind \<times> bytes \<times> bytes)" where
  "Split b =
     (case raw_readKind b of
        Inl err \<Rightarrow> Inl err
      | Inr (k, ts, cs) \<Rightarrow> Inr (k, take (unat cs) (drop (unat ts) b), drop (unat ts + unat cs) b))"

definition SplitString :: "bytes \<Rightarrow> rlp_error + (bytes \<times> bytes)" where
  "SplitString b =
     (case Split b of
        Inl err \<Rightarrow> Inl err
      | Inr (k, content, rest) \<Rightarrow> if k = KList then Inl ErrExpectedString else Inr (content, rest))"

definition SplitList :: "bytes \<Rightarrow> rlp_error + (bytes \<times> bytes)" where
  "SplitList b =
     (case Split b of
        Inl err \<Rightarrow> Inl err
      | Inr (k, content, rest) \<Rightarrow> if k \<noteq> KList then Inl ErrExpectedList else Inr (content, rest))"

lemma raw_readKind_progress:
  "raw_readKind buf = Inr (k, ts, cs) \<Longrightarrow> buf \<noteq> [] \<and> 0 < unat ts + unat cs"
  by (auto simp: raw_readKind_def Let_def map_sum_eq_Inr split: if_splits sum.splits)

function CountValues_loop :: "nat \<Rightarrow> bytes \<Rightarrow> rlp_error + nat" where
  "CountValues_loop i b =
     (if b = [] then Inr i
      else case raw_readKind b of
             Inl err \<Rightarrow> Inl err
           | Inr (_, tagsize, sz) \<Rightarrow> CountValues_loop (Suc i) (drop (unat tagsize + unat sz) b))"
  by pat_completeness auto
termination
  by (relation "measure (\<lambda>(i, b). length b)") (use raw_readKind_progress in fastforce)+

declare CountValues_loop.simps [simp del]

definition CountValues :: "bytes \<Rightarrow> rlp_error + nat" where
  "CountValues b = CountValues_loop 0 b"

section \<open>Big-endian numbers\<close>

definition be_nat :: "bytes \<Rightarrow> nat" where
  "be_nat bs = fold (\<lambda>b n. n * 256 + unat b) bs 0"

lemma be_nat_snoc [simp]: "be_nat (bs @ [b]) = be_nat bs * 256 + unat b" "be_nat [] = 0"
  by (simp_all add: be_nat_def)

lemma be_nat_bound: "be_nat bs < 256 ^ length bs"
proof (induction bs rule: rev_induct)
  case (snoc b bs)
  have "unat b < 256"
    using unsigned_less [of b, where ?'a = nat] by simp
  then have "be_nat bs * 256 + unat b < Suc (be_nat bs) * 256"
    by simp
  also have "\<dots> \<le> 256 ^ length bs * 256"
    using snoc by (intro mult_le_mono1) simp
  finally show ?case
    by simp
qed simp

lemma be_nat_nat_be [simp]: "be_nat (nat_be n) = n"
proof (induction n rule: nat_be.induct)
  case (1 n)
  then show ?case
    by (cases "n = 0") (simp_all add: nat_be_pos unat_of_nat take_bit_nat_eq_self)
qed

lemma be_word_snoc [simp]:
  "be_word (bs @ [b]) = push_bit 8 (be_word bs) OR ucast b" "be_word [] = 0"
  by (simp_all add: be_word_def)

lemma nat_be_be_nat: "bs \<noteq> [] \<Longrightarrow> hd bs \<noteq> 0 \<Longrightarrow> nat_be (be_nat bs) = bs"
proof (induction bs rule: rev_induct)
  case (snoc b bs)
  have b: "unat b < 256"
    by (rule unat_byte_less)
  show ?case
  proof (cases "bs = []")
    case True
    with snoc.prems have "0 < unat b"
      by (simp add: unat_gt_0)
    with b show ?thesis
      using be_nat_snoc(1) [of "[]" b] by (simp add: True nat_be_small)
  next
    case False
    with snoc have bs: "nat_be (be_nat bs) = bs"
      by simp
    then have "0 < be_nat bs"
      using False nat_be_0 by (metis bot_nat_0.not_eq_extremum)
    then show ?thesis
      using b bs nat_be_pos [of "be_nat bs * 256 + unat b"] by simp
  qed
qed simp

definition pad_left :: "nat \<Rightarrow> bytes \<Rightarrow> bytes" where
  "pad_left n b = replicate (n - length b) 0 @ b"

lemma length_nat_be_be_nat: "length (nat_be (be_nat bs)) \<le> length bs"
proof (induction bs rule: rev_induct)
  case (snoc b bs)
  then show ?case
    using nat_be_pos [of "be_nat bs * 256 + unat b"] unat_byte_less [of b]
    by (cases "be_nat bs * 256 + unat b = 0") auto
qed simp

lemma pad_nat_be_be_nat: "pad_left (length bs) (nat_be (be_nat bs)) = bs"
proof (induction bs rule: rev_induct)
  case (snoc b bs)
  show ?case
  proof (cases "be_nat bs * 256 + unat b = 0")
    case True
    then have "bs = replicate (length bs) 0" "b = 0"
      using snoc by (simp_all add: pad_left_def unat_eq_0)
    then have "0 # bs = bs @ [b]"
      by (metis replicate_append_same)
    then show ?thesis
      using True \<open>bs = _\<close> by (simp add: pad_left_def)
  next
    case False
    then have "nat_be (be_nat (bs @ [b])) = nat_be (be_nat bs) @ [b]"
      using nat_be_pos [of "be_nat bs * 256 + unat b"] unat_byte_less [of b] by simp
    then show ?thesis
      using snoc by (simp add: pad_left_def)
  qed
qed (simp add: pad_left_def)

lemma unat_be_word: "length bs \<le> 8 \<Longrightarrow> unat (be_word bs) = be_nat bs"
proof (induction bs rule: rev_induct)
  case (snoc b bs)
  then have "unat (be_word bs) = be_nat bs" and "length bs \<le> 7"
    by simp_all
  moreover have "be_nat bs < 256 ^ 7"
    using be_nat_bound [of bs] power_increasing [OF \<open>length bs \<le> 7\<close>, of "256 :: nat"] by simp
  ultimately show ?case
    by (simp add: unat_push_bit_or_byte)
qed simp

lemma be_word_nat_be:
  assumes "n < 2 ^ 64"
  shows "be_word (nat_be n) = of_nat n"
proof -
  have "length (nat_be n) \<le> 8"
    using length_nat_be_u64 [of "of_nat n"] assms by simp
  then show ?thesis
    using assms by (simp add: word_unat_eq_iff unat_be_word)
qed

lemma hd_nat_be: "0 < n \<Longrightarrow> hd (nat_be n) \<noteq> 0"
proof (induction n rule: nat_be.induct)
  case (1 n)
  show ?case
  proof (cases "n < 256")
    case True
    with "1.prems" have "unat (of_nat n :: byte) = n"
      by (simp add: unat_of_nat take_bit_nat_eq_self)
    with True "1.prems" show ?thesis
      by (metis bot_nat_0.not_eq_extremum list.sel(1) nat_be_small unsigned_0)
  next
    case False
    with 1 show ?thesis
      by (simp add: nat_be_pos [of n] hd_append div_greater_zero_iff)
  qed
qed

lemma readSize_nat_be:
  assumes "56 \<le> n" and "n < 2 ^ 64"
  shows "readSize (nat_be n @ rest) (of_nat (length (nat_be n))) = Inr (of_nat n)"
proof -
  let ?L = "length (nat_be n)"
  have L: "1 \<le> ?L" "?L \<le> 8"
    using length_nat_be_u64 [of "of_nat n"] assms by (simp_all add: Suc_le_eq)
  then have unat: "unat (of_nat ?L :: byte) = ?L"
    by (simp add: unat_of_nat take_bit_nat_eq_self)
  have "hd (nat_be n @ rest) \<noteq> 0"
    using hd_nat_be [of n] assms(1) by (simp add: hd_append)
  moreover have "\<not> of_nat n < (56 :: u64)"
    using assms by (simp add: word_less_nat_alt)
  ultimately show ?thesis
    using L assms(2) by (simp add: readSize_def unat word_le_nat_alt be_word_nat_be Let_def)
qed

section \<open>Splitting encoded values\<close>

abbreviation single_byte :: "bytes \<Rightarrow> bool" where
  "single_byte b \<equiv> length b = 1 \<and> hd b \<le> 0x7F"

lemma tag_string_short:
  assumes "n < 56"
  shows "\<not> 0x80 + of_nat n < (0x80 :: byte)" "0x80 + of_nat n < (0xB8 :: byte)"
  using assms by (simp_all add: word_less_nat_alt unat_tag)

lemma tag_string_long:
  assumes "1 \<le> n" and "n \<le> 8"
  shows "\<not> 0xB7 + of_nat n < (0x80 :: byte)" "\<not> 0xB7 + of_nat n < (0xB8 :: byte)"
    "0xB7 + of_nat n < (0xC0 :: byte)"
  using assms by (simp_all add: word_less_nat_alt unat_tag)

lemma tag_list_short:
  assumes "n < 56"
  shows "\<not> 0xC0 + of_nat n < (0x80 :: byte)" "\<not> 0xC0 + of_nat n < (0xB8 :: byte)"
    "\<not> 0xC0 + of_nat n < (0xC0 :: byte)" "0xC0 + of_nat n < (0xF8 :: byte)"
  using assms by (simp_all add: word_less_nat_alt unat_tag)

lemma tag_list_long:
  assumes "1 \<le> n" and "n \<le> 8"
  shows "\<not> 0xF7 + of_nat n < (0x80 :: byte)" "\<not> 0xF7 + of_nat n < (0xB8 :: byte)"
    "\<not> 0xF7 + of_nat n < (0xC0 :: byte)" "\<not> 0xF7 + of_nat n < (0xF8 :: byte)"
  using assms by (simp_all add: word_less_nat_alt unat_tag)

lemma ucast_of_nat_byte: "n < 256 \<Longrightarrow> (ucast (of_nat n :: byte) :: u64) = of_nat n"
  by (simp add: word_unat_eq_iff unat_of_nat take_bit_nat_eq_self unsigned_ucast_eq)

lemma of_nat_u64_fits:
  assumes "k + n \<le> m" and "m < 2 ^ 64"
  shows "\<not> of_nat m - of_nat k < (of_nat n :: u64)"
  using assms by (simp add: word_less_nat_alt flip: of_nat_diff)

lemma length_size_bytes:
  "56 \<le> n \<Longrightarrow> n < 2 ^ 64 \<Longrightarrow> 1 \<le> length (nat_be n) \<and> length (nat_be n) \<le> 8"
  using length_nat_be_u64 [of "of_nat n"] by (simp add: Suc_le_eq)

lemma single_byteE:
  assumes "single_byte b"
  obtains x where "b = [x]" "x < 0x80"
  using assms by (cases b) (auto simp: word_le_nat_alt word_less_nat_alt)

lemma raw_readKind_single:
  assumes "single_byte b" and "length (b @ rest) < 2 ^ 64"
  shows "raw_readKind (b @ rest) = Inr (KByte, 0, 1)"
proof -
  obtain x where "b = [x]" "x < 0x80"
    using assms(1) by (rule single_byteE)
  then show ?thesis
    using assms(2) of_nat_u64_fits [of 0 1 "length (b @ rest)"] by (simp add: raw_readKind_def)
qed

lemma raw_readKind_string:
  assumes "\<not> single_byte b" and "length (rlp_string b @ rest) < 2 ^ 64"
  shows "raw_readKind (rlp_string b @ rest) =
    Inr (KString, of_nat (length (rlp_head 0x80 0xB7 (length b))), of_nat (length b))"
proof (cases "length b < 56")
  case True
  let ?buf = "(0x80 + of_nat (length b)) # b @ rest"
  have buf: "rlp_string b @ rest = ?buf"
    using assms(1) True by (simp add: rlp_string_def rlp_head_def)
  have canon: "\<not> (of_nat (length b) = (1 :: u64) \<and> 1 < length ?buf \<and> ?buf ! 1 < 128)"
  proof -
    have "of_nat (length b) = (1 :: u64) \<longleftrightarrow> length b = 1"
      using True by (simp add: word_unat_eq_iff)
    then show ?thesis
      using assms(1) by (cases b) (auto simp: word_le_nat_alt word_less_nat_alt)
  qed
  show ?thesis
    using assms(2) True canon tag_string_short [OF True] of_nat_u64_fits [of 1 "length b" "length ?buf"]
    unfolding buf by (simp add: raw_readKind_def rlp_head_def ucast_of_nat_byte Let_def)
next
  case False
  let ?n = "nat_be (length b)"
  let ?buf = "(0xB7 + of_nat (length ?n)) # ?n @ b @ rest"
  have buf: "rlp_string b @ rest = ?buf"
    using False by (simp add: rlp_string_def rlp_head_def)
  have "length b < 2 ^ 64"
    using assms(2) unfolding buf by simp
  then have L: "1 \<le> length ?n" "length ?n \<le> 8"
    and size: "readSize (?n @ b @ rest) (of_nat (length ?n)) = Inr (of_nat (length b))"
    using False length_size_bytes [of "length b"] readSize_nat_be [of "length b" "b @ rest"] by simp_all
  have "(ucast (of_nat (length ?n) :: byte) :: u64) + 1 = of_nat (Suc (length ?n))"
    using L by (simp add: ucast_of_nat_byte)
  then show ?thesis
    using assms(2) False size tag_string_long [OF L]
      of_nat_u64_fits [of "Suc (length ?n)" "length b" "length ?buf"]
    unfolding buf by (simp add: raw_readKind_def rlp_head_def Let_def)
qed

lemma raw_readKind_list:
  assumes "length (rlp_list p @ rest) < 2 ^ 64"
  shows "raw_readKind (rlp_list p @ rest) =
    Inr (KList, of_nat (length (rlp_head 0xC0 0xF7 (length p))), of_nat (length p))"
proof (cases "length p < 56")
  case True
  let ?buf = "(0xC0 + of_nat (length p)) # p @ rest"
  have buf: "rlp_list p @ rest = ?buf"
    using True by (simp add: rlp_list_def rlp_head_def)
  show ?thesis
    using assms True tag_list_short [OF True] of_nat_u64_fits [of 1 "length p" "length ?buf"]
    unfolding buf by (simp add: raw_readKind_def rlp_head_def ucast_of_nat_byte Let_def)
next
  case False
  let ?n = "nat_be (length p)"
  let ?buf = "(0xF7 + of_nat (length ?n)) # ?n @ p @ rest"
  have buf: "rlp_list p @ rest = ?buf"
    using False by (simp add: rlp_list_def rlp_head_def)
  have "length p < 2 ^ 64"
    using assms unfolding buf by simp
  then have L: "1 \<le> length ?n" "length ?n \<le> 8"
    and size: "readSize (?n @ p @ rest) (of_nat (length ?n)) = Inr (of_nat (length p))"
    using False length_size_bytes [of "length p"] readSize_nat_be [of "length p" "p @ rest"] by simp_all
  have "(ucast (of_nat (length ?n) :: byte) :: u64) + 1 = of_nat (Suc (length ?n))"
    using L by (simp add: ucast_of_nat_byte)
  then show ?thesis
    using assms False size tag_list_long [OF L]
      of_nat_u64_fits [of "Suc (length ?n)" "length p" "length ?buf"]
    unfolding buf by (simp add: raw_readKind_def rlp_head_def Let_def)
qed

lemma Split_string:
  assumes "length (rlp_string b @ rest) < 2 ^ 64"
  shows "Split (rlp_string b @ rest) = Inr (if single_byte b then KByte else KString, b, rest)"
proof (cases "single_byte b")
  case True
  then have "rlp_string b = b"
    by (simp add: rlp_string_def)
  with True assms raw_readKind_single [of b rest] show ?thesis
    by (simp add: Split_def)
next
  case False
  then have eq: "rlp_string b = rlp_head 0x80 0xB7 (length b) @ b"
    by (auto simp: rlp_string_def)
  have "length (rlp_head 0x80 0xB7 (length b)) < 2 ^ 64" "length b < 2 ^ 64"
    using assms unfolding eq by simp_all
  then show ?thesis
    using False raw_readKind_string [OF False assms] by (auto simp: Split_def eq)
qed

lemma Split_list:
  assumes "length (rlp_list p @ rest) < 2 ^ 64"
  shows "Split (rlp_list p @ rest) = Inr (KList, p, rest)"
proof -
  have "length (rlp_head 0xC0 0xF7 (length p)) < 2 ^ 64" "length p < 2 ^ 64"
    using assms by (simp_all add: rlp_list_def)
  then show ?thesis
    using raw_readKind_list [OF assms] by (simp add: Split_def) (simp add: rlp_list_def)
qed

text \<open>
  An item is what one value encodes to: a string or a list with a header of its own.  Only raw
  values and the tail slice of a structure encode to something else.
\<close>

definition rlp_item :: "bytes \<Rightarrow> bool" where
  "rlp_item e \<longleftrightarrow> (\<exists>b. e = rlp_string b) \<or> (\<exists>p. e = rlp_list p)"

fun rlp_single :: "rval \<Rightarrow> bool" where
  "rlp_single (VRaw b) = False"
| "rlp_single (VEncoder v) = rlp_single v"
| "rlp_single (VInterface (Some v)) = rlp_single v"
| "rlp_single (VSlice tail vs) = (\<not> tail)"
| "rlp_single (VPtr v) = rlp_single v"
| "rlp_single (VNilPtr zero) = rlp_single zero"
| "rlp_single _ = True"

lemma rlp_item_spec: "rlp_single v \<Longrightarrow> rlp_item (rlp_spec v)"
  by (induction v rule: rlp_spec.induct)
    (auto simp: rlp_item_def simp del: rlp_string_empty rlp_list_empty)

lemma rlp_item_nonempty: "rlp_item e \<Longrightarrow> e \<noteq> []"
  by (auto simp: rlp_item_def rlp_string_def rlp_list_def rlp_head_def split: if_splits)

lemma CountValues_step:
  assumes "rlp_item e" and "length (e @ rest) < 2 ^ 64"
  shows "CountValues_loop i (e @ rest) = CountValues_loop (Suc i) rest"
proof -
  obtain k c where "Split (e @ rest) = Inr (k, c, rest)"
    using assms Split_string Split_list unfolding rlp_item_def by blast
  then obtain ts cs where "raw_readKind (e @ rest) = Inr (k, ts, cs)" "drop (unat ts + unat cs) (e @ rest) = rest"
    by (auto simp: Split_def split: sum.splits)
  then show ?thesis
    using rlp_item_nonempty [OF assms(1)] by (subst CountValues_loop.simps) simp
qed

lemma CountValues_loop_items:
  "\<forall>e \<in> set es. rlp_item e \<Longrightarrow> length (concat es) < 2 ^ 64 \<Longrightarrow>
     CountValues_loop i (concat es) = Inr (i + length es)"
proof (induction es arbitrary: i)
  case Nil
  then show ?case
    by (simp add: CountValues_loop.simps)
next
  case (Cons e es)
  then show ?case
    using CountValues_step [of e "concat es" i] by simp
qed

text \<open>
  C10: the slice splitters invert the encoder.  The encoding of one value followed by anything
  splits into a kind, the content, and exactly what follows; a string is recovered byte for byte,
  a list yields its payload, and counting the values of a payload gives the number encoded.
\<close>

theorem Split_Encode:
  assumes "length (concat (map rlp_spec vs) @ rest) < 2 ^ 60"
  shows "SplitList (rlp_spec (VStruct vs) @ rest) = Inr (concat (map rlp_spec vs), rest) \<and>
    (list_all rlp_single vs \<longrightarrow> CountValues (concat (map rlp_spec vs)) = Inr (length vs)) \<and>
    SplitString (rlp_spec (VBytes (concat (map rlp_spec vs))) @ rest) = Inr (concat (map rlp_spec vs), rest)"
proof -
  let ?p = "concat (map rlp_spec vs)"
  have head: "length (rlp_head st lt (length ?p)) \<le> 9" for st lt
    using assms length_size_bytes [of "length ?p"] by (auto simp: rlp_head_def)
  have "length (rlp_list ?p @ rest) < 2 ^ 64" "length (rlp_string ?p @ rest) < 2 ^ 64"
    using assms head [of "0xC0" "0xF7"] head [of "0x80" "0xB7"] by (auto simp: rlp_list_def rlp_string_def)
  then have "SplitList (rlp_list ?p @ rest) = Inr (?p, rest)" "SplitString (rlp_string ?p @ rest) = Inr (?p, rest)"
    using Split_list Split_string by (simp_all add: SplitList_def SplitString_def)
  moreover have "CountValues ?p = Inr (length vs)" if "list_all rlp_single vs"
    using CountValues_loop_items [of "map rlp_spec vs" 0] that assms rlp_item_spec
    by (auto simp: CountValues_def list_all_iff)
  ultimately show ?thesis
    by simp
qed

theorem Split_Encode_witness:
  "CountValues (concat (map rlp_spec [VUint 7, VStruct [], VBytes [0xFF, 1]])) = Inr 3"
proof -
  have "length (concat (map rlp_spec [VUint 7, VStruct [], VBytes [0xFF, 1]]) @ []) = 5"
    by code_simp
  then have "length (concat (map rlp_spec [VUint 7, VStruct [], VBytes [0xFF, 1]]) @ []) < 2 ^ 60"
    by (simp only:) simp
  then show ?thesis
    using Split_Encode [of "[VUint 7, VStruct [], VBytes [0xFF, 1]]" "[]"] by simp
qed

end
