(* ===== verification/RLP_Decode.thy ===== *)
theory RLP_Decode
  imports RLP_Raw
begin

text \<open>
  \<^verbatim>\<open>rlp/decode.go\<close>: the stream decoder.  \<open>Stream\<close> is the decoder state over a
  \<^verbatim>\<open>bytes.Reader\<close>: its unread input, the input limit, the cached kind of the value ahead
  (\<open>None\<close> is \<^verbatim>\<open>kind = -1\<close>) and the stack of open lists, innermost first.  Sizes and positions
  (\<^verbatim>\<open>uint64\<close>) are natural numbers: every addition to one is guarded by a comparison with a
  larger size, so none of them wraps.

  A type of the datatype \<open>rtype\<close> stands for the \<^verbatim>\<open>reflect.Type\<close> that \<^verbatim>\<open>makeDecoder\<close> switches
  on.  The loop over the elements of a list carries fuel: \<open>None\<close> is a decoder that has not
  returned yet.
\<close>

record Stream =
  st_r :: bytes
  st_remaining :: nat
  st_limited :: bool
  st_kind :: "Kind option"
  st_size :: nat
  st_byteval :: byte
  st_kinderr :: "rlp_error option"
  st_stack :: "(nat \<times> nat) list"

section \<open>Reading from the stream\<close>

definition willRead_limit :: "nat \<Rightarrow> Stream \<Rightarrow> rlp_error option \<times> Stream" where
  "willRead_limit n s =
     (if st_limited s
      then if n > st_remaining s then (Some ErrValueTooLarge, s)
           else (None, s\<lparr>st_remaining := st_remaining s - n\<rparr>)
      else (None, s))"

definition willRead :: "nat \<Rightarrow> Stream \<Rightarrow> rlp_error option \<times> Stream" where
  "willRead n s0 =
     (let s = s0\<lparr>st_kind := None\<rparr>
      in case st_stack s of
           [] \<Rightarrow> willRead_limit n s
         | (pos, sz) # st \<Rightarrow>
             if n > sz - pos then (Some ErrElemTooLarge, s)
             else willRead_limit n (s\<lparr>st_stack := (pos + n, sz) # st\<rparr>))"

definition readByte :: "Stream \<Rightarrow> (rlp_error + byte) \<times> Stream" where
  "readByte s0 =
     (case willRead 1 s0 of
        (Some err, s) \<Rightarrow> (Inl err, s)
      | (None, s) \<Rightarrow>
          (case st_r s of
             [] \<Rightarrow> (Inl io_ErrUnexpectedEOF, s)
           | b # r \<Rightarrow> (Inr b, s\<lparr>st_r := r\<rparr>)))"

definition readFull :: "nat \<Rightarrow> Stream \<Rightarrow> (rlp_error + bytes) \<times> Stream" where
  "readFull n s0 =
     (case willRead n s0 of
        (Some err, s) \<Rightarrow> (Inl err, s)
      | (None, s) \<Rightarrow>
          if length (st_r s) < n then (Inl io_ErrUnexpectedEOF, s\<lparr>st_r := []\<rparr>)
          else (Inr (take n (st_r s)), s\<lparr>st_r := drop n (st_r s)\<rparr>))"

definition readUint :: "nat \<Rightarrow> Stream \<Rightarrow> (rlp_error + nat) \<times> Stream" where
  "readUint n s0 =
     (if n = 0 then (Inr 0, s0\<lparr>st_kind := None\<rparr>)
      else if n = 1 then
        (case readByte s0 of (Inl err, s) \<Rightarrow> (Inl err, s) | (Inr b, s) \<Rightarrow> (Inr (unat b), s))
      else
        (case readFull n s0 of
           (Inl err, s) \<Rightarrow> (Inl err, s)
         | (Inr buf, s) \<Rightarrow> if hd buf = 0 then (Inl ErrCanonSize, s) else (Inr (be_nat buf), s)))"

definition readKind_size :: "Kind \<Rightarrow> nat \<Rightarrow> Stream \<Rightarrow> (Kind \<times> nat \<times> rlp_error option) \<times> Stream" where
  "readKind_size k n s0 =
     (case readUint n s0 of
        (Inl err, s) \<Rightarrow> ((k, 0, Some err), s)
      | (Inr sz, s) \<Rightarrow> ((k, sz, if sz < 56 then Some ErrCanonSize else None), s))"

definition readKind :: "Stream \<Rightarrow> (Kind \<times> nat \<times> rlp_error option) \<times> Stream" where
  "readKind s0 =
     (case readByte s0 of
        (Inl err, s) \<Rightarrow>
          ((KByte, 0,
            Some (if st_stack s = [] \<and> (err = io_ErrUnexpectedEOF \<or> err = ErrValueTooLarge)
                  then io_EOF else err)), s)
      | (Inr b, s1) \<Rightarrow>
          let s = s1\<lparr>st_byteval := 0\<rparr>
          in if b < 0x80 then ((KByte, 0, None), s\<lparr>st_byteval := b\<rparr>)
             else if b < 0xB8 then ((KString, unat (b - 0x80), None), s)
             else if b < 0xC0 then readKind_size KString (unat (b - 0xB7)) s
             else if b < 0xF8 then ((KList, unat (b - 0xC0), None), s)
             else readKind_size KList (unat (b - 0xF7)) s)"

definition kind_size_error :: "nat \<Rightarrow> Stream \<Rightarrow> rlp_error option" where
  "kind_size_error sz s =
     (case st_stack s of
        [] \<Rightarrow> if st_limited s \<and> sz > st_remaining s then Some ErrValueTooLarge else None
      | (pos, tsz) # _ \<Rightarrow> if sz > tsz - pos then Some ErrElemTooLarge else None)"

definition stream_Kind :: "Stream \<Rightarrow> (rlp_error + (Kind \<times> nat)) \<times> Stream" where
  "stream_Kind s0 =
     (case st_kind s0 of
        Some k \<Rightarrow> (case st_kinderr s0 of None \<Rightarrow> Inr (k, st_size s0) | Some err \<Rightarrow> Inl err, s0)
      | None \<Rightarrow>
          if st_stack s0 \<noteq> [] \<and> fst (hd (st_stack s0)) = snd (hd (st_stack s0))
          then (Inl EOL, s0\<lparr>st_kinderr := None\<rparr>)
          else
            let ((k, sz, err), s) = readKind (s0\<lparr>st_kinderr := None\<rparr>);
                err' = (case err of Some e \<Rightarrow> Some e | None \<Rightarrow> kind_size_error sz s)
            in (case err' of None \<Rightarrow> Inr (k, sz) | Some e \<Rightarrow> Inl e,
                s\<lparr>st_kind := Some k, st_size := sz, st_kinderr := err'\<rparr>))"

definition rearm :: "Stream \<Rightarrow> Stream" where
  "rearm s = s\<lparr>st_kind := None\<rparr>"

definition stream_Bytes :: "Stream \<Rightarrow> (rlp_error + bytes) \<times> Stream" where
  "stream_Bytes s0 =
     (case stream_Kind s0 of
        (Inl err, s) \<Rightarrow> (Inl err, s)
      | (Inr (KByte, _), s) \<Rightarrow> (Inr [st_byteval s], rearm s)
      | (Inr (KString, sz), s) \<Rightarrow>
          (case readFull sz s of
             (Inl err, s) \<Rightarrow> (Inl err, s)
           | (Inr b, s) \<Rightarrow> if sz = 1 \<and> hd b < 128 then (Inl ErrCanonSize, s) else (Inr b, s))
      | (Inr (KList, _), s) \<Rightarrow> (Inl ErrExpectedString, s))"

definition stream_Raw :: "Stream \<Rightarrow> (rlp_error + bytes) \<times> Stream" where
  "stream_Raw s0 =
     (case stream_Kind s0 of
        (Inl err, s) \<Rightarrow> (Inl err, s)
      | (Inr (KByte, _), s) \<Rightarrow> (Inr [st_byteval s], rearm s)
      | (Inr (k, sz), s) \<Rightarrow>
          (case readFull sz s of
             (Inl err, s) \<Rightarrow> (Inl err, s)
           | (Inr b, s) \<Rightarrow>
               (Inr ((if k = KString then puthead 0x80 0xB7 (of_nat sz) else puthead 0xC0 0xF7 (of_nat sz)) @ b), s)))"

definition stream_uint :: "nat \<Rightarrow> Stream \<Rightarrow> (rlp_error + u64) \<times> Stream" where
  "stream_uint maxbits s0 =
     (case stream_Kind s0 of
        (Inl err, s) \<Rightarrow> (Inl err, s)
      | (Inr (KByte, _), s) \<Rightarrow>
          if st_byteval s = 0 then (Inl ErrCanonInt, s) else (Inr (ucast (st_byteval s)), rearm s)
      | (Inr (KString, sz), s) \<Rightarrow>
          if sz > maxbits div 8 then (Inl errUintOverflow, s)
          else (case readUint sz s of
                  (Inl err, s) \<Rightarrow> (Inl (if err = ErrCanonSize then ErrCanonInt else err), s)
                | (Inr v, s) \<Rightarrow>
                    if sz > 0 \<and> v < 128 then (Inl ErrCanonSize, s) else (Inr (of_nat v), s))
      | (Inr (KList, _), s) \<Rightarrow> (Inl ErrExpectedString, s))"

definition stream_Bool :: "Stream \<Rightarrow> (rlp_error + bool) \<times> Stream" where
  "stream_Bool s0 =
     (case stream_uint 8 s0 of
        (Inl err, s) \<Rightarrow> (Inl err, s)
      | (Inr num, s) \<Rightarrow>
          (if num = 0 then Inr False else if num = 1 then Inr True else Inl (errInvalidBool num), s))"

definition stream_List :: "Stream \<Rightarrow> (rlp_error + nat) \<times> Stream" where
  "stream_List s0 =
     (case stream_Kind s0 of
        (Inl err, s) \<Rightarrow> (Inl err, s)
      | (Inr (k, sz), s) \<Rightarrow>
          if k \<noteq> KList then (Inl ErrExpectedList, s)
          else (Inr sz, s\<lparr>st_stack := (0, sz) # st_stack s, st_kind := None, st_size := 0\<rparr>))"

definition stream_ListEnd :: "Stream \<Rightarrow> (rlp_error + unit) \<times> Stream" where
  "stream_ListEnd s =
     (case st_stack s of
        [] \<Rightarrow> (Inl errNotInList, s)
      | (pos, sz) # st \<Rightarrow>
          if pos \<noteq> sz then (Inl errNotAtEOL, s)
          else (Inr (), s\<lparr>st_stack := (case st of [] \<Rightarrow> [] | (p, z) # st' \<Rightarrow> (p + sz, z) # st'),
                         st_kind := None, st_size := 0\<rparr>))"

text \<open>\<^verbatim>\<open>NewStream\<close> over a \<^verbatim>\<open>bytes.Reader\<close> holding \<open>r\<close>: without a limit, the length of the data.\<close>

definition stream_Reset :: "bytes \<Rightarrow> nat \<Rightarrow> Stream" where
  "stream_Reset r inputLimit =
     \<lparr>st_r = r, st_remaining = (if inputLimit > 0 then inputLimit else length r), st_limited = True,
      st_kind = None, st_size = 0, st_byteval = 0, st_kinderr = None, st_stack = []\<rparr>"

definition NewStream :: "bytes \<Rightarrow> nat \<Rightarrow> Stream" where
  "NewStream r inputLimit = stream_Reset r inputLimit"

definition NewListStream :: "bytes \<Rightarrow> nat \<Rightarrow> Stream" where
  "NewListStream r len = (stream_Reset r len)\<lparr>st_kind := Some KList, st_size := len\<rparr>"

section \<open>Typed decoders\<close>

datatype rtype =
    TRaw | TDecoder rtype | TBigInt | TBigIntNoPtr | TUint nat | TBool | TString | TByteSlice
  | TByteArray nat | TSlice rtype | TTail rtype | TArray nat rtype | TStruct "rtype list"
  | TPtr rtype | TOptionalPtr rtype rval | TInterface

type_synonym 'a decoded = "(rlp_error + 'a) \<times> Stream"

definition wrapStreamError :: "rlp_error \<Rightarrow> rlp_error" where
  "wrapStreamError err =
     (case err of
        ErrCanonInt \<Rightarrow> decodeError ''non-canonical integer (leading zero bytes)''
      | ErrCanonSize \<Rightarrow> decodeError ''non-canonical size information''
      | ErrExpectedList \<Rightarrow> decodeError ''expected input list''
      | ErrExpectedString \<Rightarrow> decodeError ''expected input string or byte''
      | errUintOverflow \<Rightarrow> decodeError ''input string too long''
      | errNotAtEOL \<Rightarrow> decodeError ''input list has too many elements''
      | _ \<Rightarrow> err)"

definition map_decoded :: "(rlp_error \<Rightarrow> rlp_error) \<Rightarrow> ('a \<Rightarrow> 'b) \<Rightarrow> 'a decoded \<Rightarrow> 'b decoded" where
  "map_decoded f g d = (map_sum f g (fst d), snd d)"

definition decodeRawValue :: "Stream \<Rightarrow> rval decoded" where
  "decodeRawValue s = map_decoded id VRaw (stream_Raw s)"

definition decodeUint :: "nat \<Rightarrow> Stream \<Rightarrow> rval decoded" where
  "decodeUint bits s = map_decoded wrapStreamError VUint (stream_uint bits s)"

definition decodeBool :: "Stream \<Rightarrow> rval decoded" where
  "decodeBool s = map_decoded wrapStreamError VBool (stream_Bool s)"

definition decodeString :: "Stream \<Rightarrow> rval decoded" where
  "decodeString s = map_decoded wrapStreamError VString (stream_Bytes s)"

definition decodeByteSlice :: "Stream \<Rightarrow> rval decoded" where
  "decodeByteSlice s = map_decoded wrapStreamError VBytes (stream_Bytes s)"

definition decodeBigInt :: "Stream \<Rightarrow> int decoded" where
  "decodeBigInt s0 =
     (case stream_Bytes s0 of
        (Inl err, s) \<Rightarrow> (Inl (wrapStreamError err), s)
      | (Inr b, s) \<Rightarrow>
          if length b > 0 \<and> hd b = 0 then (Inl (wrapStreamError ErrCanonInt), s)
          else (Inr (int (be_nat b)), s))"

text \<open>
  A single byte goes through \<^verbatim>\<open>s.Uint()\<close>, whose error is dropped: for the byte zero the stream
  is not rearmed.
\<close>

definition decodeByteArray :: "nat \<Rightarrow> Stream \<Rightarrow> rval decoded" where
  "decodeByteArray vlen s0 =
     (case stream_Kind s0 of
        (Inl err, s) \<Rightarrow> (Inl err, s)
      | (Inr (KByte, _), s) \<Rightarrow>
          if vlen = 0 then (Inl (decodeError ''input string too long''), s)
          else if vlen > 1 then (Inl (decodeError ''input string too short''), s)
          else (case stream_uint 64 s of
                  (Inl _, s) \<Rightarrow> (Inr (VByteArray [0]), s)
                | (Inr bv, s) \<Rightarrow> (Inr (VByteArray [ucast bv]), s))
      | (Inr (KString, sz), s) \<Rightarrow>
          if vlen < sz then (Inl (decodeError ''input string too long''), s)
          else if vlen > sz then (Inl (decodeError ''input string too short''), s)
          else (case readFull vlen s of
                  (Inl err, s) \<Rightarrow> (Inl err, s)
                | (Inr buf, s) \<Rightarrow>
                    if sz = 1 \<and> hd buf < 128 then (Inl (wrapStreamError ErrCanonSize), s)
                    else (Inr (VByteArray buf), s))
      | (Inr (KList, _), s) \<Rightarrow> (Inl (wrapStreamError ErrExpectedString), s))"

text \<open>The frame of \<^verbatim>\<open>decodeListSlice\<close> around the loop over the elements.\<close>

definition decodeListSlice ::
  "(Stream \<Rightarrow> rval list decoded option) \<Rightarrow> Stream \<Rightarrow> rval decoded option" where
  "decodeListSlice elems s0 =
     (case stream_List s0 of
        (Inl err, s) \<Rightarrow> Some (Inl (wrapStreamError err), s)
      | (Inr sz, s) \<Rightarrow>
          if sz = 0 then Some (map_decoded id (\<lambda>_. VSlice False []) (stream_ListEnd s))
          else (case elems s of
                  None \<Rightarrow> None
                | Some (Inl err, s) \<Rightarrow> Some (Inl err, s)
                | Some (Inr vs, s) \<Rightarrow> Some (map_decoded id (\<lambda>_. VSlice False vs) (stream_ListEnd s))))"

definition decodeListArray ::
  "nat \<Rightarrow> (Stream \<Rightarrow> rval list decoded option) \<Rightarrow> Stream \<Rightarrow> rval decoded option" where
  "decodeListArray vlen elems s0 =
     (case stream_List s0 of
        (Inl err, s) \<Rightarrow> Some (Inl (wrapStreamError err), s)
      | (Inr _, s) \<Rightarrow>
          (case elems s of
             None \<Rightarrow> None
           | Some (Inl err, s) \<Rightarrow> Some (Inl err, s)
           | Some (Inr vs, s) \<Rightarrow>
               if length vs < vlen then Some (Inl (decodeError ''input list has too few elements''), s)
               else Some (map_decoded wrapStreamError (\<lambda>_. VSlice False vs) (stream_ListEnd s))))"

definition structDecoder :: "(Stream \<Rightarrow> rval list decoded option) \<Rightarrow> Stream \<Rightarrow> rval decoded option" where
  "structDecoder fs s0 =
     (case stream_List s0 of
        (Inl err, s) \<Rightarrow> Some (Inl (wrapStreamError err), s)
      | (Inr _, s) \<Rightarrow>
          (case fs s of
             None \<Rightarrow> None
           | Some (Inl err, s) \<Rightarrow> Some (Inl err, s)
           | Some (Inr vs, s) \<Rightarrow> Some (map_decoded wrapStreamError (\<lambda>_. VStruct vs) (stream_ListEnd s))))"

definition optionalPtrDecoder ::
  "rval \<Rightarrow> (Stream \<Rightarrow> rval decoded option) \<Rightarrow> Stream \<Rightarrow> rval decoded option" where
  "optionalPtrDecoder nilval dec s0 =
     (case stream_Kind s0 of
        (Inl err, s) \<Rightarrow> Some (Inl err, rearm s)
      | (Inr (k, sz), s) \<Rightarrow>
          if sz = 0 \<and> k \<noteq> KByte then Some (Inr nilval, rearm s)
          else map_option (map_decoded id VPtr) (dec s))"

definition decodeInterface :: "(Stream \<Rightarrow> rval list decoded option) \<Rightarrow> Stream \<Rightarrow> rval decoded option" where
  "decodeInterface elems s0 =
     (case stream_Kind s0 of
        (Inl err, s) \<Rightarrow> Some (Inl err, s)
      | (Inr (k, _), s) \<Rightarrow>
          if k = KList then map_option (map_decoded id (VInterface \<circ> Some)) (decodeListSlice elems s)
          else Some (map_decoded id (VInterface \<circ> Some \<circ> VBytes) (stream_Bytes s)))"

text \<open>One step of the element loop: the end of the list ends the loop.\<close>

definition elems_step ::
  "rval decoded option \<Rightarrow> (Stream \<Rightarrow> rval list decoded option) \<Rightarrow> rval list decoded option" where
  "elems_step d k =
     (case d of
        None \<Rightarrow> None
      | Some (Inl err, s) \<Rightarrow> if err = EOL then Some (Inr [], s) else Some (Inl err, s)
      | Some (Inr v, s) \<Rightarrow> map_option (map_decoded id ((#) v)) (k s))"

definition fields_step ::
  "rval decoded option \<Rightarrow> (Stream \<Rightarrow> rval list decoded option) \<Rightarrow> rval list decoded option" where
  "fields_step d k =
     (case d of
        None \<Rightarrow> None
      | Some (Inl err, s) \<Rightarrow> Some (Inl (if err = EOL then decodeError ''too few elements'' else err), s)
      | Some (Inr v, s) \<Rightarrow> map_option (map_decoded id ((#) v)) (k s))"

function (sequential)
  makeDecoder :: "nat \<Rightarrow> rtype \<Rightarrow> Stream \<Rightarrow> rval decoded option" and
  decodeSliceElems :: "nat \<Rightarrow> rtype \<Rightarrow> Stream \<Rightarrow> rval list decoded option" and
  decodeArrayElems :: "nat \<Rightarrow> nat \<Rightarrow> rtype \<Rightarrow> Stream \<Rightarrow> rval list decoded option" and
  decodeFields :: "nat \<Rightarrow> rtype list \<Rightarrow> Stream \<Rightarrow> rval list decoded option"
where
  "makeDecoder n TRaw s = Some (decodeRawValue s)"
| "makeDecoder n (TDecoder ty) s = map_option (map_decoded id VEncoder) (makeDecoder n ty s)"
| "makeDecoder n TBigInt s = Some (map_decoded id (VBigIntPtr \<circ> Some) (decodeBigInt s))"
| "makeDecoder n TBigIntNoPtr s = Some (map_decoded id VBigInt (decodeBigInt s))"
| "makeDecoder n (TUint bits) s = Some (decodeUint bits s)"
| "makeDecoder n TBool s = Some (decodeBool s)"
| "makeDecoder n TString s = Some (decodeString s)"
| "makeDecoder n TByteSlice s = Some (decodeByteSlice s)"
| "makeDecoder n (TByteArray vlen) s = Some (decodeByteArray vlen s)"
| "makeDecoder n (TSlice ty) s = decodeListSlice (decodeSliceElems n ty) s"
| "makeDecoder n (TTail ty) s = map_option (map_decoded id (VSlice True)) (decodeSliceElems n ty s)"
| "makeDecoder n (TArray vlen ty) s = decodeListArray vlen (decodeArrayElems n vlen ty) s"
| "makeDecoder n (TStruct tys) s = structDecoder (decodeFields n tys) s"
| "makeDecoder n (TPtr ty) s = map_option (map_decoded id VPtr) (makeDecoder n ty s)"
| "makeDecoder n (TOptionalPtr ty nilval) s = optionalPtrDecoder nilval (makeDecoder n ty) s"
| "makeDecoder n TInterface s = decodeInterface (decodeSliceElems n TInterface) s"
| "decodeSliceElems 0 ty s = None"
| "decodeSliceElems (Suc n) ty s = elems_step (makeDecoder n ty s) (decodeSliceElems n ty)"
| "decodeArrayElems n 0 ty s = Some (Inr [], s)"
| "decodeArrayElems n (Suc m) ty s = elems_step (makeDecoder n ty s) (decodeArrayElems n m ty)"
| "decodeFields n [] s = Some (Inr [], s)"
| "decodeFields n (ty # tys) s = fields_step (makeDecoder n ty s) (decodeFields n tys)"
  by pat_completeness auto
termination
  by (relation "inv_image (less_than <*lex*> less_than <*lex*> less_than)
       (case_sum (case_sum (\<lambda>(n, ty, s). (n, 2 * size ty + 1, 0)) (\<lambda>(n, ty, s). (n, 2 * size ty, 0)))
         (case_sum (\<lambda>(n, m, ty, s). (n, 2 * size ty + 2, m)) (\<lambda>(n, tys, s). (n, 2 * size_list size tys, 0))))")
    auto

text \<open>
  \<^verbatim>\<open>DecodeBytes\<close>, with fuel for the element loops; the length of the input is enough, as shown
  below.
\<close>

definition DecodeBytes_fuel :: "nat \<Rightarrow> rtype \<Rightarrow> bytes \<Rightarrow> (rlp_error + rval) option" where
  "DecodeBytes_fuel n ty b =
     (case makeDecoder n ty (NewStream b (length b)) of
        None \<Rightarrow> None
      | Some (Inl err, _) \<Rightarrow> Some (Inl err)
      | Some (Inr v, s) \<Rightarrow> Some (if length (st_r s) > 0 then Inl ErrMoreThanOneValue else Inr v))"

definition DecodeBytes :: "rtype \<Rightarrow> bytes \<Rightarrow> (rlp_error + rval) option" where
  "DecodeBytes ty b = DecodeBytes_fuel (length b) ty b"

section \<open>Position in the stream\<close>

text \<open>
  What a decoder does to a stream on success: it advances by the number of bytes of the value.
  The cached size, byte and error have no meaning while the kind is not set, so positions are
  compared after clearing them.
\<close>

fun bump :: "nat \<Rightarrow> (nat \<times> nat) list \<Rightarrow> (nat \<times> nat) list" where
  "bump k [] = []"
| "bump k ((pos, sz) # st) = (pos + k, sz) # st"

definition clear :: "Stream \<Rightarrow> Stream" where
  "clear s = s\<lparr>st_kind := None, st_size := 0, st_byteval := 0, st_kinderr := None\<rparr>"

definition adv :: "nat \<Rightarrow> Stream \<Rightarrow> Stream" where
  "adv k s = s\<lparr>st_r := drop k (st_r s), st_remaining := st_remaining s - k,
     st_kind := None, st_stack := bump k (st_stack s)\<rparr>"

definition fits :: "nat \<Rightarrow> Stream \<Rightarrow> bool" where
  "fits k s \<longleftrightarrow> st_limited s \<and> k \<le> length (st_r s) \<and> k \<le> st_remaining s \<and>
     (case st_stack s of [] \<Rightarrow> True | (pos, sz) # _ \<Rightarrow> pos + k \<le> sz)"

definition synced :: "Stream \<Rightarrow> Stream \<Rightarrow> bool" where
  "synced s t \<longleftrightarrow> st_kind s = None \<and> clear s = clear t"

lemma bump_bump [simp]: "bump a (bump b st) = bump (b + a) st"
  by (cases st) auto

lemma bump_0 [simp]: "bump 0 st = st"
  by (cases st) auto

lemma bump_Nil [simp]: "bump k st = [] \<longleftrightarrow> st = []"
  by (cases st) auto

lemma adv_adv: "adv a (adv b s) = adv (b + a) s"
  by (simp add: adv_def add.commute)

lemma adv_fields [simp]:
  "st_r (adv k s) = drop k (st_r s)" "st_limited (adv k s) = st_limited s"
  "st_stack (adv k s) = bump k (st_stack s)" "st_kind (adv k s) = None"
  "st_remaining (adv k s) = st_remaining s - k"
  by (simp_all add: adv_def)

lemma clear_fields [simp]:
  "st_r (clear s) = st_r s" "st_limited (clear s) = st_limited s" "st_stack (clear s) = st_stack s"
  "st_remaining (clear s) = st_remaining s"
  by (simp_all add: clear_def)

lemma clear_eq:
  "clear s = clear t \<longleftrightarrow> st_r s = st_r t \<and> st_remaining s = st_remaining t \<and>
     st_limited s = st_limited t \<and> st_stack s = st_stack t" for s t :: Stream
  by (cases s; cases t) (simp add: clear_def)

lemma synced_iff:
  "synced s t \<longleftrightarrow> st_kind s = None \<and> st_r s = st_r t \<and> st_remaining s = st_remaining t \<and>
     st_limited s = st_limited t \<and> st_stack s = st_stack t"
  by (auto simp: synced_def clear_eq)

lemma fits_clear: "clear s = clear t \<Longrightarrow> fits k s = fits k t"
  by (simp add: fits_def clear_eq)

lemma fits_add: "fits (a + b) s \<longleftrightarrow> fits a s \<and> fits b (adv a s)"
  by (cases "st_stack s") (auto simp: fits_def)

lemma fits_le: "fits b s \<Longrightarrow> a \<le> b \<Longrightarrow> fits a s"
  by (cases "st_stack s") (auto simp: fits_def)

lemma fits_not_EOL:
  "fits k s \<Longrightarrow> 0 < k \<Longrightarrow> \<not> (st_stack s \<noteq> [] \<and> fst (hd (st_stack s)) = snd (hd (st_stack s)))"
  by (cases "st_stack s") (auto simp: fits_def)

section \<open>Reading a header\<close>

lemma willRead_fits: "fits n s \<Longrightarrow>
    willRead n s = (None, s\<lparr>st_remaining := st_remaining s - n, st_kind := None, st_stack := bump n (st_stack s)\<rparr>)"
  by (cases "st_stack s") (auto simp: willRead_def willRead_limit_def fits_def Let_def)

lemma readByte_fits: "fits 1 s \<Longrightarrow> readByte s = (Inr (hd (st_r s)), adv 1 s)"
  by (cases "st_r s") (simp_all add: readByte_def willRead_fits adv_def, simp add: fits_def)

lemma readFull_fits: "fits n s \<Longrightarrow> readFull n s = (Inr (take n (st_r s)), adv n s)"
  by (simp add: readFull_def willRead_fits adv_def) (simp add: fits_def)

lemma readUint_nat_be:
  assumes "0 < n" and "st_r s = nat_be n @ rest" and "fits (length (nat_be n)) s"
  shows "readUint (length (nat_be n)) s = (Inr n, adv (length (nat_be n)) s)"
proof (cases "length (nat_be n) = 1")
  case True
  then have "nat_be n = [hd (st_r s)]"
    using assms(2) by (cases "nat_be n") auto
  then have "n = unat (hd (st_r s))"
    using be_nat_nat_be [of n] be_nat_snoc(1) [of "[]"] by simp
  with True assms(3) show ?thesis
    by (simp add: readUint_def readByte_fits)
next
  case False
  with assms show ?thesis
    using hd_nat_be [of n] by (simp add: readUint_def readFull_fits)
qed

lemma adv_byteval: "adv k (s\<lparr>st_byteval := b\<rparr>) = (adv k s)\<lparr>st_byteval := b\<rparr>"
  by (simp add: adv_def)

lemma fits_byteval [simp]: "fits k (s\<lparr>st_byteval := b\<rparr>) = fits k s"
  by (simp add: fits_def)

lemma readKind_size_nat_be:
  assumes "56 \<le> n" and "st_r s = nat_be n @ rest" and "fits (length (nat_be n)) s"
  shows "readKind_size k (length (nat_be n)) s = ((k, n, None), adv (length (nat_be n)) s)"
  using readUint_nat_be [OF _ assms(2,3)] assms(1) by (simp add: readKind_size_def)

lemma unat_small_byte: "n < 256 \<Longrightarrow> unat (of_nat n :: byte) = n"
  by (simp add: unat_of_nat take_bit_nat_eq_self)

lemma readKind_byte:
  assumes "st_r s = [b] @ rest" and "b < 0x80" and "fits 1 s"
  shows "readKind s = ((KByte, 0, None), (adv 1 s)\<lparr>st_byteval := b\<rparr>)"
  using assms by (simp add: readKind_def readByte_fits)

lemma readKind_string_head:
  assumes "st_r s = rlp_head 0x80 0xB7 n @ rest" and "n < 2 ^ 64"
    and "fits (length (rlp_head 0x80 0xB7 n)) s"
  shows "readKind s = ((KString, n, None), (adv (length (rlp_head 0x80 0xB7 n)) s)\<lparr>st_byteval := 0\<rparr>)"
proof (cases "n < 56")
  case True
  with assms tag_string_short [OF True] show ?thesis
    by (simp add: readKind_def readByte_fits rlp_head_def unat_small_byte)
next
  case False
  let ?L = "length (nat_be n)"
  have L: "1 \<le> ?L" "?L \<le> 8"
    using length_size_bytes [of n] assms(2) False by auto
  have f: "fits 1 s" "fits ?L (adv 1 s)"
    using assms(3) False fits_add [of 1 ?L s] by (simp_all add: rlp_head_def)
  have "readKind_size KString ?L ((adv 1 s)\<lparr>st_byteval := 0\<rparr>) =
      ((KString, n, None), adv ?L ((adv 1 s)\<lparr>st_byteval := 0\<rparr>))"
    using f(2) assms(1) False by (intro readKind_size_nat_be) (simp_all add: rlp_head_def)
  with assms(1) f(1) False L tag_string_long [OF L] show ?thesis
    by (simp add: readKind_def readByte_fits rlp_head_def unat_small_byte adv_byteval adv_adv)
qed

lemma readKind_list_head:
  assumes "st_r s = rlp_head 0xC0 0xF7 n @ rest" and "n < 2 ^ 64"
    and "fits (length (rlp_head 0xC0 0xF7 n)) s"
  shows "readKind s = ((KList, n, None), (adv (length (rlp_head 0xC0 0xF7 n)) s)\<lparr>st_byteval := 0\<rparr>)"
proof (cases "n < 56")
  case True
  with assms tag_list_short [OF True] show ?thesis
    by (simp add: readKind_def readByte_fits rlp_head_def unat_small_byte)
next
  case False
  let ?L = "length (nat_be n)"
  have L: "1 \<le> ?L" "?L \<le> 8"
    using length_size_bytes [of n] assms(2) False by auto
  have f: "fits 1 s" "fits ?L (adv 1 s)"
    using assms(3) False fits_add [of 1 ?L s] by (simp_all add: rlp_head_def)
  have "readKind_size KList ?L ((adv 1 s)\<lparr>st_byteval := 0\<rparr>) =
      ((KList, n, None), adv ?L ((adv 1 s)\<lparr>st_byteval := 0\<rparr>))"
    using f(2) assms(1) False by (intro readKind_size_nat_be) (simp_all add: rlp_head_def)
  with assms(1) f(1) False L tag_list_long [OF L] show ?thesis
    by (simp add: readKind_def readByte_fits rlp_head_def unat_small_byte adv_byteval adv_adv)
qed

text \<open>The stream after \<^verbatim>\<open>Kind\<close> has read the header of a value of kind \<open>k\<close> and content size \<open>sz\<close>.\<close>

definition ahead :: "Kind \<Rightarrow> nat \<Rightarrow> Stream \<Rightarrow> Stream \<Rightarrow> bool" where
  "ahead k sz s s1 \<longleftrightarrow> st_kind s1 = Some k \<and> st_size s1 = sz \<and> st_kinderr s1 = None \<and> clear s1 = clear s"

lemma stream_Kind_ahead: "ahead k sz t s \<Longrightarrow> stream_Kind s = (Inr (k, sz), s)"
  by (simp add: stream_Kind_def ahead_def)

lemma stream_Kind_read:
  assumes "st_kind s = None" and "0 < h" and "fits (h + sz) s"
    and "readKind (s\<lparr>st_kinderr := None\<rparr>) = ((k, sz, None), s1)" and "clear s1 = clear (adv h s)"
  shows "stream_Kind s = (Inr (k, sz), s1\<lparr>st_kind := Some k, st_size := sz, st_kinderr := None\<rparr>)"
proof -
  have "fits sz s1"
    using assms(3,5) fits_add [of h sz s] fits_clear [of s1 "adv h s"] by simp
  moreover have "\<not> (st_stack s \<noteq> [] \<and> fst (hd (st_stack s)) = snd (hd (st_stack s)))"
    using assms(2,3) by (intro fits_not_EOL [of "h + sz"]) simp_all
  ultimately show ?thesis
    using assms(1,4) by (cases "st_stack s1") (auto simp: stream_Kind_def kind_size_error_def fits_def)
qed

lemma stream_Kind_string:
  assumes "st_kind s = None" and "st_r s = rlp_head 0x80 0xB7 n @ rest" and "n < 2 ^ 64"
    and "fits (length (rlp_head 0x80 0xB7 n) + n) s"
  obtains s1 where "stream_Kind s = (Inr (KString, n), s1)"
    "ahead KString n (adv (length (rlp_head 0x80 0xB7 n)) s) s1"
proof -
  let ?t = "s\<lparr>st_kinderr := None\<rparr>" and ?h = "length (rlp_head 0x80 0xB7 n)"
  have "readKind ?t = ((KString, n, None), (adv ?h ?t)\<lparr>st_byteval := 0\<rparr>)"
    using assms(2-4) fits_le [of "?h + n" s ?h]
    by (intro readKind_string_head) (simp_all add: fits_def)
  from stream_Kind_read [OF assms(1) _ assms(4) this] show ?thesis
    by (intro that) (auto simp: ahead_def clear_eq rlp_head_def)
qed

lemma stream_Kind_list:
  assumes "st_kind s = None" and "st_r s = rlp_head 0xC0 0xF7 n @ rest" and "n < 2 ^ 64"
    and "fits (length (rlp_head 0xC0 0xF7 n) + n) s"
  obtains s1 where "stream_Kind s = (Inr (KList, n), s1)"
    "ahead KList n (adv (length (rlp_head 0xC0 0xF7 n)) s) s1"
proof -
  let ?t = "s\<lparr>st_kinderr := None\<rparr>" and ?h = "length (rlp_head 0xC0 0xF7 n)"
  have "readKind ?t = ((KList, n, None), (adv ?h ?t)\<lparr>st_byteval := 0\<rparr>)"
    using assms(2-4) fits_le [of "?h + n" s ?h]
    by (intro readKind_list_head) (simp_all add: fits_def)
  from stream_Kind_read [OF assms(1) _ assms(4) this] show ?thesis
    by (intro that) (auto simp: ahead_def clear_eq rlp_head_def)
qed

lemma stream_Kind_byte:
  assumes "st_kind s = None" and "st_r s = [b] @ rest" and "b < 0x80" and "fits 1 s"
  obtains s1 where "stream_Kind s = (Inr (KByte, 0), s1)" "ahead KByte 0 (adv 1 s) s1" "st_byteval s1 = b"
proof -
  let ?t = "s\<lparr>st_kinderr := None\<rparr>"
  have "readKind ?t = ((KByte, 0, None), (adv 1 ?t)\<lparr>st_byteval := b\<rparr>)"
    using assms(2-4) by (intro readKind_byte) (simp_all add: fits_def)
  with stream_Kind_read [OF assms(1), of 1 0 KByte] assms(4) show ?thesis
    by (intro that) (auto simp: ahead_def clear_eq)
qed

section \<open>Reading a value\<close>

lemma ahead_clear: "ahead k sz t s \<Longrightarrow> clear s = clear t"
  by (simp add: ahead_def)

lemma ahead_readFull:
  assumes "ahead k sz t s" and "fits n t"
  shows "readFull n s = (Inr (take n (st_r t)), adv n s)" and "synced (adv n s) (adv n t)"
  using readFull_fits [of n s] fits_clear [OF ahead_clear [OF assms(1)], of n] ahead_clear [OF assms(1)] assms(2)
  by (simp_all add: clear_eq synced_iff)

lemma rearm_synced: "ahead k sz t s \<Longrightarrow> synced (rearm s) t"
  by (auto simp: ahead_def rearm_def synced_def clear_def)

lemma stream_Bytes_spec:
  assumes "st_kind s = None" and "st_r s = rlp_string b @ rest" and "length b < 2 ^ 64"
    and "fits (length (rlp_string b)) s"
  shows "\<exists>s'. stream_Bytes s = (Inr b, s') \<and> synced s' (adv (length (rlp_string b)) s)"
proof (cases "single_byte b")
  case True
  then obtain x where x: "b = [x]" "x < 0x80"
    by (rule single_byteE)
  with True assms have "st_r s = [x] @ rest" "fits 1 s" "length (rlp_string b) = 1"
    by (simp_all add: rlp_string_def)
  with assms(1) x obtain s1 where "stream_Kind s = (Inr (KByte, 0), s1)" "ahead KByte 0 (adv 1 s) s1"
    "st_byteval s1 = x"
    using stream_Kind_byte by blast
  with x \<open>length (rlp_string b) = 1\<close> show ?thesis
    using rearm_synced by (auto simp: stream_Bytes_def)
next
  case False
  let ?h = "length (rlp_head 0x80 0xB7 (length b))"
  have enc: "rlp_string b = rlp_head 0x80 0xB7 (length b) @ b"
    using False by (auto simp: rlp_string_def)
  have f: "fits (?h + length b) s" "fits (length b) (adv ?h s)"
    using assms(4) fits_add [of ?h "length b" s] by (simp_all add: enc)
  obtain s1 where s1: "stream_Kind s = (Inr (KString, length b), s1)" "ahead KString (length b) (adv ?h s) s1"
    using assms(1-3) f(1) stream_Kind_string [of s "length b" "b @ rest"] by (auto simp: enc)
  have "take (length b) (st_r (adv ?h s)) = b"
    using assms(2) by (simp add: enc)
  then have "readFull (length b) s1 = (Inr b, adv (length b) s1)"
    "synced (adv (length b) s1) (adv (length (rlp_string b)) s)"
    using ahead_readFull [OF s1(2) f(2)] by (simp_all add: enc adv_adv)
  moreover have "\<not> (length b = 1 \<and> hd b < 128)"
    using False by (auto simp: word_le_nat_alt word_less_nat_alt)
  ultimately show ?thesis
    using s1(1) by (auto simp: stream_Bytes_def)
qed

lemma length_nat_be_le: "n < 256 ^ k \<Longrightarrow> length (nat_be n) \<le> k"
proof (induction k arbitrary: n)
  case (Suc k)
  then show ?case
    using Suc.IH [of "n div 256"]
    by (cases "n = 0") (simp_all add: nat_be_pos less_mult_imp_div_less mult.commute)
qed simp

lemma stream_uint_spec:
  assumes "st_kind s = None" and "st_r s = rlp_string (nat_be (unat i)) @ rest"
    and "fits (length (rlp_string (nat_be (unat i)))) s"
    and "length (nat_be (unat i)) \<le> bits div 8"
  shows "\<exists>s'. stream_uint bits s = (Inr i, s') \<and> synced s' (adv (length (rlp_string (nat_be (unat i)))) s)"
proof (cases "i \<noteq> 0 \<and> unat i < 128")
  case True
  then have be: "nat_be (unat i) = [ucast i]"
    using nat_be_small [of "unat i"] by (simp add: unat_gt_0)
  then have enc: "rlp_string (nat_be (unat i)) = [ucast i]"
    using True rlp_string_single [of "unat i"] by simp
  have u: "unat (ucast i :: byte) = unat i"
    using True unat_small_byte [of "unat i"] by simp
  then have x: "(ucast i :: byte) < 0x80" "(ucast i :: byte) \<noteq> 0"
    using True by (auto simp: word_less_nat_alt unat_eq_zero)
  obtain s1 where "stream_Kind s = (Inr (KByte, 0), s1)" "ahead KByte 0 (adv 1 s) s1"
    "st_byteval s1 = ucast i"
    using stream_Kind_byte [of s "ucast i" rest] assms(1-3) x enc by auto
  moreover have "ucast (ucast i :: byte) = i"
    using u by (simp add: word_unat_eq_iff)
  ultimately show ?thesis
    using x rearm_synced enc by (auto simp: stream_uint_def)
next
  case False
  let ?b = "nat_be (unat i)"
  let ?h = "length (rlp_head 0x80 0xB7 (length ?b))"
  have enc: "rlp_string ?b = rlp_head 0x80 0xB7 (length ?b) @ ?b"
    using False rlp_string_uint [of "unat i"] length_nat_be_u64 [of i]
    by (cases "i = 0") (simp_all add: rlp_head_def)
  have f: "fits (?h + length ?b) s" "fits (length ?b) (adv ?h s)"
    using assms(3) fits_add [of ?h "length ?b" s] by (simp_all add: enc)
  obtain s1 where s1: "stream_Kind s = (Inr (KString, length ?b), s1)" "ahead KString (length ?b) (adv ?h s) s1"
    using assms(1,2) f(1) stream_Kind_string [of s "length ?b" "?b @ rest"] length_nat_be_u64 [of i]
    by (auto simp: enc)
  show ?thesis
  proof (cases "i = 0")
    case True
    with s1 rearm_synced [OF s1(2)] show ?thesis
      by (auto simp: stream_uint_def readUint_def rearm_def rlp_head_def adv_adv)
  next
    case nz: False
    have c: "clear s1 = clear (adv ?h s)"
      using s1(2) by (rule ahead_clear)
    then have "st_r s1 = ?b @ rest" "fits (length ?b) s1"
      using assms(2) f(2) fits_clear [OF c] by (simp_all add: enc clear_eq)
    then have "readUint (length ?b) s1 = (Inr (unat i), adv (length ?b) s1)"
      using nz readUint_nat_be [of "unat i"] by (simp add: unat_gt_0)
    moreover have "synced (adv (length ?b) s1) (adv (length (rlp_string ?b)) s)"
      using c by (simp add: synced_iff clear_eq enc adv_adv add.commute)
    ultimately show ?thesis
      using s1(1) assms(4) nz False by (auto simp: stream_uint_def)
  qed
qed

lemma stream_List_spec:
  assumes "st_kind s = None" and "st_r s = rlp_list p @ rest" and "length p < 2 ^ 64"
    and "fits (length (rlp_list p)) s"
  obtains s1 where "stream_List s = (Inr (length p), s1)" "st_kind s1 = None" "st_r s1 = p @ rest"
    "st_stack s1 = (0, length p) # bump (length (rlp_list p) - length p) (st_stack s)"
    "st_limited s1" "st_remaining s1 = st_remaining s - (length (rlp_list p) - length p)"
    "fits (length p) s1"
proof -
  let ?h = "length (rlp_head 0xC0 0xF7 (length p))"
  have enc: "rlp_list p = rlp_head 0xC0 0xF7 (length p) @ p"
    by (simp add: rlp_list_def)
  have f: "fits (?h + length p) s" "fits (length p) (adv ?h s)"
    using assms(4) fits_add [of ?h "length p" s] by (simp_all add: enc)
  obtain s1 where "stream_Kind s = (Inr (KList, length p), s1)" "ahead KList (length p) (adv ?h s) s1"
    using assms(1-3) f(1) stream_Kind_list [of s "length p" "p @ rest"] by (auto simp: enc)
  then show ?thesis
    using f(2) assms(2)
    by (intro that [of "s1\<lparr>st_stack := (0, length p) # st_stack s1, st_kind := None, st_size := 0\<rparr>"])
      (auto simp: stream_List_def ahead_def clear_eq enc fits_def)
qed

lemma stream_ListEnd_spec:
  assumes "st_stack s = (z, z) # st"
  shows "stream_ListEnd s = (Inr (), s\<lparr>st_stack := bump z st, st_kind := None, st_size := 0\<rparr>)"
  using assms by (cases st) (auto simp: stream_ListEnd_def)

lemma stream_Kind_EOL:
  "st_kind s = None \<Longrightarrow> st_stack s = (z, z) # st \<Longrightarrow> stream_Kind s = (Inl EOL, s\<lparr>st_kinderr := None\<rparr>)"
  by (simp add: stream_Kind_def)

section \<open>Well-typed values\<close>

text \<open>
  The values of a type that the decoder can produce.  A one-byte array holding zero is left out:
  the decoder does not step over it.  A raw value is the encoding of one item.
\<close>

fun no_tail :: "rtype \<Rightarrow> bool" where
  "no_tail (TTail ty) = False"
| "no_tail (TDecoder ty) = no_tail ty"
| "no_tail (TPtr ty) = no_tail ty"
| "no_tail _ = True"

function has_type :: "rtype \<Rightarrow> rval \<Rightarrow> bool" where
  "has_type TRaw v = (case v of VRaw b \<Rightarrow> rlp_item b | _ \<Rightarrow> False)"
| "has_type (TDecoder ty) v = (case v of VEncoder v' \<Rightarrow> has_type ty v' | _ \<Rightarrow> False)"
| "has_type TBigInt v = (case v of VBigIntPtr (Some i) \<Rightarrow> 0 \<le> i | _ \<Rightarrow> False)"
| "has_type TBigIntNoPtr v = (case v of VBigInt i \<Rightarrow> 0 \<le> i | _ \<Rightarrow> False)"
| "has_type (TUint bits) v = (case v of VUint i \<Rightarrow> unat i < 256 ^ (bits div 8) | _ \<Rightarrow> False)"
| "has_type TBool v = (case v of VBool b \<Rightarrow> True | _ \<Rightarrow> False)"
| "has_type TString v = (case v of VString b \<Rightarrow> True | _ \<Rightarrow> False)"
| "has_type TByteSlice v = (case v of VBytes b \<Rightarrow> True | _ \<Rightarrow> False)"
| "has_type (TByteArray n) v = (case v of VByteArray b \<Rightarrow> length b = n \<and> b \<noteq> [0] | _ \<Rightarrow> False)"
| "has_type (TSlice ty) v =
     (case v of VSlice tail vs \<Rightarrow> \<not> tail \<and> no_tail ty \<and> (\<forall>w \<in> set vs. has_type ty w) | _ \<Rightarrow> False)"
| "has_type (TTail ty) v = False"
| "has_type (TArray n ty) v =
     (case v of VSlice tail vs \<Rightarrow> \<not> tail \<and> length vs = n \<and> (\<forall>w \<in> set vs. has_type ty w) | _ \<Rightarrow> False)"
| "has_type (TStruct tys) v =
     (case v of
        VStruct vs \<Rightarrow> length tys = length vs \<and> (\<forall>p \<in> set (zip tys vs). has_type (fst p) (snd p))
      | _ \<Rightarrow> False)"
| "has_type (TPtr ty) v = (case v of VPtr v' \<Rightarrow> has_type ty v' | _ \<Rightarrow> False)"
| "has_type (TOptionalPtr ty nilval) v =
     (case v of
        VPtr v' \<Rightarrow> has_type ty v' \<and> rlp_spec v' \<noteq> [0x80] \<and> rlp_spec v' \<noteq> [0xC0]
      | _ \<Rightarrow> v = nilval \<and> (v = VNilByteArray \<or> v = VNilStruct))"
| "has_type TInterface v =
     (case v of
        VInterface (Some (VBytes b)) \<Rightarrow> True
      | VInterface (Some (VSlice tail vs)) \<Rightarrow> \<not> tail \<and> (\<forall>w \<in> set vs. has_type TInterface w)
      | _ \<Rightarrow> False)"
  by pat_completeness auto
termination
proof (relation "measure (\<lambda>(ty, v). size v)", goal_cases)
  case (5 tys v vs p)
  then have "snd p \<in> set vs"
    by (metis prod.collapse set_zip_rightD)
  with 5 show ?case
    using size_list_estimation' [OF _ order_refl, of "snd p" vs size] by (simp add: case_prod_beta)
qed (auto simp: less_Suc_eq_le intro: le_SucI size_list_estimation' [OF _ order_refl])

declare has_type.simps [simp del]

lemma has_type_iff:
  "has_type TRaw v \<longleftrightarrow> (\<exists>b. v = VRaw b \<and> rlp_item b)"
  "has_type (TDecoder ty) v \<longleftrightarrow> (\<exists>w. v = VEncoder w \<and> has_type ty w)"
  "has_type TBigInt v \<longleftrightarrow> (\<exists>i \<ge> 0. v = VBigIntPtr (Some i))"
  "has_type TBigIntNoPtr v \<longleftrightarrow> (\<exists>i \<ge> 0. v = VBigInt i)"
  "has_type (TUint bits) v \<longleftrightarrow> (\<exists>u. v = VUint u \<and> unat u < 256 ^ (bits div 8))"
  "has_type TBool v \<longleftrightarrow> (\<exists>x. v = VBool x)"
  "has_type TString v \<longleftrightarrow> (\<exists>b. v = VString b)"
  "has_type TByteSlice v \<longleftrightarrow> (\<exists>b. v = VBytes b)"
  "has_type (TByteArray n) v \<longleftrightarrow> (\<exists>b. v = VByteArray b \<and> length b = n \<and> b \<noteq> [0])"
  "has_type (TSlice ty) v \<longleftrightarrow>
     (\<exists>vs. v = VSlice False vs \<and> no_tail ty \<and> (\<forall>w \<in> set vs. has_type ty w))"
  "has_type (TTail ty) v \<longleftrightarrow> False"
  "has_type (TArray n ty) v \<longleftrightarrow>
     (\<exists>vs. v = VSlice False vs \<and> length vs = n \<and> (\<forall>w \<in> set vs. has_type ty w))"
  "has_type (TStruct tys) v \<longleftrightarrow> (\<exists>vs. v = VStruct vs \<and> list_all2 has_type tys vs)"
  "has_type (TPtr ty) v \<longleftrightarrow> (\<exists>w. v = VPtr w \<and> has_type ty w)"
  "has_type (TOptionalPtr ty nilval) v \<longleftrightarrow>
     (\<exists>w. v = VPtr w \<and> has_type ty w \<and> rlp_spec w \<noteq> [0x80] \<and> rlp_spec w \<noteq> [0xC0]) \<or>
     v = nilval \<and> (v = VNilByteArray \<or> v = VNilStruct)"
  by (cases v; auto simp: has_type.simps list_all2_iff split: option.splits)+

lemma has_type_interface:
  "has_type TInterface v \<longleftrightarrow> (\<exists>b. v = VInterface (Some (VBytes b))) \<or>
     (\<exists>vs. v = VInterface (Some (VSlice False vs)) \<and> (\<forall>w \<in> set vs. has_type TInterface w))"
proof (cases "\<exists>w. v = VInterface (Some w)")
  case True
  then obtain w where w: "v = VInterface (Some w)"
    by blast
  show ?thesis
    unfolding w by (subst has_type.simps) (cases w; simp)
next
  case False
  then show ?thesis
    by (subst has_type.simps) (auto split: rval.splits option.splits)
qed

lemma rlp_item_intros [simp]: "rlp_item (rlp_string b)" "rlp_item (rlp_list p)" "rlp_item [0x80]" "rlp_item [0xC0]"
  unfolding rlp_item_def using rlp_string_empty rlp_list_empty by metis+

lemma has_type_item: "has_type ty v \<Longrightarrow> rlp_item (rlp_spec v)"
proof (induction ty arbitrary: v)
  case TInterface
  then show ?case
    by (subst (asm) has_type_interface) auto
qed (auto simp: has_type_iff)

lemma has_type_no_tail: "has_type ty v \<Longrightarrow> no_tail ty"
  by (induction ty arbitrary: v) (auto simp: has_type_iff)

lemma wrap_EOL [simp]: "wrapStreamError EOL = EOL"
  by (simp add: wrapStreamError_def)

lemma map_decoded_simps [simp]:
  "map_decoded f g (Inl e, s) = (Inl (f e), s)" "map_decoded f g (Inr v, s) = (Inr (g v), s)"
  by (simp_all add: map_decoded_def)

lemma makeDecoder_EOL:
  assumes "st_kind s = None" and "st_stack s = (z, z) # st" and "no_tail ty"
  shows "\<exists>s'. makeDecoder n ty s = Some (Inl EOL, s') \<and> synced s' s"
  using assms(3)
proof (induction ty)
qed (use stream_Kind_EOL [OF assms(1,2)] assms(1) in
  \<open>auto simp: decodeRawValue_def stream_Raw_def decodeBigInt_def stream_Bytes_def decodeUint_def
     stream_uint_def decodeBool_def stream_Bool_def decodeString_def decodeByteSlice_def decodeByteArray_def
     decodeListSlice_def stream_List_def decodeListArray_def structDecoder_def optionalPtrDecoder_def
     decodeInterface_def synced_def clear_def rearm_def\<close>)

section \<open>Decoding what was encoded\<close>

definition decodes :: "rtype \<Rightarrow> rval \<Rightarrow> bool" where
  "decodes ty v \<longleftrightarrow> (\<forall>n s rest. st_kind s = None \<and> st_r s = rlp_spec v @ rest \<and>
     fits (length (rlp_spec v)) s \<and> length (rlp_spec v) < 2 ^ 64 \<and> length (rlp_spec v) \<le> n \<longrightarrow>
     (\<exists>s'. makeDecoder n ty s = Some (Inr v, s') \<and> synced s' (adv (length (rlp_spec v)) s)))"

lemma decodesI:
  assumes "\<And>n s rest. st_kind s = None \<Longrightarrow> st_r s = rlp_spec v @ rest \<Longrightarrow>
     fits (length (rlp_spec v)) s \<Longrightarrow> length (rlp_spec v) < 2 ^ 64 \<Longrightarrow> length (rlp_spec v) \<le> n \<Longrightarrow>
     \<exists>s'. makeDecoder n ty s = Some (Inr v, s') \<and> synced s' (adv (length (rlp_spec v)) s)"
  shows "decodes ty v"
  using assms unfolding decodes_def by blast

lemma decodesE:
  assumes "decodes ty v" and "st_kind s = None" and "st_r s = rlp_spec v @ rest"
    and "fits (length (rlp_spec v)) s" and "length (rlp_spec v) < 2 ^ 64" and "length (rlp_spec v) \<le> n"
  obtains s' where "makeDecoder n ty s = Some (Inr v, s')" "synced s' (adv (length (rlp_spec v)) s)"
  using assms unfolding decodes_def by blast

lemma synced_adv: "synced s t \<Longrightarrow> synced (adv k s) (adv k t)"
  by (simp add: synced_iff)

lemma synced_trans: "synced s t \<Longrightarrow> synced t u \<Longrightarrow> synced s u"
  by (simp add: synced_iff)

lemma synced_fits: "synced s t \<Longrightarrow> fits k s = fits k t"
  by (rule fits_clear) (simp add: synced_def)

text \<open>The element loop over an encoded payload that fills the rest of the open list.\<close>

lemma decodeSliceElems_spec:
  "\<forall>v \<in> set vs. decodes ty v \<and> rlp_item (rlp_spec v) \<Longrightarrow> no_tail ty \<Longrightarrow> st_kind s = None \<Longrightarrow>
   st_r s = concat (map rlp_spec vs) @ rest \<Longrightarrow> st_stack s = (p, p + length (concat (map rlp_spec vs))) # st \<Longrightarrow>
   fits (length (concat (map rlp_spec vs))) s \<Longrightarrow> length (concat (map rlp_spec vs)) < 2 ^ 64 \<Longrightarrow>
   length (concat (map rlp_spec vs)) < n \<Longrightarrow>
   \<exists>s'. decodeSliceElems n ty s = Some (Inr vs, s') \<and> synced s' (adv (length (concat (map rlp_spec vs))) s)"
proof (induction vs arbitrary: n s p)
  case Nil
  obtain m where n: "n = Suc m"
    using Nil.prems(8) by (cases n) simp_all
  have "st_stack s = (p, p) # st"
    using Nil.prems(5) by simp
  from makeDecoder_EOL [OF Nil.prems(3) this Nil.prems(2), of m]
  obtain s' where "makeDecoder m ty s = Some (Inl EOL, s')" "synced s' s"
    by blast
  then show ?case
    by (simp add: n elems_step_def synced_iff)
next
  case (Cons v vs)
  let ?k = "length (rlp_spec v)" and ?c = "length (concat (map rlp_spec vs))"
  obtain m where n: "n = Suc m"
    using Cons.prems(8) by (cases n) auto
  have pos: "0 < ?k"
    using Cons.prems(1) rlp_item_nonempty by auto
  have f: "fits ?k s" "fits ?c (adv ?k s)"
    using Cons.prems(6) fits_add [of ?k ?c s] by simp_all
  have "?k + ?c < Suc m"
    using Cons.prems(8) n by simp
  then have m: "?c < m" "?k \<le> m"
    using pos by linarith+
  have v: "decodes ty v" "st_r s = rlp_spec v @ concat (map rlp_spec vs) @ rest" "?k < 2 ^ 64"
    using Cons.prems(1,4,7) by simp_all
  obtain s1 where s1: "makeDecoder m ty s = Some (Inr v, s1)" "synced s1 (adv ?k s)"
    using decodesE [OF v(1) Cons.prems(3) v(2) f(1) v(3) m(2)] by blast
  have s1': "st_kind s1 = None" "st_r s1 = concat (map rlp_spec vs) @ rest"
    "st_stack s1 = (p + ?k, p + ?k + ?c) # st" "fits ?c s1"
    using s1(2) v(2) Cons.prems(5) f(2) synced_fits [OF s1(2), of ?c] by (simp_all add: synced_iff)
  have "\<exists>s'. decodeSliceElems m ty s1 = Some (Inr vs, s') \<and> synced s' (adv ?c s1)"
    using Cons.prems(1,7) by (intro Cons.IH [OF _ Cons.prems(2) s1' _ m(1)]) simp_all
  then obtain s2 where "decodeSliceElems m ty s1 = Some (Inr vs, s2)" "synced s2 (adv ?c s1)"
    by blast
  moreover from this(2) have "synced s2 (adv (?k + ?c) s)"
    using synced_trans [OF _ synced_adv [OF s1(2), of ?c]] by (simp add: adv_adv)
  ultimately show ?case
    by (simp add: n s1(1) elems_step_def)
qed

lemma decodeArrayElems_spec:
  "\<forall>v \<in> set vs. decodes ty v \<Longrightarrow> st_kind s = None \<Longrightarrow> st_r s = concat (map rlp_spec vs) @ rest \<Longrightarrow>
   fits (length (concat (map rlp_spec vs))) s \<Longrightarrow> length (concat (map rlp_spec vs)) < 2 ^ 64 \<Longrightarrow>
   length (concat (map rlp_spec vs)) \<le> n \<Longrightarrow>
   \<exists>s'. decodeArrayElems n (length vs) ty s = Some (Inr vs, s') \<and>
     synced s' (adv (length (concat (map rlp_spec vs))) s)"
proof (induction vs arbitrary: s)
  case Nil
  then show ?case
    by (auto simp: synced_iff)
next
  case (Cons v vs)
  let ?k = "length (rlp_spec v)" and ?c = "length (concat (map rlp_spec vs))"
  have f: "fits ?k s" "fits ?c (adv ?k s)"
    using Cons.prems(4) fits_add [of ?k ?c s] by simp_all
  obtain s1 where s1: "makeDecoder n ty s = Some (Inr v, s1)" "synced s1 (adv ?k s)"
  proof (rule decodesE [of ty v s "concat (map rlp_spec vs) @ rest" n])
  qed (use Cons.prems f(1) in simp_all)
  have "\<exists>s'. decodeArrayElems n (length vs) ty s1 = Some (Inr vs, s') \<and> synced s' (adv ?c s1)"
    using Cons.prems s1(2) synced_fits [OF s1(2), of ?c] f(2) by (intro Cons.IH) (auto simp: synced_iff)
  then show ?case
    using s1 synced_trans [OF _ synced_adv [OF s1(2), of ?c]] by (auto simp: elems_step_def adv_adv)
qed

lemma decodeFields_spec:
  "list_all2 decodes tys vs \<Longrightarrow> st_kind s = None \<Longrightarrow> st_r s = concat (map rlp_spec vs) @ rest \<Longrightarrow>
   fits (length (concat (map rlp_spec vs))) s \<Longrightarrow> length (concat (map rlp_spec vs)) < 2 ^ 64 \<Longrightarrow>
   length (concat (map rlp_spec vs)) \<le> n \<Longrightarrow>
   \<exists>s'. decodeFields n tys s = Some (Inr vs, s') \<and> synced s' (adv (length (concat (map rlp_spec vs))) s)"
proof (induction tys vs arbitrary: s rule: list_all2_induct)
  case Nil
  then show ?case
    by (auto simp: synced_iff)
next
  case (Cons ty tys v vs)
  let ?k = "length (rlp_spec v)" and ?c = "length (concat (map rlp_spec vs))"
  have f: "fits ?k s" "fits ?c (adv ?k s)"
    using Cons.prems(3) fits_add [of ?k ?c s] by simp_all
  obtain s1 where s1: "makeDecoder n ty s = Some (Inr v, s1)" "synced s1 (adv ?k s)"
  proof (rule decodesE [of ty v s "concat (map rlp_spec vs) @ rest" n])
  qed (use Cons.prems Cons.hyps(1) f(1) in simp_all)
  have "\<exists>s'. decodeFields n tys s1 = Some (Inr vs, s') \<and> synced s' (adv ?c s1)"
    using Cons.prems s1(2) synced_fits [OF s1(2), of ?c] f(2) by (intro Cons.IH) (auto simp: synced_iff)
  then show ?case
    using s1 synced_trans [OF _ synced_adv [OF s1(2), of ?c]] by (auto simp: fields_step_def adv_adv)
qed

lemma list_frame:
  assumes "st_kind s = None" and "st_r s = rlp_list p @ rest" and "length p < 2 ^ 64"
    and "fits (length (rlp_list p)) s"
  obtains s1 st where "stream_List s = (Inr (length p), s1)" "st_kind s1 = None" "st_r s1 = p @ rest"
    "st_stack s1 = (0, length p) # st" "fits (length p) s1"
    "\<forall>s2. synced s2 (adv (length p) s1) \<longrightarrow>
       (\<exists>s3. stream_ListEnd s2 = (Inr (), s3) \<and> synced s3 (adv (length (rlp_list p)) s))"
proof -
  let ?h = "length (rlp_list p) - length p"
  obtain s1 where s1: "stream_List s = (Inr (length p), s1)" "st_kind s1 = None" "st_r s1 = p @ rest"
    "st_stack s1 = (0, length p) # bump ?h (st_stack s)" "st_limited s1"
    "st_remaining s1 = st_remaining s - ?h" "fits (length p) s1"
    using assms by (rule stream_List_spec)
  have len: "?h + length p = length (rlp_list p)"
    using length_rlp_list [of p] by simp
  have drop: "drop (length (rlp_list p)) (st_r s) = rest" and lim: "st_limited s"
    using assms(2,4) by (simp_all add: fits_def)
  show ?thesis
  proof (rule that [OF s1(1-4,7)], intro allI impI)
    fix s2
    assume "synced s2 (adv (length p) s1)"
    then have s2: "st_stack s2 = (length p, length p) # bump ?h (st_stack s)" "st_r s2 = rest"
      "st_remaining s2 = st_remaining s - length (rlp_list p)" "st_limited s2"
      using s1(3-6) len by (simp_all add: synced_iff)
    show "\<exists>s3. stream_ListEnd s2 = (Inr (), s3) \<and> synced s3 (adv (length (rlp_list p)) s)"
      unfolding stream_ListEnd_spec [OF s2(1)] using s2(2-4) drop lim len by (simp add: synced_iff)
  qed
qed

lemma decodes_struct:
  assumes "list_all2 decodes tys vs"
  shows "decodes (TStruct tys) (VStruct vs)"
proof (rule decodesI)
  fix n s rest
  let ?p = "concat (map rlp_spec vs)"
  assume s: "st_kind s = None" "st_r s = rlp_spec (VStruct vs) @ rest" "fits (length (rlp_spec (VStruct vs))) s"
    "length (rlp_spec (VStruct vs)) < 2 ^ 64" "length (rlp_spec (VStruct vs)) \<le> n"
  have len: "length ?p < 2 ^ 64" "length ?p \<le> n"
    using s(4,5) length_rlp_list [of ?p] by simp_all
  have enc: "st_r s = rlp_list ?p @ rest" "fits (length (rlp_list ?p)) s"
    using s(2,3) by simp_all
  obtain s1 st where s1: "stream_List s = (Inr (length ?p), s1)" "st_kind s1 = None" "st_r s1 = ?p @ rest"
    "st_stack s1 = (0, length ?p) # st" "fits (length ?p) s1" "\<forall>s2. synced s2 (adv (length ?p) s1) \<longrightarrow>
       (\<exists>s3. stream_ListEnd s2 = (Inr (), s3) \<and> synced s3 (adv (length (rlp_list ?p)) s))"
    using s(1) enc(1) len(1) enc(2) by (rule list_frame)
  obtain s2 where s2: "decodeFields n tys s1 = Some (Inr vs, s2)" "synced s2 (adv (length ?p) s1)"
    using decodeFields_spec [OF assms s1(2,3,5) len] by blast
  then show "\<exists>s'. makeDecoder n (TStruct tys) s = Some (Inr (VStruct vs), s') \<and>
      synced s' (adv (length (rlp_spec (VStruct vs))) s)"
    using s1(1) s1(6) s2(2) by (auto simp: structDecoder_def)
qed

lemma decodes_array:
  assumes "\<forall>v \<in> set vs. decodes ty v"
  shows "decodes (TArray (length vs) ty) (VSlice False vs)"
proof (rule decodesI)
  fix n s rest
  let ?p = "concat (map rlp_spec vs)" and ?v = "VSlice False vs"
  assume s: "st_kind s = None" "st_r s = rlp_spec ?v @ rest" "fits (length (rlp_spec ?v)) s"
    "length (rlp_spec ?v) < 2 ^ 64" "length (rlp_spec ?v) \<le> n"
  have len: "length ?p < 2 ^ 64" "length ?p \<le> n"
    using s(4,5) length_rlp_list [of ?p] by simp_all
  have enc: "st_r s = rlp_list ?p @ rest" "fits (length (rlp_list ?p)) s"
    using s(2,3) by simp_all
  obtain s1 st where s1: "stream_List s = (Inr (length ?p), s1)" "st_kind s1 = None" "st_r s1 = ?p @ rest"
    "st_stack s1 = (0, length ?p) # st" "fits (length ?p) s1" "\<forall>s2. synced s2 (adv (length ?p) s1) \<longrightarrow>
       (\<exists>s3. stream_ListEnd s2 = (Inr (), s3) \<and> synced s3 (adv (length (rlp_list ?p)) s))"
    using s(1) enc(1) len(1) enc(2) by (rule list_frame)
  obtain s2 where s2: "decodeArrayElems n (length vs) ty s1 = Some (Inr vs, s2)" "synced s2 (adv (length ?p) s1)"
    using decodeArrayElems_spec [OF assms s1(2,3,5) len] by blast
  then show "\<exists>s'. makeDecoder n (TArray (length vs) ty) s = Some (Inr ?v, s') \<and>
      synced s' (adv (length (rlp_spec ?v)) s)"
    using s1(1) s1(6) s2(2) by (auto simp: decodeListArray_def)
qed

lemma decodeListSlice_spec:
  assumes "\<forall>v \<in> set vs. decodes ty v \<and> rlp_item (rlp_spec v)" and "no_tail ty"
    and "st_kind s = None" and "st_r s = rlp_spec (VSlice False vs) @ rest"
    and "fits (length (rlp_spec (VSlice False vs))) s" and "length (rlp_spec (VSlice False vs)) < 2 ^ 64"
    and "length (rlp_spec (VSlice False vs)) \<le> n"
  shows "\<exists>s'. decodeListSlice (decodeSliceElems n ty) s = Some (Inr (VSlice False vs), s') \<and>
    synced s' (adv (length (rlp_spec (VSlice False vs))) s)"
proof -
  let ?p = "concat (map rlp_spec vs)"
  have len: "length ?p < 2 ^ 64" "length ?p < n"
    using assms(6,7) length_rlp_list [of ?p] by simp_all
  have enc: "st_r s = rlp_list ?p @ rest" "fits (length (rlp_list ?p)) s"
    using assms(4,5) by simp_all
  obtain s1 st where s1: "stream_List s = (Inr (length ?p), s1)" "st_kind s1 = None" "st_r s1 = ?p @ rest"
    "st_stack s1 = (0, length ?p) # st" "fits (length ?p) s1" "\<forall>s2. synced s2 (adv (length ?p) s1) \<longrightarrow>
       (\<exists>s3. stream_ListEnd s2 = (Inr (), s3) \<and> synced s3 (adv (length (rlp_list ?p)) s))"
    using assms(3) enc(1) len(1) enc(2) by (rule list_frame)
  have st: "st_stack s1 = (0, 0 + length ?p) # st"
    using s1(4) by simp
  obtain s2 where s2: "decodeSliceElems n ty s1 = Some (Inr vs, s2)" "synced s2 (adv (length ?p) s1)"
    using decodeSliceElems_spec [OF assms(1,2) s1(2,3) st s1(5) len] by blast
  show ?thesis
  proof (cases "length ?p = 0")
    case True
    then have "vs = []"
      using assms(1) rlp_item_nonempty by (cases vs) auto
    moreover have "synced s1 (adv (length ?p) s1)"
      unfolding True using s1(2) by (simp add: synced_iff)
    ultimately show ?thesis
      using s1(1) s1(6) by (auto simp: decodeListSlice_def)
  next
    case False
    then show ?thesis
      using s1(1) s2(1) s1(6) s2(2) by (auto simp: decodeListSlice_def)
  qed
qed

text \<open>The leaves.\<close>

lemma decodes_bytes:
  assumes "rlp_spec v = rlp_string b"
    and "\<And>n s. makeDecoder n ty s = Some (map_decoded f g (stream_Bytes s))" and "g b = v"
  shows "decodes ty v"
proof (rule decodesI)
  fix n s rest
  assume s: "st_kind s = None" "st_r s = rlp_spec v @ rest" "fits (length (rlp_spec v)) s"
    "length (rlp_spec v) < 2 ^ 64" "length (rlp_spec v) \<le> n"
  have "length b < 2 ^ 64"
    using s(4) length_rlp_string [of b] unfolding assms(1) by linarith
  with s obtain s' where "stream_Bytes s = (Inr b, s')" "synced s' (adv (length (rlp_spec v)) s)"
    using stream_Bytes_spec [of s b rest] by (auto simp: assms(1))
  then show "\<exists>s'. makeDecoder n ty s = Some (Inr v, s') \<and> synced s' (adv (length (rlp_spec v)) s)"
    by (simp add: assms(2,3))
qed

lemma decodeBigInt_eq:
  "fst (stream_Bytes s) = Inr (nat_be (nat i)) \<Longrightarrow> 0 \<le> i \<Longrightarrow> decodeBigInt s = (Inr i, snd (stream_Bytes s))"
  using hd_nat_be [of "nat i"] by (cases "stream_Bytes s") (auto simp: decodeBigInt_def)

lemma decodes_bigint:
  assumes "rlp_spec v = rlp_string (nat_be (nat i))" and "0 \<le> i"
    and "\<And>n s. makeDecoder n ty s = Some (map_decoded id g (decodeBigInt s))" and "g i = v"
  shows "decodes ty v"
proof (rule decodesI)
  fix n s rest
  let ?b = "nat_be (nat i)"
  assume s: "st_kind s = None" "st_r s = rlp_spec v @ rest" "fits (length (rlp_spec v)) s"
    "length (rlp_spec v) < 2 ^ 64" "length (rlp_spec v) \<le> n"
  have "length ?b < 2 ^ 64"
    using s(4) length_rlp_string [of ?b] unfolding assms(1) by linarith
  with s obtain s' where "stream_Bytes s = (Inr ?b, s')" "synced s' (adv (length (rlp_spec v)) s)"
    using stream_Bytes_spec [of s ?b rest] by (auto simp: assms(1))
  then show "\<exists>s'. makeDecoder n ty s = Some (Inr v, s') \<and> synced s' (adv (length (rlp_spec v)) s)"
    using decodeBigInt_eq [of s i] assms(2) by (simp add: assms(3,4))
qed

lemma decodes_uint:
  assumes "unat u < 256 ^ (bits div 8)"
  shows "decodes (TUint bits) (VUint u)"
proof (rule decodesI)
  fix n s rest
  let ?v = "VUint u"
  assume s: "st_kind s = None" "st_r s = rlp_spec ?v @ rest" "fits (length (rlp_spec ?v)) s"
  obtain s' where "stream_uint bits s = (Inr u, s')" "synced s' (adv (length (rlp_spec ?v)) s)"
    using stream_uint_spec [of s u rest bits] s length_nat_be_le [OF assms] by auto
  then show "\<exists>s'. makeDecoder n (TUint bits) s = Some (Inr ?v, s') \<and> synced s' (adv (length (rlp_spec ?v)) s)"
    by (simp add: decodeUint_def)
qed

lemma decodes_bool: "decodes TBool (VBool x)"
proof (rule decodesI)
  fix n s rest
  let ?v = "VBool x"
  assume s: "st_kind s = None" "st_r s = rlp_spec ?v @ rest" "fits (length (rlp_spec ?v)) s"
  have "unat (of_bool x :: u64) = of_bool x" "length (nat_be (of_bool x)) \<le> 1"
    by (simp_all add: nat_be_small)
  then obtain s' where "stream_uint 8 s = (Inr (of_bool x), s')" "synced s' (adv (length (rlp_spec ?v)) s)"
    using stream_uint_spec [of s "of_bool x" rest 8] s by auto
  then show "\<exists>s'. makeDecoder n TBool s = Some (Inr ?v, s') \<and> synced s' (adv (length (rlp_spec ?v)) s)"
    by (cases x) (simp_all add: decodeBool_def stream_Bool_def)
qed

lemma decodes_byte_array:
  assumes "length b = vlen" and "b \<noteq> [0]"
  shows "decodes (TByteArray vlen) (VByteArray b)"
proof (rule decodesI)
  fix n s rest
  let ?v = "VByteArray b"
  assume s: "st_kind s = None" "st_r s = rlp_spec ?v @ rest" "fits (length (rlp_spec ?v)) s"
    "length (rlp_spec ?v) < 2 ^ 64"
  show "\<exists>s'. makeDecoder n (TByteArray vlen) s = Some (Inr ?v, s') \<and> synced s' (adv (length (rlp_spec ?v)) s)"
  proof (cases "single_byte b")
    case True
    then obtain x where x: "b = [x]" "x < 0x80"
      by (rule single_byteE)
    with True s have "st_r s = [x] @ rest" "fits 1 s" "length (rlp_spec ?v) = 1"
      by (simp_all add: rlp_string_def)
    with s(1) x obtain s1 where s1: "stream_Kind s = (Inr (KByte, 0), s1)" "ahead KByte 0 (adv 1 s) s1"
      "st_byteval s1 = x"
      using stream_Kind_byte by blast
    have "x \<noteq> 0"
      using assms(2) x(1) by simp
    then have "stream_uint 64 s1 = (Inr (ucast x), rearm s1)"
      using stream_Kind_ahead [OF s1(2)] s1(3) by (simp add: stream_uint_def)
    moreover have "(ucast (ucast x :: u64) :: byte) = x"
      by (rule bit_word_eqI) (simp add: bit_simps)
    ultimately show ?thesis
      using s1(1) assms(1) x(1) rearm_synced [OF s1(2)] \<open>length (rlp_spec ?v) = 1\<close>
      by (simp add: decodeByteArray_def)
  next
    case False
    let ?h = "length (rlp_head 0x80 0xB7 (length b))"
    have enc: "rlp_string b = rlp_head 0x80 0xB7 (length b) @ b"
      using False by (auto simp: rlp_string_def)
    have f: "fits (?h + length b) s" "fits (length b) (adv ?h s)" and len: "length b < 2 ^ 64"
      using s(3,4) fits_add [of ?h "length b" s] by (simp_all add: enc)
    obtain s1 where s1: "stream_Kind s = (Inr (KString, length b), s1)" "ahead KString (length b) (adv ?h s) s1"
      using s(1,2) f(1) len stream_Kind_string [of s "length b" "b @ rest"] by (auto simp: enc)
    have "take (length b) (st_r (adv ?h s)) = b"
      using s(2) by (simp add: enc)
    then have "readFull (length b) s1 = (Inr b, adv (length b) s1)"
      "synced (adv (length b) s1) (adv (length (rlp_string b)) s)"
      using ahead_readFull [OF s1(2) f(2)] by (simp_all add: enc adv_adv)
    moreover have "\<not> (length b = 1 \<and> hd b < 128)"
      using False by (auto simp: word_le_nat_alt word_less_nat_alt)
    ultimately show ?thesis
      using s1(1) assms(1) by (auto simp: decodeByteArray_def)
  qed
qed

lemma rlp_item_cases:
  assumes "rlp_item e"
  obtains (byte) x where "e = [x]" "x < 0x80"
    | (str) b where "e = rlp_head 0x80 0xB7 (length b) @ b"
    | (list) b where "e = rlp_head 0xC0 0xF7 (length b) @ b"
  using assms unfolding rlp_item_def rlp_string_def rlp_list_def by (metis single_byteE)

lemma decodes_raw:
  assumes "rlp_item e"
  shows "decodes TRaw (VRaw e)"
proof (rule decodesI)
  fix n s rest
  let ?v = "VRaw e"
  assume s: "st_kind s = None" "st_r s = rlp_spec ?v @ rest" "fits (length (rlp_spec ?v)) s"
    "length (rlp_spec ?v) < 2 ^ 64"
  consider (byte) x where "e = [x]" "x < 0x80"
    | (str) b where "e = rlp_head 0x80 0xB7 (length b) @ b"
    | (list) b where "e = rlp_head 0xC0 0xF7 (length b) @ b"
    using assms by (rule rlp_item_cases)
  then show "\<exists>s'. makeDecoder n TRaw s = Some (Inr ?v, s') \<and> synced s' (adv (length (rlp_spec ?v)) s)"
  proof cases
    case x: byte
    with s obtain s1 where "stream_Kind s = (Inr (KByte, 0), s1)" "ahead KByte 0 (adv 1 s) s1"
      "st_byteval s1 = x"
      using stream_Kind_byte [of s x rest] by auto
    with x show ?thesis
      using rearm_synced by (auto simp: decodeRawValue_def stream_Raw_def)
  next
    case str
    let ?h = "length (rlp_head 0x80 0xB7 (length b))"
    have f: "fits (?h + length b) s" "fits (length b) (adv ?h s)" and len: "length b < 2 ^ 64"
      using s(3,4) fits_add [of ?h "length b" s] by (simp_all add: str)
    obtain s1 where s1: "stream_Kind s = (Inr (KString, length b), s1)" "ahead KString (length b) (adv ?h s) s1"
      using s(1,2) f(1) len stream_Kind_string [of s "length b" "b @ rest"] by (auto simp: str)
    have "take (length b) (st_r (adv ?h s)) = b"
      using s(2) by (simp add: str)
    then have "readFull (length b) s1 = (Inr b, adv (length b) s1)"
      "synced (adv (length b) s1) (adv (length e) s)"
      using ahead_readFull [OF s1(2) f(2)] by (simp_all add: str adv_adv)
    then show ?thesis
      using s1(1) len by (simp add: decodeRawValue_def stream_Raw_def puthead_spec str)
  next
    case list
    let ?h = "length (rlp_head 0xC0 0xF7 (length b))"
    have f: "fits (?h + length b) s" "fits (length b) (adv ?h s)" and len: "length b < 2 ^ 64"
      using s(3,4) fits_add [of ?h "length b" s] by (simp_all add: list)
    obtain s1 where s1: "stream_Kind s = (Inr (KList, length b), s1)" "ahead KList (length b) (adv ?h s) s1"
      using s(1,2) f(1) len stream_Kind_list [of s "length b" "b @ rest"] by (auto simp: list)
    have "take (length b) (st_r (adv ?h s)) = b"
      using s(2) by (simp add: list)
    then have "readFull (length b) s1 = (Inr b, adv (length b) s1)"
      "synced (adv (length b) s1) (adv (length e) s)"
      using ahead_readFull [OF s1(2) f(2)] by (simp_all add: list adv_adv)
    then show ?thesis
      using s1(1) len by (simp add: decodeRawValue_def stream_Raw_def puthead_spec list)
  qed
qed

text \<open>A decoder that has already looked at the kind of the value ahead reads the same value.\<close>

lemma stream_Kind_idem:
  assumes "stream_Kind s = (Inr r, s1)"
  shows "stream_Kind s1 = (Inr r, s1)"
proof (cases "st_kind s")
  case None
  obtain k sz err t where rk: "readKind (s\<lparr>st_kinderr := None\<rparr>) = ((k, sz, err), t)"
    by (metis prod.exhaust)
  define err' where "err' = (case err of Some e \<Rightarrow> Some e | None \<Rightarrow> kind_size_error sz t)"
  have "(case err' of None \<Rightarrow> Inr (k, sz) | Some e \<Rightarrow> Inl e,
      t\<lparr>st_kind := Some k, st_size := sz, st_kinderr := err'\<rparr>) = (Inr r, s1)"
    using assms None rk unfolding stream_Kind_def err'_def by (simp add: Let_def split: if_splits)
  then show ?thesis
    by (cases err') (auto simp: stream_Kind_def)
next
  case (Some k)
  with assms show ?thesis
    by (auto simp: stream_Kind_def)
qed

lemma makeDecoder_Kind:
  assumes "stream_Kind s = (Inr r, s1)" and "no_tail ty"
  shows "makeDecoder n ty s1 = makeDecoder n ty s"
  using assms(2)
proof (induction ty)
qed (use assms(1) stream_Kind_idem [OF assms(1)] in
  \<open>simp_all add: decodeRawValue_def stream_Raw_def decodeBigInt_def stream_Bytes_def decodeUint_def
     stream_uint_def decodeBool_def stream_Bool_def decodeString_def decodeByteSlice_def decodeByteArray_def
     decodeListSlice_def stream_List_def decodeListArray_def structDecoder_def optionalPtrDecoder_def
     decodeInterface_def\<close>)

lemma item_Kind:
  assumes "rlp_item e" and "st_kind s = None" and "st_r s = e @ rest" and "fits (length e) s"
    and "length e < 2 ^ 64"
  obtains k sz s1 where "stream_Kind s = (Inr (k, sz), s1)" "sz = 0 \<and> k \<noteq> KByte \<longleftrightarrow> e = [0x80] \<or> e = [0xC0]"
    "sz = 0 \<longrightarrow> synced (rearm s1) (adv 1 s)"
  using assms(1)
proof (cases e rule: rlp_item_cases)
  case (byte x)
  with assms obtain s1 where "stream_Kind s = (Inr (KByte, 0), s1)" "ahead KByte 0 (adv 1 s) s1"
    using stream_Kind_byte [of s x rest] by auto
  moreover have "x \<noteq> 0x80" "x \<noteq> 0xC0"
    using byte(2) by auto
  ultimately show ?thesis
    using byte(1) that [of KByte 0 s1] rearm_synced by auto
next
  case (str b)
  let ?h = "length (rlp_head 0x80 0xB7 (length b))"
  have h: "0 < ?h" "length b = 0 \<longrightarrow> ?h = 1" "\<not> 0xC0 = (0x80 :: byte)"
    by (auto simp: rlp_head_def)
  obtain s1 where "stream_Kind s = (Inr (KString, length b), s1)" "ahead KString (length b) (adv ?h s) s1"
    using assms(2-5) stream_Kind_string [of s "length b" "b @ rest"] by (auto simp: str)
  moreover have "length b = 0 \<longleftrightarrow> e = [0x80] \<or> e = [0xC0]"
    using h unfolding str by (cases "rlp_head 0x80 0xB7 (length b)") (auto simp: rlp_head_def)
  ultimately show ?thesis
    using that [of KString "length b" s1] rearm_synced h(2) by fastforce
next
  case (list b)
  let ?h = "length (rlp_head 0xC0 0xF7 (length b))"
  have h: "0 < ?h" "length b = 0 \<longrightarrow> ?h = 1" "\<not> 0xC0 = (0x80 :: byte)"
    by (auto simp: rlp_head_def)
  obtain s1 where "stream_Kind s = (Inr (KList, length b), s1)" "ahead KList (length b) (adv ?h s) s1"
    using assms(2-5) stream_Kind_list [of s "length b" "b @ rest"] by (auto simp: list)
  moreover have "length b = 0 \<longleftrightarrow> e = [0x80] \<or> e = [0xC0]"
    using h unfolding list by (cases "rlp_head 0xC0 0xF7 (length b)") (auto simp: rlp_head_def)
  ultimately show ?thesis
    using that [of KList "length b" s1] rearm_synced h(2) by fastforce
qed

lemma decodes_optional_ptr:
  assumes "decodes ty w" and "has_type ty w" and "rlp_spec w \<noteq> [0x80]" and "rlp_spec w \<noteq> [0xC0]"
  shows "decodes (TOptionalPtr ty nilval) (VPtr w)"
proof (rule decodesI)
  fix n s rest
  let ?v = "VPtr w"
  assume s: "st_kind s = None" "st_r s = rlp_spec ?v @ rest" "fits (length (rlp_spec ?v)) s"
    "length (rlp_spec ?v) < 2 ^ 64" "length (rlp_spec ?v) \<le> n"
  have s': "st_r s = rlp_spec w @ rest" "fits (length (rlp_spec w)) s" "length (rlp_spec w) < 2 ^ 64"
    using s(2-4) by simp_all
  obtain k sz s1 where kind: "stream_Kind s = (Inr (k, sz), s1)"
    and "sz = 0 \<and> k \<noteq> KByte \<longleftrightarrow> rlp_spec w = [0x80] \<or> rlp_spec w = [0xC0]"
    by (rule item_Kind [OF has_type_item [OF assms(2)] s(1) s'])
  then have nonempty: "\<not> (sz = 0 \<and> k \<noteq> KByte)"
    using assms(3,4) by simp
  obtain s' where "makeDecoder n ty s = Some (Inr w, s')" "synced s' (adv (length (rlp_spec w)) s)"
    using decodesE [OF assms(1) s(1), of rest n] s(2-5) by auto
  then show "\<exists>s'. makeDecoder n (TOptionalPtr ty nilval) s = Some (Inr ?v, s') \<and>
      synced s' (adv (length (rlp_spec ?v)) s)"
    using kind nonempty makeDecoder_Kind [OF kind has_type_no_tail [OF assms(2)]]
    by (auto simp: optionalPtrDecoder_def)
qed

lemma decodes_optional_nil:
  assumes "v = VNilByteArray \<or> v = VNilStruct"
  shows "decodes (TOptionalPtr ty v) v"
proof (rule decodesI)
  fix n s rest
  assume s: "st_kind s = None" "st_r s = rlp_spec v @ rest" "fits (length (rlp_spec v)) s"
    "length (rlp_spec v) < 2 ^ 64"
  have e: "rlp_spec v = [0x80] \<or> rlp_spec v = [0xC0]" "rlp_item (rlp_spec v)"
    using assms by auto
  with s obtain k s1 where "stream_Kind s = (Inr (k, 0), s1)" "k \<noteq> KByte" "synced (rearm s1) (adv 1 s)"
    using item_Kind [OF e(2), of s rest] by metis
  then show "\<exists>s'. makeDecoder n (TOptionalPtr ty v) s = Some (Inr v, s') \<and> synced s' (adv (length (rlp_spec v)) s)"
    using e(1) by (auto simp: optionalPtrDecoder_def)
qed

lemma decodes_interface_bytes: "decodes TInterface (VInterface (Some (VBytes b)))"
proof (rule decodesI)
  fix n s rest
  let ?v = "VInterface (Some (VBytes b))"
  assume s: "st_kind s = None" "st_r s = rlp_spec ?v @ rest" "fits (length (rlp_spec ?v)) s"
    "length (rlp_spec ?v) < 2 ^ 64"
  have "length b < 2 ^ 64"
    using s(4) length_rlp_string [of b] by simp
  with s obtain s' where b: "stream_Bytes s = (Inr b, s')" "synced s' (adv (length (rlp_string b)) s)"
    using stream_Bytes_spec [of s b rest] by auto
  then obtain k sz s1 where kind: "stream_Kind s = (Inr (k, sz), s1)" "k \<noteq> KList"
    by (cases "stream_Kind s") (auto simp: stream_Bytes_def split: sum.splits Kind.splits)
  moreover have "stream_Bytes s1 = stream_Bytes s"
    using kind(1) stream_Kind_idem [OF kind(1)] by (simp add: stream_Bytes_def)
  ultimately show "\<exists>s'. makeDecoder n TInterface s = Some (Inr ?v, s') \<and> synced s' (adv (length (rlp_spec ?v)) s)"
    using b by (auto simp: decodeInterface_def)
qed

lemma decodes_interface_list:
  assumes "\<forall>v \<in> set vs. decodes TInterface v \<and> rlp_item (rlp_spec v)"
  shows "decodes TInterface (VInterface (Some (VSlice False vs)))"
proof (rule decodesI)
  fix n s rest
  let ?v = "VInterface (Some (VSlice False vs))"
  assume s: "st_kind s = None" "st_r s = rlp_spec ?v @ rest" "fits (length (rlp_spec ?v)) s"
    "length (rlp_spec ?v) < 2 ^ 64" "length (rlp_spec ?v) \<le> n"
  obtain s' where l: "decodeListSlice (decodeSliceElems n TInterface) s = Some (Inr (VSlice False vs), s')"
    "synced s' (adv (length (rlp_spec ?v)) s)"
    using decodeListSlice_spec [OF assms _ s(1), of rest n] s(2-5) by auto
  then obtain sz s1 where kind: "stream_Kind s = (Inr (KList, sz), s1)"
    by (cases "stream_Kind s") (auto simp: decodeListSlice_def stream_List_def split: sum.splits if_splits)
  moreover have "decodeListSlice (decodeSliceElems n TInterface) s1 = decodeListSlice (decodeSliceElems n TInterface) s"
    using kind stream_Kind_idem [OF kind] by (simp add: decodeListSlice_def stream_List_def)
  ultimately show "\<exists>s'. makeDecoder n TInterface s = Some (Inr ?v, s') \<and> synced s' (adv (length (rlp_spec ?v)) s)"
    using l by (auto simp: decodeInterface_def)
qed

lemma decodes_map:
  assumes "decodes ty w" and "rlp_spec v = rlp_spec w"
    and "\<And>n s. makeDecoder n ty' s = map_option (map_decoded id g) (makeDecoder n ty s)" and "g w = v"
  shows "decodes ty' v"
proof (rule decodesI)
  fix n s rest
  assume s: "st_kind s = None" "st_r s = rlp_spec v @ rest" "fits (length (rlp_spec v)) s"
    "length (rlp_spec v) < 2 ^ 64" "length (rlp_spec v) \<le> n"
  obtain s' where "makeDecoder n ty s = Some (Inr w, s')" "synced s' (adv (length (rlp_spec w)) s)"
    by (rule decodesE [OF assms(1) s(1-5) [unfolded assms(2)]])
  then show "\<exists>s'. makeDecoder n ty' s = Some (Inr v, s') \<and> synced s' (adv (length (rlp_spec v)) s)"
    using assms(4) unfolding assms(2,3) by simp
qed

lemma size_list_mem: "x \<in> set xs \<Longrightarrow> size x \<le> size_list size xs"
  by (rule size_list_estimation' [OF _ order_refl])

lemma has_type_decodes: "has_type ty v \<Longrightarrow> decodes ty v"
proof (induction v arbitrary: ty rule: measure_induct_rule [of size])
  case (less v)
  have elems: "\<forall>w \<in> set vs. decodes t w \<and> rlp_item (rlp_spec w)"
    if "\<forall>w \<in> set vs. has_type t w" "size_list size vs < size v" for t vs
    using that less.IH has_type_item size_list_mem by (metis order_le_less_trans)
  show ?case
  proof (cases ty)
    case (TStruct tys)
    with less.prems obtain vs where vs: "v = VStruct vs" "list_all2 has_type tys vs"
      by (auto simp: has_type_iff)
    then have "list_all2 decodes tys vs"
      using less.IH size_list_mem [OF nth_mem, of _ vs] by (auto simp: list_all2_conv_all_nth less_Suc_eq_le)
    then show ?thesis
      using decodes_struct by (simp add: TStruct vs(1))
  next
    case (TSlice t)
    with less.prems obtain vs where vs: "v = VSlice False vs" "\<forall>w \<in> set vs. has_type t w" "no_tail t"
      by (auto simp: has_type_iff)
    then have d: "\<forall>w \<in> set vs. decodes t w \<and> rlp_item (rlp_spec w)"
      using elems [of vs t] by simp
    show ?thesis
      unfolding TSlice vs(1)
      by (rule decodesI) (simp only: makeDecoder.simps decodeListSlice_spec [OF d vs(3)])
  next
    case (TArray m t)
    with less.prems obtain vs where vs: "v = VSlice False vs" "length vs = m" "\<forall>w \<in> set vs. has_type t w"
      by (auto simp: has_type_iff)
    then show ?thesis
      using elems [of vs t] decodes_array [of vs t] by (simp add: TArray)
  next
    case TInterface
    with less.prems consider b where "v = VInterface (Some (VBytes b))"
      | vs where "v = VInterface (Some (VSlice False vs))" "\<forall>w \<in> set vs. has_type TInterface w"
      using has_type_interface by blast
    then show ?thesis
      using elems [of _ TInterface] decodes_interface_bytes decodes_interface_list
      unfolding TInterface by cases auto
  next
    case (TOptionalPtr t nilval)
    with less.prems consider w where "v = VPtr w" "has_type t w" "rlp_spec w \<noteq> [0x80]" "rlp_spec w \<noteq> [0xC0]"
      | "v = nilval" "v = VNilByteArray \<or> v = VNilStruct"
      by (auto simp: has_type_iff)
    then show ?thesis
    proof cases
      case 1
      then have "decodes t w"
        by (intro less.IH) simp_all
      with 1 show ?thesis
        unfolding TOptionalPtr 1(1) by (intro decodes_optional_ptr)
    qed (use TOptionalPtr decodes_optional_nil in simp)
  next
    case (TDecoder t)
    with less.prems obtain w where "v = VEncoder w" "has_type t w"
      by (auto simp: has_type_iff)
    with less.IH [of w t] show ?thesis
      unfolding TDecoder by - (rule decodes_map [of t w _ _ VEncoder], simp_all)
  next
    case (TPtr t)
    with less.prems obtain w where "v = VPtr w" "has_type t w"
      by (auto simp: has_type_iff)
    with less.IH [of w t] show ?thesis
      unfolding TPtr by - (rule decodes_map [of t w _ _ VPtr], simp_all)
  next
    case TBigInt
    with less.prems obtain i where "v = VBigIntPtr (Some i)" "0 \<le> i"
      by (auto simp: has_type_iff)
    then show ?thesis
      unfolding TBigInt by - (rule decodes_bigint [of v i _ "VBigIntPtr \<circ> Some"], simp_all)
  next
    case TBigIntNoPtr
    with less.prems obtain i where "v = VBigInt i" "0 \<le> i"
      by (auto simp: has_type_iff)
    then show ?thesis
      unfolding TBigIntNoPtr by - (rule decodes_bigint [of v i _ VBigInt], simp_all)
  next
    case TString
    with less.prems obtain b where "v = VString b"
      by (auto simp: has_type_iff)
    then show ?thesis
      unfolding TString by - (rule decodes_bytes [of v b _ wrapStreamError VString], simp_all add: decodeString_def)
  next
    case TByteSlice
    with less.prems obtain b where "v = VBytes b"
      by (auto simp: has_type_iff)
    then show ?thesis
      unfolding TByteSlice
      by - (rule decodes_bytes [of v b _ wrapStreamError VBytes], simp_all add: decodeByteSlice_def)
  qed (use less.prems decodes_raw decodes_uint decodes_bool decodes_byte_array in \<open>auto simp: has_type_iff\<close>)
qed

lemma has_type_encodable: "has_type ty v \<Longrightarrow> rlp_encodable v"
proof (induction v arbitrary: ty rule: measure_induct_rule [of size])
  case (less v)
  have elems: "\<forall>w \<in> set vs. rlp_encodable w"
    if "\<forall>w \<in> set vs. has_type t w" "size_list size vs < size v" for t vs
    using that less.IH size_list_mem by (metis order_le_less_trans)
  show ?case
  proof (cases ty)
    case (TStruct tys)
    with less.prems obtain vs where vs: "v = VStruct vs" "list_all2 has_type tys vs"
      by (auto simp: has_type_iff)
    then show ?thesis
      using less.IH size_list_mem by (fastforce simp: list_all2_conv_all_nth in_set_conv_nth less_Suc_eq_le)
  next
    case TInterface
    with less.prems consider b where "v = VInterface (Some (VBytes b))"
      | vs where "v = VInterface (Some (VSlice False vs))" "\<forall>w \<in> set vs. has_type TInterface w"
      using has_type_interface by blast
    then show ?thesis
      using elems [of _ TInterface] by cases auto
  qed (use less elems in \<open>auto simp: has_type_iff\<close>)
qed

lemma NewStream_fields [simp]:
  "st_r (NewStream r l) = r" "st_limited (NewStream r l)" "st_kind (NewStream r l) = None"
  "st_stack (NewStream r l) = []" "st_remaining (NewStream r l) = (if l > 0 then l else length r)"
  by (simp_all add: NewStream_def stream_Reset_def)

lemma DecodeBytes_spec:
  assumes "has_type ty v" and "length (rlp_spec v @ rest) < 2 ^ 64"
  shows "DecodeBytes ty (rlp_spec v @ rest) = Some (if rest = [] then Inr v else Inl ErrMoreThanOneValue)"
proof -
  let ?b = "rlp_spec v @ rest"
  let ?s = "NewStream ?b (length ?b)"
  have "fits (length (rlp_spec v)) ?s" "length (rlp_spec v) < 2 ^ 64" "length (rlp_spec v) \<le> length ?b"
    using assms(2) by (simp_all add: fits_def)
  then obtain s' where "makeDecoder (length ?b) ty ?s = Some (Inr v, s')" "synced s' (adv (length (rlp_spec v)) ?s)"
    by (rule decodesE [OF has_type_decodes [OF assms(1)], of ?s rest "length ?b", OF NewStream_fields(3,1)])
  then show ?thesis
    by (auto simp: DecodeBytes_def DecodeBytes_fuel_def synced_iff)
qed



end
