(* ===== verification/Common_Types.thy ===== *)
theory Common_Types
  imports Prelude
begin

text \<open>
  \<^verbatim>\<open>common/types.go\<close>: hashes and addresses.  The EIP-55 rendering of an address,
  \<^verbatim>\<open>Address.Hex\<close>, hashes its own hexadecimal digits with Keccak-256; the hash is the
  argument \<open>kec\<close> of the model.  Whatever \<open>kec\<close> is, two addresses render to the same
  string only when they are equal, which is what every sort by \<^verbatim>\<open>String()\<close> relies on.
\<close>

type_synonym hash = "256 word"
type_synonym address = "160 word"
type_synonym keccak = "bytes \<Rightarrow> hash"

definition AddressLength :: nat where
  "AddressLength = 20"

definition HashLength :: nat where
  "HashLength = 32"

definition EmptyHash :: "hash \<Rightarrow> bool" where
  "EmptyHash h \<longleftrightarrow> h = 0"

definition Address_Bytes :: "address \<Rightarrow> bytes" where
  "Address_Bytes a = be_bytes AddressLength a"

definition Hash_Bytes :: "hash \<Rightarrow> bytes" where
  "Hash_Bytes h = be_bytes HashLength h"

lemma length_Address_Bytes [simp]: "length (Address_Bytes a) = 20"
  by (simp add: Address_Bytes_def AddressLength_def)

lemma length_Hash_Bytes [simp]: "length (Hash_Bytes h) = 32"
  by (simp add: Hash_Bytes_def HashLength_def)

lemma Address_Bytes_inject: "Address_Bytes a = Address_Bytes b \<longleftrightarrow> a = b"
  unfolding Address_Bytes_def AddressLength_def
  using be_bytes_inject [of 20 a b] by auto

lemma Hash_Bytes_inject: "Hash_Bytes a = Hash_Bytes b \<longleftrightarrow> a = b"
  unfolding Hash_Bytes_def HashLength_def
  using be_bytes_inject [of 32 a b] by auto

section \<open>Arrays from bytes\<close>

definition word_of_bytes :: "bytes \<Rightarrow> 'a::len word" where
  "word_of_bytes bs = fold (\<lambda>b w. push_bit 8 w OR ucast b) bs 0"

text \<open>\<^verbatim>\<open>SetBytes\<close> crops a longer slice from the left and pads a shorter one with zeros.\<close>

definition BytesToHash :: "bytes \<Rightarrow> hash" where
  "BytesToHash b = word_of_bytes (if length b > HashLength then drop (length b - HashLength) b else b)"

definition BytesToAddress :: "bytes \<Rightarrow> address" where
  "BytesToAddress b =
     word_of_bytes (if length b > AddressLength then drop (length b - AddressLength) b else b)"

lemma push_drop_bit_or_byte:
  fixes w :: "'a::len word"
  assumes "k + 8 \<le> LENGTH('a)"
  shows "push_bit 8 (drop_bit (k + 8) w) OR ucast (ucast (drop_bit k w) :: byte) = drop_bit k w"
proof (rule bit_word_eqI)
  fix j
  assume "j < LENGTH('a)"
  then show "bit (push_bit 8 (drop_bit (k + 8) w) OR ucast (ucast (drop_bit k w) :: byte)) j =
      bit (drop_bit k w) j"
    using assms
    by (cases "j < 8") (auto simp: bit_simps add.commute add.left_commute dest: bit_imp_le_length)
qed

lemma word_of_be_bytes_prefix:
  fixes w :: "'a::len word"
  assumes "LENGTH('a) = 8 * n"
  shows "m \<le> n \<Longrightarrow> fold (\<lambda>b w. push_bit 8 w OR ucast b)
      (map (\<lambda>i. ucast (drop_bit (8 * (n - 1 - i)) w) :: byte) [0..<m]) (0 :: 'a word) =
    drop_bit (8 * (n - m)) w"
proof (induction m)
  case 0
  show ?case
    by (rule bit_word_eqI) (auto simp: bit_simps assms dest: bit_imp_le_length)
next
  case (Suc m)
  then have "8 * (n - m) = 8 * (n - 1 - m) + 8" "8 * (n - 1 - m) + 8 \<le> LENGTH('a)"
    using assms by auto
  with Suc show ?case
    using push_drop_bit_or_byte [of "8 * (n - 1 - m)" w] by simp
qed

lemma word_of_be_bytes:
  fixes w :: "'a::len word"
  shows "LENGTH('a) = 8 * n \<Longrightarrow> word_of_bytes (be_bytes n w) = w"
  using word_of_be_bytes_prefix [of n n w] by (simp add: word_of_bytes_def be_bytes_def)

lemma BytesToHash_Hash_Bytes [simp]: "BytesToHash (Hash_Bytes h) = h"
  unfolding BytesToHash_def by (simp add: HashLength_def Hash_Bytes_def word_of_be_bytes)

lemma BytesToAddress_Address_Bytes [simp]: "BytesToAddress (Address_Bytes a) = a"
  unfolding BytesToAddress_def by (simp add: AddressLength_def Address_Bytes_def word_of_be_bytes)

section \<open>Hexadecimal rendering\<close>

definition hex_digit :: "nat \<Rightarrow> char" where
  "hex_digit n = ''0123456789abcdef'' ! n"

definition hex_of_byte :: "byte \<Rightarrow> string" where
  "hex_of_byte b = [hex_digit (unat (drop_bit 4 b)), hex_digit (unat (b AND 15))]"

definition hex_EncodeToString :: "bytes \<Rightarrow> string" where
  "hex_EncodeToString bs = concat (map hex_of_byte bs)"

definition string_bytes :: "string \<Rightarrow> bytes" where
  "string_bytes s = map (\<lambda>c. of_nat (of_char c)) s"

text \<open>
  One character of the loop of \<^verbatim>\<open>Address.Hex\<close>: a letter becomes upper case when its
  nibble of the hash is above 7.
\<close>

definition checksum_char :: "bytes \<Rightarrow> nat \<Rightarrow> char \<Rightarrow> char" where
  "checksum_char hsh i c =
     (let b = hsh ! (i div 2);
          hashByte = (if i mod 2 = 0 then drop_bit 4 b else b AND 15)
      in if (of_char c :: nat) > of_char (CHR ''9'') \<and> hashByte > 7
         then char_of ((of_char c :: nat) - 32) else c)"

definition Address_Hex :: "keccak \<Rightarrow> address \<Rightarrow> string" where
  "Address_Hex kec a =
     (let unchecksummed = hex_EncodeToString (Address_Bytes a);
          hsh = Hash_Bytes (kec (string_bytes unchecksummed))
      in ''0x'' @ map (\<lambda>i. checksum_char hsh i (unchecksummed ! i)) [0..<length unchecksummed])"

definition Address_String :: "keccak \<Rightarrow> address \<Rightarrow> string" where
  "Address_String kec a = Address_Hex kec a"

section \<open>The rendering is injective\<close>

lemma nibble_bounds: "unat (drop_bit 4 (b :: byte)) < 16" "unat (b AND 15) < 16"
proof -
  have "unat (drop_bit 4 b) = unat b div 16"
    unfolding unat_drop_bit_eq by (simp add: drop_bit_eq_div)
  also have "\<dots> < 16"
    using unsigned_less [of b, where ?'a = nat] by simp
  finally show "unat (drop_bit 4 b) < 16" .
next
  have "unat (b AND 15) \<le> unat (15 :: byte)"
    by (rule word_and_le1 [THEN word_le_nat_alt [THEN iffD1]])
  then show "unat (b AND 15) < 16"
    by simp
qed

lemma byte_of_nibbles:
  fixes b c :: byte
  assumes "drop_bit 4 b = drop_bit 4 c" and "b AND 15 = c AND 15"
  shows "b = c"
proof (rule bit_word_eqI)
  fix k
  assume k: "k < LENGTH(8)"
  have m: "(15 :: byte) = mask 4"
    by (simp add: mask_eq_exp_minus_1)
  show "bit b k = bit c k"
  proof (cases "k < 4")
    case True
    have "bit (b AND mask 4) k = bit (c AND mask 4) k"
      using assms(2) m by simp
    with True show ?thesis
      by (simp add: bit_and_iff bit_mask_iff k)
  next
    case False
    have "bit (drop_bit 4 b) (k - 4) = bit (drop_bit 4 c) (k - 4)"
      using assms(1) by simp
    with False show ?thesis
      by (simp add: bit_drop_bit_eq)
  qed
qed

definition lower_char :: "char \<Rightarrow> char" where
  "lower_char c =
     (if 65 \<le> (of_char c :: nat) \<and> (of_char c :: nat) \<le> 90
      then char_of ((of_char c :: nat) + 32) else c)"

lemma hex_digit_inject: "m < 16 \<Longrightarrow> n < 16 \<Longrightarrow> hex_digit m = hex_digit n \<Longrightarrow> m = n"
  unfolding hex_digit_def by (subst (asm) nth_eq_iff_index_eq) simp_all

lemma lower_checksum_digit:
  "lower_char (checksum_char hsh i c) = c"
  if "lower_char c = c" "(of_char c :: nat) > of_char (CHR ''9'') \<Longrightarrow>
      lower_char (char_of ((of_char c :: nat) - 32)) = c"
  using that by (simp add: checksum_char_def Let_def)

lemma lower_hex_digits:
  "list_all (\<lambda>c. lower_char c = c \<and> ((of_char c :: nat) > of_char (CHR ''9'') \<longrightarrow>
     lower_char (char_of ((of_char c :: nat) - 32)) = c)) ''0123456789abcdef''"
  by (simp add: lower_char_def char_of_def bit_iff_odd)

lemma lower_checksum_char:
  assumes "n < 16"
  shows "lower_char (checksum_char hsh i (hex_digit n)) = hex_digit n"
proof (rule lower_checksum_digit)
  have "hex_digit n \<in> set ''0123456789abcdef''"
    unfolding hex_digit_def using assms by (intro nth_mem) simp
  with lower_hex_digits show "lower_char (hex_digit n) = hex_digit n"
    and "(of_char (hex_digit n) :: nat) > of_char (CHR ''9'') \<Longrightarrow>
      lower_char (char_of ((of_char (hex_digit n) :: nat) - 32)) = hex_digit n"
    by (simp_all only: list_all_iff)
qed

lemma hex_of_byte_inject:
  assumes eq: "hex_of_byte b = hex_of_byte c"
  shows "b = c"
proof -
  have hi: "hex_digit (unat (drop_bit 4 b)) = hex_digit (unat (drop_bit 4 c))"
    and lo: "hex_digit (unat (b AND 15)) = hex_digit (unat (c AND 15))"
    using eq unfolding hex_of_byte_def by blast+
  have "drop_bit 4 b = drop_bit 4 c"
    using hex_digit_inject [OF nibble_bounds(1) nibble_bounds(1) hi] by (simp only: word_unat_eq_iff)
  moreover have "b AND 15 = c AND 15"
    using hex_digit_inject [OF nibble_bounds(2) nibble_bounds(2) lo] by (simp only: word_unat_eq_iff)
  ultimately show ?thesis
    by (rule byte_of_nibbles)
qed

lemma length_hex_EncodeToString [simp]: "length (hex_EncodeToString bs) = 2 * length bs"
  by (induction bs) (simp_all add: hex_EncodeToString_def hex_of_byte_def)

lemma hex_EncodeToString_inject:
  "hex_EncodeToString xs = hex_EncodeToString ys \<Longrightarrow> xs = ys"
proof (induction xs arbitrary: ys)
  case Nil
  then show ?case
    by (cases ys) (auto simp: hex_EncodeToString_def hex_of_byte_def)
next
  case (Cons x xs)
  then obtain y zs where ys: "ys = y # zs"
    by (cases ys) (auto simp: hex_EncodeToString_def hex_of_byte_def)
  with Cons.prems have "hex_of_byte x = hex_of_byte y" "hex_EncodeToString xs = hex_EncodeToString zs"
    by (auto simp: hex_EncodeToString_def hex_of_byte_def)
  then show ?case
    using Cons.IH hex_of_byte_inject ys by auto
qed

lemma set_hex_of_byte: "c \<in> set (hex_of_byte b) \<Longrightarrow> \<exists>n < 16. c = hex_digit n"
  unfolding hex_of_byte_def using nibble_bounds [of b] by auto

lemma set_hex_EncodeToString: "c \<in> set (hex_EncodeToString bs) \<Longrightarrow> \<exists>n < 16. c = hex_digit n"
  unfolding hex_EncodeToString_def by (auto dest: set_hex_of_byte)

lemma lower_checksum_string:
  assumes "\<And>c. c \<in> set u \<Longrightarrow> \<exists>n < 16. c = hex_digit n"
  shows "map lower_char (map (\<lambda>i. checksum_char hsh i (u ! i)) [0..<length u]) = u"
proof (rule nth_equalityI)
  fix i
  assume "i < length (map lower_char (map (\<lambda>i. checksum_char hsh i (u ! i)) [0..<length u]))"
  then have i: "i < length u"
    by simp
  then obtain n where "n < 16" "u ! i = hex_digit n"
    using assms nth_mem by blast
  with i show "map lower_char (map (\<lambda>i. checksum_char hsh i (u ! i)) [0..<length u]) ! i = u ! i"
    by (simp add: lower_checksum_char)
qed simp

lemma lower_Address_Hex:
  "map lower_char (Address_Hex kec a) = ''0x'' @ hex_EncodeToString (Address_Bytes a)"
proof -
  have "map lower_char ''0x'' = ''0x''"
    by (simp add: lower_char_def)
  then show ?thesis
    unfolding Address_Hex_def Let_def map_append
    by (simp only: lower_checksum_string [OF set_hex_EncodeToString])
qed

lemma Address_String_inject [simp]: "Address_String kec a = Address_String kec b \<longleftrightarrow> a = b"
proof
  assume "Address_String kec a = Address_String kec b"
  then have "map lower_char (Address_Hex kec a) = map lower_char (Address_Hex kec b)"
    by (simp add: Address_String_def)
  then have "hex_EncodeToString (Address_Bytes a) = hex_EncodeToString (Address_Bytes b)"
    by (simp add: lower_Address_Hex)
  then show "a = b"
    using hex_EncodeToString_inject Address_Bytes_inject by blast
qed simp

lemma inj_Address_String: "inj (Address_String kec)"
  by (rule injI) simp

end
