(* ===== verification/RLP_Codec.thy ===== *)
theory RLP_Codec
  imports RLP_Decode Common_Types
begin

text \<open>
  What the users of the RLP package share: the decoder stores the fields of a list into a
  Go structure, so the selectors below read a field of a decoded value.  The codec lemma says
  that a value whose encoder writes the bytes of a well-typed value decodes to that value,
  which covers the types whose \<^verbatim>\<open>EncodeRLP\<close> writes an \<^verbatim>\<open>[]interface{}\<close> and whose
  \<^verbatim>\<open>DecodeRLP\<close> reads a structure.
\<close>

fun rv_fields :: "rval \<Rightarrow> rval list" where
  "rv_fields (VStruct vs) = vs"
| "rv_fields (VEncoder v) = rv_fields v"
| "rv_fields (VPtr v) = rv_fields v"
| "rv_fields _ = []"

fun rv_elems :: "rval \<Rightarrow> rval list" where
  "rv_elems (VSlice tail vs) = vs"
| "rv_elems _ = []"

fun rv_word :: "rval \<Rightarrow> 'a::len word" where
  "rv_word (VByteArray b) = word_of_bytes b"
| "rv_word _ = 0"

fun rv_bytes :: "rval \<Rightarrow> bytes" where
  "rv_bytes (VBytes b) = b"
| "rv_bytes _ = []"

fun rv_uint :: "rval \<Rightarrow> u64" where
  "rv_uint (VUint u) = u"
| "rv_uint _ = 0"

fun rv_bigint :: "rval \<Rightarrow> int option" where
  "rv_bigint (VBigIntPtr p) = p"
| "rv_bigint _ = None"

fun rv_ptr :: "rval \<Rightarrow> rval option" where
  "rv_ptr (VPtr v) = Some v"
| "rv_ptr _ = None"

abbreviation rv_hash :: "hash \<Rightarrow> rval" where
  "rv_hash h \<equiv> VByteArray (Hash_Bytes h)"

abbreviation rv_address :: "address \<Rightarrow> rval" where
  "rv_address a \<equiv> VByteArray (Address_Bytes a)"

abbreviation rv_any :: "rval \<Rightarrow> rval" where
  "rv_any v \<equiv> VInterface (Some v)"

lemma word_of_bytes_arrays [simp]:
  "word_of_bytes (Hash_Bytes h) = h" "word_of_bytes (Address_Bytes a) = a"
  by (simp_all add: Hash_Bytes_def HashLength_def Address_Bytes_def AddressLength_def word_of_be_bytes)

declare word_of_be_bytes [simp]

lemma has_type_u64 [simp]: "has_type (TUint 64) (VUint u)"
  using unsigned_less [of u, where ?'a = nat] by (simp add: has_type_iff)

lemma has_type_array [simp]:
  "n \<noteq> 1 \<Longrightarrow> has_type (TByteArray n) (VByteArray (be_bytes n w))"
  "has_type (TByteArray 32) (rv_hash h)"
  "has_type (TByteArray 20) (rv_address a)"
  by (auto simp: has_type_iff dest: arg_cong [where f = length])

lemma codec:
  assumes "has_type ty v" and "rlp_spec w = rlp_spec v" and "rlp_encodable w"
    and "length (rlp_spec v) < 2 ^ 64"
  shows "EncodeToBytes w = Some (Inr (rlp_spec v))" and "DecodeBytes ty (rlp_spec v) = Some (Inr v)"
  using assms EncodeToBytes_spec(1) [of w] DecodeBytes_spec [of ty v "[]"] by simp_all

end
