(* ===== verification/Transaction.thy ===== *)
theory Transaction
  imports RLP_Codec
begin

text \<open>
  \<^verbatim>\<open>core/types/transaction.go\<close> and \<^verbatim>\<open>transaction_signing.go\<close>: transactions, their RLP form
  and the signers.  A \<^verbatim>\<open>*Transaction\<close> is its \<^verbatim>\<open>txdata\<close>; the hash, size and sender caches
  only memoise functions of it.  Keccak-256 (\<open>kec\<close>), the signing key (\<open>sign\<close>) and the
  public key recovery of the curve library (\<open>ecrecover\<close>) are arguments.  A nil
  \<^verbatim>\<open>[]byte\<close> payload is \<open>None\<close>, which \<^verbatim>\<open>Validate\<close> tells from the empty slice.
\<close>

type_synonym TxType = "8 word"
type_synonym UUID = "128 word"

definition Binary :: TxType where "Binary = 0"
definition LoginCandidate :: TxType where "LoginCandidate = 1"
definition LogoutCandidate :: TxType where "LogoutCandidate = 2"
definition WithdrawCandidate :: TxType where "WithdrawCandidate = 3"
definition Delegate :: TxType where "Delegate = 4"
definition UnDelegate :: TxType where "UnDelegate = 5"

lemmas TxType_defs =
  Binary_def LoginCandidate_def LogoutCandidate_def WithdrawCandidate_def Delegate_def UnDelegate_def

datatype tx_error =
    ErrInvalidSig | ErrInvalidChainId | errInvalidPublicKey | errValueNotZero | errRecipientRequired
  | errPayloadNotEmpty | errCrypto string

record txdata =
  tx_Type :: TxType
  tx_AccountNonce :: u64
  tx_Price :: int
  tx_GasLimit :: u64
  tx_Recipient :: "address option"
  tx_Amount :: int
  tx_SubId :: "UUID option"
  tx_Payload :: "bytes option"
  tx_V :: int
  tx_R :: int
  tx_S :: int

definition newTransaction ::
  "TxType \<Rightarrow> u64 \<Rightarrow> address option \<Rightarrow> int option \<Rightarrow> u64 \<Rightarrow> int option \<Rightarrow> UUID option \<Rightarrow> bytes option \<Rightarrow> txdata"
where
  "newTransaction txType nonce recipient amount gasLimit gasPrice subId dat =
     \<lparr>tx_Type = txType, tx_AccountNonce = nonce,
      tx_Price = (case gasPrice of Some p \<Rightarrow> p | None \<Rightarrow> 0), tx_GasLimit = gasLimit,
      tx_Recipient = recipient, tx_Amount = (case amount of Some a \<Rightarrow> a | None \<Rightarrow> 0),
      tx_SubId = subId, tx_Payload = dat, tx_V = 0, tx_R = 0, tx_S = 0\<rparr>"

definition NewTransactionLet ::
  "TxType \<Rightarrow> u64 \<Rightarrow> address \<Rightarrow> int option \<Rightarrow> u64 \<Rightarrow> int option \<Rightarrow> UUID \<Rightarrow> bytes option \<Rightarrow> txdata"
where
  "NewTransactionLet txType nonce recipient amount gasLimit gasPrice uuid dat =
     (if txType \<noteq> Binary \<and> recipient = 0
      then newTransaction txType nonce None amount gasLimit gasPrice (Some uuid) dat
      else newTransaction txType nonce (Some recipient) amount gasLimit gasPrice (Some uuid) dat)"

definition NewTransaction ::
  "TxType \<Rightarrow> u64 \<Rightarrow> address \<Rightarrow> int option \<Rightarrow> u64 \<Rightarrow> int option \<Rightarrow> bytes option \<Rightarrow> txdata"
where
  "NewTransaction txType nonce recipient amount gasLimit gasPrice dat =
     (if txType \<noteq> Binary \<and> recipient = 0
      then newTransaction txType nonce None amount gasLimit gasPrice (Some 0) dat
      else newTransaction txType nonce (Some recipient) amount gasLimit gasPrice (Some 0) dat)"

definition NewContractCreation ::
  "u64 \<Rightarrow> int option \<Rightarrow> u64 \<Rightarrow> int option \<Rightarrow> bytes option \<Rightarrow> txdata" where
  "NewContractCreation nonce amount gasLimit gasPrice dat =
     newTransaction Binary nonce None amount gasLimit gasPrice (Some 0) dat"

definition tx_Validate :: "txdata \<Rightarrow> tx_error option" where
  "tx_Validate tx =
     (if tx_Type tx \<noteq> Binary then
        if big_Uint64 (tx_Amount tx) \<noteq> 0 then Some errValueNotZero
        else if tx_Recipient tx = None \<and> tx_Type tx \<noteq> LoginCandidate \<and> tx_Type tx \<noteq> LogoutCandidate \<and>
          tx_Type tx \<noteq> WithdrawCandidate then Some errRecipientRequired
        else if tx_Payload tx \<noteq> None then Some errPayloadNotEmpty
        else None
      else None)"

definition isProtectedV :: "int \<Rightarrow> bool" where
  "isProtectedV V =
     (if big_BitLen V \<le> 8 then let v = big_Uint64 V in v \<noteq> 27 \<and> v \<noteq> 28 else True)"

definition tx_Protected :: "txdata \<Rightarrow> bool" where
  "tx_Protected tx = isProtectedV (tx_V tx)"

definition deriveChainId :: "int \<Rightarrow> int" where
  "deriveChainId v =
     (if big_BitLen v \<le> 64 then
        let w = big_Uint64 v in if w = 27 \<or> w = 28 then 0 else uint ((w - 35) div 2)
      else (v - 35) div 2)"

definition tx_ChainId :: "txdata \<Rightarrow> int" where
  "tx_ChainId tx = deriveChainId (tx_V tx)"

definition tx_Cost :: "txdata \<Rightarrow> int" where
  "tx_Cost tx = tx_Price tx * uint (tx_GasLimit tx) + tx_Amount tx"

definition tx_get_SubId :: "txdata \<Rightarrow> UUID" where
  "tx_get_SubId tx = (case tx_SubId tx of None \<Rightarrow> 0 | Some i \<Rightarrow> i)"

definition tx_SetSubId :: "txdata \<Rightarrow> txdata" where
  "tx_SetSubId tx = (if tx_SubId tx = None then tx\<lparr>tx_SubId := Some 0\<rparr> else tx)"

section \<open>RLP form\<close>

definition rv_optaddr :: "address option \<Rightarrow> rval" where
  "rv_optaddr p = (case p of None \<Rightarrow> VNilByteArray | Some a \<Rightarrow> VPtr (rv_address a))"

definition rv_optuuid :: "UUID option \<Rightarrow> rval" where
  "rv_optuuid p = (case p of None \<Rightarrow> VNilByteArray | Some u \<Rightarrow> VPtr (VByteArray (be_bytes 16 u)))"

definition rv_slice :: "bytes option \<Rightarrow> rval" where
  "rv_slice p = VBytes (case p of None \<Rightarrow> [] | Some b \<Rightarrow> b)"

definition txdata_rval :: "txdata \<Rightarrow> rval" where
  "txdata_rval d = VStruct
     [VUint (ucast (tx_Type d)), VUint (tx_AccountNonce d), VBigIntPtr (Some (tx_Price d)),
      VUint (tx_GasLimit d), rv_optaddr (tx_Recipient d), VBigIntPtr (Some (tx_Amount d)),
      rv_optuuid (tx_SubId d), rv_slice (tx_Payload d),
      VBigIntPtr (Some (tx_V d)), VBigIntPtr (Some (tx_R d)), VBigIntPtr (Some (tx_S d))]"

definition tx_EncodeRLP :: "txdata \<Rightarrow> rval" where
  "tx_EncodeRLP tx = VEncoder (VPtr (txdata_rval tx))"

definition txdata_type :: rtype where
  "txdata_type = TStruct
     [TUint 8, TUint 64, TBigInt, TUint 64, TOptionalPtr (TByteArray 20) VNilByteArray, TBigInt,
      TOptionalPtr (TByteArray 16) VNilByteArray, TByteSlice, TBigInt, TBigInt, TBigInt]"

definition tx_type :: rtype where
  "tx_type = TDecoder txdata_type"

definition rv_int :: "rval \<Rightarrow> int" where
  "rv_int v = (case rv_bigint v of Some i \<Rightarrow> i | None \<Rightarrow> 0)"

text \<open>The transaction whose fields \<^verbatim>\<open>DecodeRLP\<close> has filled; the decoder allocates the payload.\<close>

definition tx_of_rval :: "rval \<Rightarrow> txdata" where
  "tx_of_rval v = (let f = rv_fields v in
     \<lparr>tx_Type = ucast (rv_uint (f ! 0)), tx_AccountNonce = rv_uint (f ! 1), tx_Price = rv_int (f ! 2),
      tx_GasLimit = rv_uint (f ! 3), tx_Recipient = map_option rv_word (rv_ptr (f ! 4)),
      tx_Amount = rv_int (f ! 5), tx_SubId = map_option rv_word (rv_ptr (f ! 6)),
      tx_Payload = Some (rv_bytes (f ! 7)), tx_V = rv_int (f ! 8), tx_R = rv_int (f ! 9),
      tx_S = rv_int (f ! 10)\<rparr>)"

definition DecodeTx :: "bytes \<Rightarrow> (rlp_error + txdata) option" where
  "DecodeTx b = map_option (map_sum id tx_of_rval) (DecodeBytes tx_type b)"

definition rlpHash :: "keccak \<Rightarrow> rval \<Rightarrow> hash" where
  "rlpHash kec x = kec (case Encode x of Inl err \<Rightarrow> [] | Inr chunks \<Rightarrow> concat chunks)"

definition tx_Hash :: "keccak \<Rightarrow> txdata \<Rightarrow> hash" where
  "tx_Hash kec tx = rlpHash kec (tx_EncodeRLP tx)"

definition tx_Size :: "txdata \<Rightarrow> nat" where
  "tx_Size tx =
     (case Encode (VPtr (txdata_rval tx)) of Inl err \<Rightarrow> 0 | Inr chunks \<Rightarrow> length (concat chunks))"

definition GetRlp :: "txdata list \<Rightarrow> nat \<Rightarrow> bytes option" where
  "GetRlp s i =
     (if i < length s
      then map_option (case_sum (\<lambda>err. []) id) (EncodeToBytes (tx_EncodeRLP (s ! i))) else None)"

definition TxDifference :: "keccak \<Rightarrow> txdata list \<Rightarrow> txdata list \<Rightarrow> txdata list" where
  "TxDifference kec a b =
     (let remove = set (map (tx_Hash kec) b) in filter (\<lambda>tx. tx_Hash kec tx \<notin> remove) a)"

section \<open>Signers\<close>

datatype Signer = EIP155Signer int int | HomesteadSigner | FrontierSigner

definition NewEIP155Signer :: "int option \<Rightarrow> Signer" where
  "NewEIP155Signer chainId =
     (let c = (case chainId of None \<Rightarrow> 0 | Some c \<Rightarrow> c) in EIP155Signer c (c * 2))"

fun Signer_Equal :: "Signer \<Rightarrow> Signer \<Rightarrow> bool" where
  "Signer_Equal (EIP155Signer c _) s2 = (case s2 of EIP155Signer c2 _ \<Rightarrow> c2 = c | _ \<Rightarrow> False)"
| "Signer_Equal HomesteadSigner s2 = (s2 = HomesteadSigner)"
| "Signer_Equal FrontierSigner s2 = (s2 = FrontierSigner)"

definition sighash_fields :: "txdata \<Rightarrow> rval list" where
  "sighash_fields tx =
     map rv_any [VUint (tx_AccountNonce tx), VBigIntPtr (Some (tx_Price tx)), VUint (tx_GasLimit tx),
       rv_optaddr (tx_Recipient tx), VBigIntPtr (Some (tx_Amount tx)), rv_optuuid (tx_SubId tx),
       rv_slice (tx_Payload tx)]"

fun Signer_Hash :: "keccak \<Rightarrow> Signer \<Rightarrow> txdata \<Rightarrow> hash" where
  "Signer_Hash kec (EIP155Signer chainId _) tx = rlpHash kec (VSlice False
     (sighash_fields tx @ map rv_any [VBigIntPtr (Some chainId), VUint 0, VUint 0]))"
| "Signer_Hash kec HomesteadSigner tx = rlpHash kec (VSlice False (sighash_fields tx))"
| "Signer_Hash kec FrontierSigner tx = rlpHash kec (VSlice False (sighash_fields tx))"

definition secp256k1_N :: int where
  "secp256k1_N = 0xfffffffffffffffffffffffffffffffebaaedce6af48a03bbfd25e8cd0364141"

definition secp256k1_halfN :: int where
  "secp256k1_halfN = secp256k1_N div 2"

definition ValidateSignatureValues :: "byte \<Rightarrow> int \<Rightarrow> int \<Rightarrow> bool \<Rightarrow> bool" where
  "ValidateSignatureValues v r s homestead =
     (if r < 1 \<or> s < 1 then False
      else if homestead \<and> s > secp256k1_halfN then False
      else r < secp256k1_N \<and> s < secp256k1_N \<and> (v = 0 \<or> v = 1))"

type_synonym ecrecover = "bytes \<Rightarrow> bytes \<Rightarrow> string + bytes"

definition recoverPlain ::
  "keccak \<Rightarrow> ecrecover \<Rightarrow> hash \<Rightarrow> int \<Rightarrow> int \<Rightarrow> int \<Rightarrow> bool \<Rightarrow> tx_error + address" where
  "recoverPlain kec rcv sighash R S Vb homestead =
     (if big_BitLen Vb > 8 then Inl ErrInvalidSig
      else let V = ucast (big_Uint64 Vb - 27) in
        if \<not> ValidateSignatureValues V R S homestead then Inl ErrInvalidSig
        else let sig = pad_left 32 (nat_be (nat R)) @ pad_left 32 (nat_be (nat S)) @ [V] in
          case rcv (Hash_Bytes sighash) sig of
            Inl err \<Rightarrow> Inl (errCrypto err)
          | Inr pub \<Rightarrow>
              if pub = [] \<or> pub ! 0 \<noteq> 4 then Inl errInvalidPublicKey
              else Inr (word_of_bytes (drop 12 (Hash_Bytes (kec (drop 1 pub))))))"

fun Signer_Sender :: "keccak \<Rightarrow> ecrecover \<Rightarrow> Signer \<Rightarrow> txdata \<Rightarrow> tx_error + address" where
  "Signer_Sender kec rcv (EIP155Signer chainId chainIdMul) tx =
     (if \<not> tx_Protected tx
      then recoverPlain kec rcv (Signer_Hash kec HomesteadSigner tx) (tx_R tx) (tx_S tx) (tx_V tx) True
      else if tx_ChainId tx \<noteq> chainId then Inl ErrInvalidChainId
      else recoverPlain kec rcv (Signer_Hash kec (EIP155Signer chainId chainIdMul) tx)
        (tx_R tx) (tx_S tx) (tx_V tx - chainIdMul - 8) True)"
| "Signer_Sender kec rcv HomesteadSigner tx =
     recoverPlain kec rcv (Signer_Hash kec HomesteadSigner tx) (tx_R tx) (tx_S tx) (tx_V tx) True"
| "Signer_Sender kec rcv FrontierSigner tx =
     recoverPlain kec rcv (Signer_Hash kec FrontierSigner tx) (tx_R tx) (tx_S tx) (tx_V tx) False"

definition Sender :: "keccak \<Rightarrow> ecrecover \<Rightarrow> Signer \<Rightarrow> txdata \<Rightarrow> tx_error + address" where
  "Sender kec rcv signer tx = Signer_Sender kec rcv signer tx"

text \<open>The signature values of a slice that is not 65 bytes long are a panic.\<close>

definition frontier_SignatureValues :: "bytes \<Rightarrow> (int \<times> int \<times> int) option" where
  "frontier_SignatureValues sig =
     (if length sig \<noteq> 65 then None
      else Some (int (be_nat (take 32 sig)), int (be_nat (take 32 (drop 32 sig))),
        int (be_nat [sig ! 64 + 27])))"

fun SignatureValues :: "Signer \<Rightarrow> bytes \<Rightarrow> (int \<times> int \<times> int) option" where
  "SignatureValues (EIP155Signer chainId chainIdMul) sig =
     map_option (\<lambda>(R, S, V). if chainId \<noteq> 0 then (R, S, uint (sig ! 64 + 35) + chainIdMul) else (R, S, V))
       (frontier_SignatureValues sig)"
| "SignatureValues HomesteadSigner sig = frontier_SignatureValues sig"
| "SignatureValues FrontierSigner sig = frontier_SignatureValues sig"

definition WithSignature :: "Signer \<Rightarrow> bytes \<Rightarrow> txdata \<Rightarrow> txdata option" where
  "WithSignature signer sig tx =
     map_option (\<lambda>(r, s, v). tx\<lparr>tx_R := r, tx_S := s, tx_V := v\<rparr>) (SignatureValues signer sig)"

definition SignTx ::
  "keccak \<Rightarrow> (bytes \<Rightarrow> string + bytes) \<Rightarrow> txdata \<Rightarrow> Signer \<Rightarrow> (tx_error + txdata) option" where
  "SignTx kec sign tx s =
     (case sign (Hash_Bytes (Signer_Hash kec s tx)) of
        Inl err \<Rightarrow> Some (Inl (errCrypto err))
      | Inr sig \<Rightarrow> map_option Inr (WithSignature s sig tx))"

definition deriveSigner :: "int \<Rightarrow> Signer" where
  "deriveSigner V =
     (if V \<noteq> 0 \<and> isProtectedV V then NewEIP155Signer (Some (deriveChainId V)) else HomesteadSigner)"

record Message =
  m_to :: "address option"
  m_from :: address
  m_nonce :: u64
  m_amount :: int
  m_gasLimit :: u64
  m_gasPrice :: int
  m_data :: "bytes option"
  m_checkNonce :: bool
  m_txType :: TxType

text \<open>\<^verbatim>\<open>AsMessage\<close> returns the message and the error of \<^verbatim>\<open>Sender\<close>, with a zero sender then.\<close>

definition AsMessage :: "keccak \<Rightarrow> ecrecover \<Rightarrow> Signer \<Rightarrow> txdata \<Rightarrow> Message \<times> tx_error option" where
  "AsMessage kec rcv s tx =
     (let msg = \<lparr>m_to = tx_Recipient tx, m_from = 0, m_nonce = tx_AccountNonce tx, m_amount = tx_Amount tx,
            m_gasLimit = tx_GasLimit tx, m_gasPrice = tx_Price tx, m_data = tx_Payload tx,
            m_checkNonce = True, m_txType = tx_Type tx\<rparr>
      in case Sender kec rcv s tx of
           Inl err \<Rightarrow> (msg\<lparr>m_from := 0\<rparr>, Some err)
         | Inr a \<Rightarrow> (msg\<lparr>m_from := a\<rparr>, None))"

section \<open>RLP round trip\<close>

lemma be_bytes_not_small:
  "length b = 20 \<or> length b = 16 \<Longrightarrow> rlp_string b \<noteq> [0x80] \<and> rlp_string b \<noteq> [0xC0]"
  using length_rlp_string [of b] by auto

lemma has_type_optaddr [simp]:
  "has_type (TOptionalPtr (TByteArray 20) VNilByteArray) (rv_optaddr p)"
  by (cases p) (auto simp: rv_optaddr_def has_type_iff be_bytes_not_small dest: arg_cong [where f = length])

lemma has_type_optuuid [simp]:
  "has_type (TOptionalPtr (TByteArray 16) VNilByteArray) (rv_optuuid p)"
  by (cases p) (auto simp: rv_optuuid_def has_type_iff be_bytes_not_small dest: arg_cong [where f = length])

lemma rv_optaddr_inverse [simp]: "map_option rv_word (rv_ptr (rv_optaddr p)) = p"
  by (cases p) (simp_all add: rv_optaddr_def)

lemma rv_optuuid_inverse [simp]: "map_option rv_word (rv_ptr (rv_optuuid p)) = p"
  by (cases p) (simp_all add: rv_optuuid_def)

lemma rlp_encodable_opt [simp]: "rlp_encodable (rv_optaddr p)" "rlp_encodable (rv_optuuid q)" "rlp_encodable (rv_slice r)"
  by (simp_all add: rv_optaddr_def rv_optuuid_def rv_slice_def split: option.splits)

definition tx_nonneg :: "txdata \<Rightarrow> bool" where
  "tx_nonneg tx \<longleftrightarrow> 0 \<le> tx_Price tx \<and> 0 \<le> tx_Amount tx \<and> 0 \<le> tx_V tx \<and> 0 \<le> tx_R tx \<and> 0 \<le> tx_S tx"

definition tx_decoded :: "txdata \<Rightarrow> txdata" where
  "tx_decoded tx = tx\<lparr>tx_Payload := Some (rv_bytes (rv_slice (tx_Payload tx)))\<rparr>"

lemma has_type_tx: "tx_nonneg tx \<Longrightarrow> has_type tx_type (VEncoder (txdata_rval tx))"
  using unsigned_less [of "tx_Type tx", where ?'a = nat]
  by (simp add: tx_type_def txdata_type_def txdata_rval_def has_type_iff(2,13) tx_nonneg_def)
    (simp add: has_type_iff(3,5,8) rv_slice_def unsigned_ucast_eq take_bit_nat_eq_self unsigned_less [where ?'b = 64 and ?'a = nat, simplified])

lemma tx_of_rval_txdata [simp]: "tx_of_rval (VEncoder (txdata_rval tx)) = tx_decoded tx"
proof -
  have "ucast (ucast (tx_Type tx) :: u64) = tx_Type tx"
    by (rule bit_word_eqI) (simp add: bit_simps)
  then show ?thesis
    by (simp add: tx_of_rval_def txdata_rval_def tx_decoded_def rv_int_def)
qed

lemma rlp_spec_tx [simp]: "rlp_spec (tx_EncodeRLP tx) = rlp_spec (txdata_rval tx)"
  by (simp add: tx_EncodeRLP_def)

lemma tx_encodable: "rlp_encodable (tx_EncodeRLP tx) \<longleftrightarrow> tx_nonneg tx"
  by (simp add: tx_EncodeRLP_def txdata_rval_def tx_nonneg_def)


lemma DecodeTx_spec:
  assumes "tx_nonneg tx" and "length (rlp_spec (txdata_rval tx)) < 2 ^ 64"
  shows "EncodeToBytes (tx_EncodeRLP tx) = Some (Inr (rlp_spec (txdata_rval tx)))"
    and "DecodeTx (rlp_spec (txdata_rval tx)) = Some (Inr (tx_decoded tx))"
  using codec [OF has_type_tx [OF assms(1)], of "tx_EncodeRLP tx"] assms
  by (simp_all add: DecodeTx_def tx_encodable)

lemma tx_decoded_EncodeRLP [simp]: "tx_EncodeRLP (tx_decoded tx) = tx_EncodeRLP tx"
  by (simp add: tx_EncodeRLP_def txdata_rval_def tx_decoded_def rv_slice_def)

definition sample_tx :: txdata where
  "sample_tx = newTransaction Delegate 7 (Some 0x1234) None 21 (Some 5) (Some 0) None"

lemma sample_tx_ok: "tx_nonneg sample_tx" "length (rlp_spec (txdata_rval sample_tx)) < 2 ^ 64"
proof -
  show "tx_nonneg sample_tx"
    by code_simp
  have "length (rlp_spec (txdata_rval sample_tx)) < 100"
    by code_simp
  then show "length (rlp_spec (txdata_rval sample_tx)) < 2 ^ 64"
    by simp
qed

text \<open>
  C16: a transaction survives the wire.  Decoding the encoding of a transaction with non-negative
  amounts gives the same transaction, with a nil payload read back as an empty one, and the same hash.
\<close>

theorem tx_roundtrip:
  assumes "tx_nonneg tx" and "length (rlp_spec (txdata_rval tx)) < 2 ^ 64"
  shows "\<exists>b. EncodeToBytes (tx_EncodeRLP tx) = Some (Inr b) \<and> DecodeTx b = Some (Inr (tx_decoded tx)) \<and>
    tx_Hash kec (tx_decoded tx) = tx_Hash kec tx"
  using DecodeTx_spec [OF assms] by (simp add: tx_Hash_def)

theorem tx_roundtrip_witness:
  "\<exists>b. EncodeToBytes (tx_EncodeRLP sample_tx) = Some (Inr b) \<and> DecodeTx b = Some (Inr (tx_decoded sample_tx)) \<and>
     tx_Hash (\<lambda>b. of_nat (length b)) (tx_decoded sample_tx) = tx_Hash (\<lambda>b. of_nat (length b)) sample_tx"
  by (rule tx_roundtrip [OF sample_tx_ok])

text \<open>
  C14: the type of a transaction is not signed.  The hash that every signer signs leaves the type out, so
  changing the type of a signed transaction (say from \<^verbatim>\<open>Binary\<close> to \<^verbatim>\<open>Delegate\<close>) leaves its recovered
  sender and its signature valid.
\<close>

theorem sender_ignores_type:
  "Sender kec rcv signer (tx\<lparr>tx_Type := t\<rparr>) = Sender kec rcv signer tx"
  by (cases signer) (simp_all add: Sender_def tx_Protected_def tx_ChainId_def sighash_fields_def)


section \<open>Signing\<close>

lemma byte_plus_small:
  "(v :: byte) = 0 \<or> v = 1 \<Longrightarrow> unat (v + 27) = 27 + unat v \<and> uint (v + 35) = 35 + uint v"
  by auto

lemma isProtectedV_iff: "isProtectedV V \<longleftrightarrow> \<bar>V\<bar> \<noteq> 27 \<and> \<bar>V\<bar> \<noteq> 28"
proof (cases "\<bar>V\<bar> < 256")
  case True
  then have "uint (big_Uint64 V) = \<bar>V\<bar>"
    by (simp add: big_Uint64_def take_bit_int_eq_self unsigned_of_int)
  then show ?thesis
    using True by (simp add: isProtectedV_def big_BitLen_le word_uint_eq_iff)
qed (auto simp: isProtectedV_def big_BitLen_le)

lemma deriveChainId_protected:
  assumes "0 < c" and "k = 0 \<or> k = 1"
  shows "deriveChainId (35 + k + c * 2) = c"
proof (cases "35 + k + c * 2 < 2 ^ 64")
  case True
  let ?v = "35 + k + c * 2"
  have u: "uint (big_Uint64 ?v) = ?v"
    using True assms by (intro uint_big_Uint64) auto
  then have "uint (big_Uint64 ?v - 35) = k + c * 2"
    using assms uint_sub_lem [of 35 "big_Uint64 ?v"] by auto
  then have "uint ((big_Uint64 ?v - 35) div 2) = c"
    using assms by (auto simp: uint_div_distrib)
  moreover have "big_Uint64 ?v \<noteq> 27" "big_Uint64 ?v \<noteq> 28"
    using u assms by (auto simp: word_uint_eq_iff)
  ultimately show ?thesis
    using True assms by (auto simp: deriveChainId_def big_BitLen_le Let_def)
next
  case False
  then show ?thesis
    using assms by (auto simp: deriveChainId_def big_BitLen_le)
qed


text \<open>
  C13: signing and recovering agree, and a signature is bound to its chain.  When the key signs the hash
  of the EIP-155 signer of chain \<open>c\<close>, the signed transaction has the address of the recovered public key
  as sender, and every other chain rejects it.
\<close>

theorem SignTx_Sender:
  assumes "0 < c" and "signer = NewEIP155Signer (Some c)"
    and "hsh = Hash_Bytes (Signer_Hash kec signer tx)" and "sign hsh = Inr sig" and "length sig = 65"
    and "ValidateSignatureValues (sig ! 64) (int (be_nat (take 32 sig))) (int (be_nat (take 32 (drop 32 sig)))) True"
    and "rcv hsh sig = Inr (4 # pub)"
  shows "\<exists>tx'. SignTx kec sign tx signer = Some (Inr tx') \<and>
    Sender kec rcv signer tx' = Inr (word_of_bytes (drop 12 (Hash_Bytes (kec pub)))) \<and>
    (\<forall>c'. c' \<noteq> c \<longrightarrow> Sender kec rcv (NewEIP155Signer (Some c')) tx' = Inl ErrInvalidChainId)"
proof -
  let ?R = "take 32 sig" and ?S = "take 32 (drop 32 sig)" and ?v = "sig ! 64"
  let ?V = "35 + uint ?v + c * 2"
  define tx' where "tx' = tx\<lparr>tx_R := int (be_nat ?R), tx_S := int (be_nat ?S), tx_V := ?V\<rparr>"
  have v: "?v = 0 \<or> ?v = 1"
    using assms(6) by (simp add: ValidateSignatureValues_def split: if_splits)
  then have k: "uint ?v = 0 \<or> uint ?v = 1"
    by auto
  have "SignTx kec sign tx signer = Some (Inr tx')"
    using assms(1-5) byte_plus_small [OF v]
    by (simp add: SignTx_def WithSignature_def frontier_SignatureValues_def NewEIP155Signer_def tx'_def)
  moreover have fields: "tx_Protected tx'" "tx_ChainId tx' = c"
    using deriveChainId_protected [OF assms(1) k] assms(1) k
    by (auto simp: tx'_def tx_Protected_def tx_ChainId_def isProtectedV_iff)
  have V: "ucast (big_Uint64 (?V - c * 2 - 8) - 27) = ?v" "\<not> 8 < big_BitLen (?V - c * 2 - 8)"
    using v by (auto simp: big_Uint64_def not_less big_BitLen_le)
  have "sig = ?R @ ?S @ [?v]"
    using assms(5) take_Suc_conv_app_nth [of 64 sig] take_add [of 32 32 sig] by simp
  then have sig: "pad_left 32 (nat_be (be_nat ?R)) @ pad_left 32 (nat_be (be_nat ?S)) @ [?v] = sig"
    using pad_nat_be_be_nat [of ?R] pad_nat_be_be_nat [of ?S] assms(5) by (simp add: min_def)
  have "Signer_Hash kec signer tx' = Signer_Hash kec signer tx"
    using assms(2) by (simp add: NewEIP155Signer_def sighash_fields_def tx'_def)
  then have "Sender kec rcv signer tx' = Inr (word_of_bytes (drop 12 (Hash_Bytes (kec pub))))"
    using assms(2,3,6,7) fields V sig
    by (simp add: Sender_def NewEIP155Signer_def recoverPlain_def tx'_def)
  ultimately show ?thesis
    using fields by (auto simp: Sender_def NewEIP155Signer_def)
qed


text \<open>A key and a curve for the witness: every hash is signed with \<open>r = s = 1\<close>.\<close>

definition toy_sig :: bytes where
  "toy_sig = replicate 31 0 @ [1] @ replicate 31 0 @ [1, 1]"

lemma be_nat_zeros: "be_nat (replicate n 0 @ bs) = be_nat bs"
  by (induction n) (simp_all add: be_nat_def)

lemma toy_sig_valid:
  "ValidateSignatureValues (toy_sig ! 64) (int (be_nat (take 32 toy_sig))) (int (be_nat (take 32 (drop 32 toy_sig)))) True"
proof -
  have "be_nat (replicate 31 0 @ [1]) = 1"
    unfolding be_nat_zeros by (simp add: be_nat_def)
  then show ?thesis
    by (simp add: ValidateSignatureValues_def toy_sig_def nth_append secp256k1_halfN_def secp256k1_N_def)
qed

theorem SignTx_Sender_witness:
  "\<exists>tx'. SignTx (\<lambda>b. of_nat (length b)) (\<lambda>h. Inr toy_sig) sample_tx (NewEIP155Signer (Some 7)) = Some (Inr tx') \<and>
     Sender (\<lambda>b. of_nat (length b)) (\<lambda>h s. Inr [4, 9, 9]) (NewEIP155Signer (Some 7)) tx' =
       Inr (word_of_bytes (drop 12 (Hash_Bytes (of_nat (length [9, 9 :: byte]))))) \<and>
     (\<forall>c'. c' \<noteq> 7 \<longrightarrow> Sender (\<lambda>b. of_nat (length b)) (\<lambda>h s. Inr [4, 9, 9])
        (NewEIP155Signer (Some c')) tx' = Inl ErrInvalidChainId)"
  by (rule SignTx_Sender [OF _ refl refl _ _ toy_sig_valid]) (simp_all add: toy_sig_def)


end
