(* ===== verification/Block_Types.thy ===== *)
theory Block_Types
  imports Transaction
begin

text \<open>
  \<^verbatim>\<open>core/types/block.go\<close> and \<^verbatim>\<open>istanbul.go\<close>: block headers, blocks, and the consensus data in the
  extra field of a header.  The \<^verbatim>\<open>*big.Int\<close> and \<^verbatim>\<open>*DposContextProto\<close> fields of a header are
  options, since \<^verbatim>\<open>CopyHeader\<close> treats nil pointers.  The hash and size caches of a block memoise
  functions of its contents.  A result of \<open>None\<close> is a panic or a decoder that does not return.
\<close>

record DposContextProto =
  EpochHash :: hash
  DelegateHash :: hash
  CandidateHash :: hash
  VoteHash :: hash
  MintCntHash :: hash

record Header =
  ParentHash :: hash
  UncleHash :: hash
  Signature :: "520 word"
  Coinbase :: address
  Root :: hash
  TxHash :: hash
  ReceiptHash :: hash
  DposContext :: "DposContextProto option"
  Bloom :: "2048 word"
  Difficulty :: "int option"
  Number :: "int option"
  GasLimit :: u64
  GasUsed :: u64
  Time :: "int option"
  Extra :: bytes
  MixDigest :: hash
  Nonce :: u64

record Block =
  bl_header :: Header
  bl_uncles :: "Header list"
  bl_transactions :: "txdata list"

definition EncodeNonce :: "u64 \<Rightarrow> bytes" where
  "EncodeNonce i = be_bytes 8 i"

definition Nonce_Uint64 :: "bytes \<Rightarrow> u64" where
  "Nonce_Uint64 n = word_of_bytes n"

section \<open>RLP form\<close>

definition DposContextProto_rval :: "DposContextProto \<Rightarrow> rval" where
  "DposContextProto_rval p = VStruct
     [rv_hash (EpochHash p), rv_hash (DelegateHash p), rv_hash (CandidateHash p), rv_hash (VoteHash p),
      rv_hash (MintCntHash p)]"

definition Header_rval :: "Header \<Rightarrow> rval" where
  "Header_rval h = VStruct
     [rv_hash (ParentHash h), rv_hash (UncleHash h), VByteArray (be_bytes 65 (Signature h)),
      rv_address (Coinbase h), rv_hash (Root h), rv_hash (TxHash h), rv_hash (ReceiptHash h),
      (case DposContext h of None \<Rightarrow> VNilStruct | Some p \<Rightarrow> VPtr (DposContextProto_rval p)),
      VByteArray (be_bytes 256 (Bloom h)), VBigIntPtr (Difficulty h), VBigIntPtr (Number h),
      VUint (GasLimit h), VUint (GasUsed h), VBigIntPtr (Time h), VBytes (Extra h),
      rv_hash (MixDigest h), VByteArray (be_bytes 8 (Nonce h))]"

definition DposContextProto_type :: rtype where
  "DposContextProto_type = 
     TStruct [TByteArray 32, TByteArray 32, TByteArray 32, TByteArray 32, TByteArray 32]"

definition Header_type :: rtype where
  "Header_type = TStruct
     [TByteArray 32, TByteArray 32, TByteArray 65, TByteArray 20, TByteArray 32, TByteArray 32,
      TByteArray 32, TPtr DposContextProto_type, TByteArray 256, TBigInt, TBigInt, TUint 64, TUint 64,
      TBigInt, TByteSlice, TByteArray 32, TByteArray 8]"

definition DposContextProto_of_rval :: "rval \<Rightarrow> DposContextProto" where
  "DposContextProto_of_rval v = (let f = rv_fields v in
     \<lparr>EpochHash = rv_word (f ! 0), DelegateHash = rv_word (f ! 1), CandidateHash = rv_word (f ! 2),
      VoteHash = rv_word (f ! 3), MintCntHash = rv_word (f ! 4)\<rparr>)"

definition Header_of_rval :: "rval \<Rightarrow> Header" where
  "Header_of_rval v = (let f = rv_fields v in
     \<lparr>ParentHash = rv_word (f ! 0), UncleHash = rv_word (f ! 1), Signature = rv_word (f ! 2),
      Coinbase = rv_word (f ! 3), Root = rv_word (f ! 4), TxHash = rv_word (f ! 5),
      ReceiptHash = rv_word (f ! 6), DposContext = map_option DposContextProto_of_rval (rv_ptr (f ! 7)),
      Bloom = rv_word (f ! 8), Difficulty = rv_bigint (f ! 9), Number = rv_bigint (f ! 10),
      GasLimit = rv_uint (f ! 11), GasUsed = rv_uint (f ! 12), Time = rv_bigint (f ! 13),
      Extra = rv_bytes (f ! 14), MixDigest = rv_word (f ! 15), Nonce = rv_word (f ! 16)\<rparr>)"

text \<open>\<^verbatim>\<open>extblock\<close>: a pointer to the header, the transactions and the pointers to the uncles.\<close>

definition Block_EncodeRLP :: "Block \<Rightarrow> rval" where
  "Block_EncodeRLP b = VEncoder (VStruct
     [VPtr (Header_rval (bl_header b)), VSlice False (map tx_EncodeRLP (bl_transactions b)),
      VSlice False (map (\<lambda>u. VPtr (Header_rval u)) (bl_uncles b))])"

definition Block_type :: rtype where
  "Block_type = TDecoder (TStruct [TPtr Header_type, TSlice tx_type, TSlice (TPtr Header_type)])"

definition Block_of_rval :: "rval \<Rightarrow> Block" where
  "Block_of_rval v = (let f = rv_fields v in
     \<lparr>bl_header = Header_of_rval (f ! 0), bl_uncles = map Header_of_rval (rv_elems (f ! 2)),
      bl_transactions = map tx_of_rval (rv_elems (f ! 1))\<rparr>)"

definition DecodeBlock :: "bytes \<Rightarrow> (rlp_error + Block) option" where
  "DecodeBlock b = map_option (map_sum id Block_of_rval) (DecodeBytes Block_type b)"

section \<open>Headers\<close>

definition CopyHeader :: "Header \<Rightarrow> Header" where
  "CopyHeader h = h
     \<lparr>Time := Some (case Time h of None \<Rightarrow> 0 | Some t \<Rightarrow> t),
      Difficulty := Some (case Difficulty h of None \<Rightarrow> 0 | Some d \<Rightarrow> d),
      Number := Some (case Number h of None \<Rightarrow> 0 | Some n \<Rightarrow> n),
      DposContext := Some (case DposContext h of
          None \<Rightarrow> \<lparr>EpochHash = 0, DelegateHash = 0, CandidateHash = 0, VoteHash = 0, MintCntHash = 0\<rparr>
        | Some p \<Rightarrow> p)\<rparr>"

definition HashNoNonce :: "keccak \<Rightarrow> Header \<Rightarrow> hash" where
  "HashNoNonce kec h = rlpHash kec (VSlice False (map rv_any
     [rv_hash (ParentHash h), rv_hash (UncleHash h), VByteArray (be_bytes 65 (Signature h)),
      rv_address (Coinbase h), rv_hash (Root h), rv_hash (TxHash h), rv_hash (ReceiptHash h),
      VByteArray (be_bytes 256 (Bloom h)), VBigIntPtr (Difficulty h), VBigIntPtr (Number h),
      VUint (GasLimit h), VUint (GasUsed h), VBigIntPtr (Time h), VBytes (Extra h)]))"

definition BFTDigest :: hash where
  "BFTDigest = 0x63746963616c2062797a616e74696e65206661756c7420746f6c6572616e6365"

definition BFTExtraVanity :: nat where
  "BFTExtraVanity = 32"

definition BFTExtraSeal :: nat where
  "BFTExtraSeal = 65"

record BFTExtra =
  be_Validators :: "address list"
  be_Seal :: bytes
  be_CommittedSeal :: "bytes list"

datatype extra_error = ErrInvalidBFTHeaderExtra | extra_rlp rlp_error

definition BFTExtra_EncodeRLP :: "BFTExtra \<Rightarrow> rval" where
  "BFTExtra_EncodeRLP ist = VEncoder (VSlice False (map rv_any
     [VSlice False (map rv_address (be_Validators ist)), VBytes (be_Seal ist),
      VSlice False (map VBytes (be_CommittedSeal ist))]))"

definition BFTExtra_type :: rtype where
  "BFTExtra_type = TDecoder (TStruct [TSlice (TByteArray 20), TByteSlice, TSlice TByteSlice])"

definition BFTExtra_of_rval :: "rval \<Rightarrow> BFTExtra" where
  "BFTExtra_of_rval v = (let f = rv_fields v in
     \<lparr>be_Validators = map rv_word (rv_elems (f ! 0)), be_Seal = rv_bytes (f ! 1),
      be_CommittedSeal = map rv_bytes (rv_elems (f ! 2))\<rparr>)"

definition ExtractBFTExtra :: "Header \<Rightarrow> (extra_error + BFTExtra) option" where
  "ExtractBFTExtra h =
     (if length (Extra h) < BFTExtraVanity then Some (Inl ErrInvalidBFTHeaderExtra)
      else map_option (map_sum extra_rlp BFTExtra_of_rval)
             (DecodeBytes BFTExtra_type (drop BFTExtraVanity (Extra h))))"

text \<open>The inner option of the result is the nil header of a failure.\<close>

definition BFTFilteredHeader :: "Header \<Rightarrow> bool \<Rightarrow> Header option option" where
  "BFTFilteredHeader h keepSeal = do {
     let newHeader = CopyHeader h;
     r \<leftarrow> ExtractBFTExtra newHeader;
     (case r of
        Inl err \<Rightarrow> Some None
      | Inr ist \<Rightarrow> do {
          let ist = (if \<not> keepSeal then ist\<lparr>be_Seal := []\<rparr> else ist);
          let ist = ist\<lparr>be_CommittedSeal := []\<rparr>;
          e \<leftarrow> EncodeToBytes (VPtr (BFTExtra_EncodeRLP ist));
          (case e of
             Inl err \<Rightarrow> Some None
           | Inr payload \<Rightarrow>
               Some (Some (newHeader\<lparr>Extra := take BFTExtraVanity (Extra newHeader) @ payload\<rparr>)))
        })
   }"

definition Header_Hash :: "keccak \<Rightarrow> Header \<Rightarrow> hash option" where
  "Header_Hash kec h =
     (if MixDigest h = BFTDigest then do {
        r \<leftarrow> BFTFilteredHeader h True;
        Some (case r of Some bftHeader \<Rightarrow> rlpHash kec (VPtr (Header_rval bftHeader))
              | None \<Rightarrow> rlpHash kec (VPtr (Header_rval h)))
      } else Some (rlpHash kec (VPtr (Header_rval h))))"

definition CalcUncleHash :: "keccak \<Rightarrow> Header list \<Rightarrow> hash" where
  "CalcUncleHash kec uncles = rlpHash kec (VSlice False (map (\<lambda>u. VPtr (Header_rval u)) uncles))"

section \<open>Blocks\<close>

definition NewBlockWithHeader :: "Header \<Rightarrow> Block" where
  "NewBlockWithHeader h = \<lparr>bl_header = CopyHeader h, bl_uncles = [], bl_transactions = []\<rparr>"

definition Block_Number :: "Block \<Rightarrow> int option" where
  "Block_Number b = Number (bl_header b)"

definition Block_NumberU64 :: "Block \<Rightarrow> u64 option" where
  "Block_NumberU64 b = map_option big_Uint64 (Number (bl_header b))"

definition Block_Header :: "Block \<Rightarrow> Header" where
  "Block_Header b = CopyHeader (bl_header b)"

definition Block_Transaction :: "keccak \<Rightarrow> Block \<Rightarrow> hash \<Rightarrow> txdata option" where
  "Block_Transaction kec b hsh = find (\<lambda>t. tx_Hash kec t = hsh) (bl_transactions b)"

definition WithSeal :: "Block \<Rightarrow> Header \<Rightarrow> Block" where
  "WithSeal b h = \<lparr>bl_header = h, bl_uncles = bl_uncles b, bl_transactions = bl_transactions b\<rparr>"

definition WithBody :: "Block \<Rightarrow> txdata list \<Rightarrow> Header list \<Rightarrow> Block" where
  "WithBody b transactions uncles =
     \<lparr>bl_header = CopyHeader (bl_header b), bl_uncles = map CopyHeader uncles, bl_transactions = transactions\<rparr>"

definition Block_Hash :: "keccak \<Rightarrow> Block \<Rightarrow> hash option" where
  "Block_Hash kec b = Header_Hash kec (bl_header b)"

definition Block_Size :: "Block \<Rightarrow> nat" where
  "Block_Size b = (case Encode (Block_EncodeRLP b) of Inl err \<Rightarrow> 0 | Inr chunks \<Rightarrow> length (concat chunks))"

section \<open>Round trips\<close>

lemma rlp_spec_any [simp]: "rlp_spec (VSlice False (map rv_any vs)) = rlp_spec (VStruct vs)"
  by (simp add: comp_def)

definition header_wf :: "Header \<Rightarrow> bool" where
  "header_wf h \<longleftrightarrow> (case DposContext h of None \<Rightarrow> False | Some _ \<Rightarrow> True) \<and>
     (\<forall>p \<in> {Difficulty h, Number h, Time h}. case p of None \<Rightarrow> False | Some i \<Rightarrow> 0 \<le> i)"

lemma has_type_DposContextProto [simp]: "has_type DposContextProto_type (DposContextProto_rval p)"
  by (simp add: DposContextProto_type_def DposContextProto_rval_def has_type_iff(13))

lemma DposContextProto_inverse [simp]: "DposContextProto_of_rval (DposContextProto_rval p) = p"
  by (simp add: DposContextProto_of_rval_def DposContextProto_rval_def)

lemma has_type_Header: "header_wf h \<Longrightarrow> has_type Header_type (Header_rval h)"
  by (auto simp: Header_type_def Header_rval_def has_type_iff(3,8,13,14) header_wf_def split: option.splits)

lemma Header_inverse [simp]: "Header_of_rval (Header_rval h) = h"
  by (cases "DposContext h") (simp_all add: Header_of_rval_def Header_rval_def)

lemma Header_of_rval_VPtr [simp]: "Header_of_rval (VPtr v) = Header_of_rval v"
  by (simp add: Header_of_rval_def)

lemma Header_encodable: "header_wf h \<Longrightarrow> rlp_encodable (Header_rval h)"
  by (rule has_type_encodable [OF has_type_Header])

definition block_wf :: "Block \<Rightarrow> bool" where
  "block_wf b \<longleftrightarrow> header_wf (bl_header b) \<and> list_all header_wf (bl_uncles b) \<and>
     list_all tx_nonneg (bl_transactions b)"

definition Block_rval :: "Block \<Rightarrow> rval" where
  "Block_rval b = VEncoder (VStruct
     [VPtr (Header_rval (bl_header b)), VSlice False (map (\<lambda>t. VEncoder (txdata_rval t)) (bl_transactions b)),
      VSlice False (map (\<lambda>u. VPtr (Header_rval u)) (bl_uncles b))])"

lemma no_tail_types: "no_tail tx_type" "no_tail Header_type"
  by (simp_all add: tx_type_def txdata_type_def Header_type_def)

lemma has_type_Block: "block_wf b \<Longrightarrow> has_type Block_type (Block_rval b)"
  by (auto simp: Block_type_def Block_rval_def block_wf_def has_type_iff(2,10,13,14) list_all_iff
      tx_type_def [symmetric] no_tail_types intro: has_type_Header has_type_tx)

lemma rlp_spec_Block: "rlp_spec (Block_EncodeRLP b) = rlp_spec (Block_rval b)"
  by (simp add: Block_EncodeRLP_def Block_rval_def comp_def)

lemma Block_encodable: "block_wf b \<Longrightarrow> rlp_encodable (Block_EncodeRLP b)"
  by (auto simp: Block_EncodeRLP_def block_wf_def list_all_iff tx_encodable Header_encodable)

definition block_decoded :: "Block \<Rightarrow> Block" where
  "block_decoded b = b\<lparr>bl_transactions := map tx_decoded (bl_transactions b)\<rparr>"

lemma Block_inverse [simp]: "Block_of_rval (Block_rval b) = block_decoded b"
  by (simp add: Block_of_rval_def Block_rval_def block_decoded_def comp_def)

lemma DecodeBlock_spec:
  assumes "block_wf b" and "length (rlp_spec (Block_rval b)) < 2 ^ 64"
  shows "EncodeToBytes (Block_EncodeRLP b) = Some (Inr (rlp_spec (Block_rval b)))"
    and "DecodeBlock (rlp_spec (Block_rval b)) = Some (Inr (block_decoded b))"
  using codec [OF has_type_Block [OF assms(1)] rlp_spec_Block Block_encodable [OF assms(1)] assms(2)]
  by (simp_all add: DecodeBlock_def)

section \<open>Consensus data in the extra field\<close>

definition BFTExtra_rval :: "BFTExtra \<Rightarrow> rval" where
  "BFTExtra_rval ist = VEncoder (VStruct
     [VSlice False (map rv_address (be_Validators ist)), VBytes (be_Seal ist),
      VSlice False (map VBytes (be_CommittedSeal ist))])"

lemma has_type_BFTExtra: "has_type BFTExtra_type (BFTExtra_rval ist)"
  by (auto simp: BFTExtra_type_def BFTExtra_rval_def has_type_iff(2,8,10,13))

lemma rlp_spec_BFTExtra [simp]: "rlp_spec (BFTExtra_EncodeRLP ist) = rlp_spec (BFTExtra_rval ist)"
  by (simp only: BFTExtra_EncodeRLP_def BFTExtra_rval_def rlp_spec.simps(2) rlp_spec_any)

lemma BFTExtra_encodable [simp]: "rlp_encodable (BFTExtra_EncodeRLP ist)"
  by (simp add: BFTExtra_EncodeRLP_def)

lemma BFTExtra_inverse [simp]: "BFTExtra_of_rval (BFTExtra_rval ist) = ist"
  by (simp add: BFTExtra_of_rval_def BFTExtra_rval_def comp_def)

text \<open>The header whose extra field is the vanity of \<open>h\<close> followed by the encoding of \<open>ist\<close>.\<close>

definition with_extra :: "Header \<Rightarrow> BFTExtra \<Rightarrow> Header" where
  "with_extra h ist = h\<lparr>Extra := take BFTExtraVanity (Extra h) @ rlp_spec (BFTExtra_rval ist)\<rparr>"

lemma ExtractBFTExtra_with_extra:
  assumes "BFTExtraVanity \<le> length (Extra h)" and "length (rlp_spec (BFTExtra_rval ist)) < 2 ^ 64"
  shows "ExtractBFTExtra (with_extra h ist) = Some (Inr ist)"
  using codec(2) [OF has_type_BFTExtra rlp_spec_BFTExtra BFTExtra_encodable assms(2)] assms(1)
  by (simp add: ExtractBFTExtra_def with_extra_def min_def)

definition clean_extra :: "Header \<Rightarrow> BFTExtra \<Rightarrow> Header" where
  "clean_extra h ist = with_extra h (ist\<lparr>be_CommittedSeal := []\<rparr>)"

lemma length_concat_take: "length (concat xs) \<le> length (concat (xs @ ys))"
  by simp

lemma rlp_head_mono:
  assumes "m \<le> n"
  shows "length (rlp_head t u m) \<le> length (rlp_head t u n)"
proof -
  have "length (nat_be m) \<le> length (nat_be n)"
    using assms
  proof (induction n arbitrary: m rule: nat_be.induct)
    case (1 n)
    then show ?case
      using div_le_mono [of m n 256] by (cases "m = 0"; cases "n = 0") (auto simp: nat_be_pos)
  qed
  then show ?thesis
    using assms by (auto simp: rlp_head_def)
qed

lemma rlp_list_mono: "length p \<le> length q \<Longrightarrow> length (rlp_list p) \<le> length (rlp_list q)"
  by (simp add: rlp_list_def add_mono rlp_head_mono)

lemma length_clean_extra:
  "length (rlp_spec (BFTExtra_rval (ist\<lparr>be_CommittedSeal := []\<rparr>))) \<le> length (rlp_spec (BFTExtra_rval ist))"
  using rlp_list_mono [of "[]"] by (simp add: BFTExtra_rval_def rlp_list_mono)

lemma CopyHeader_wf: "header_wf h \<Longrightarrow> CopyHeader h = h"
  by (auto simp: header_wf_def CopyHeader_def split: option.splits)

lemma with_extra_simps [simp]:
  "header_wf (with_extra h ist) = header_wf h" "MixDigest (with_extra h ist) = MixDigest h"
  by (simp_all add: with_extra_def header_wf_def)

lemma take_with_extra:
  "BFTExtraVanity \<le> length (Extra h) \<Longrightarrow>
     take BFTExtraVanity (Extra (with_extra h ist)) = take BFTExtraVanity (Extra h)"
  by (simp add: with_extra_def min_def)

lemma BFTFilteredHeader_with_extra:
  assumes "header_wf h" and "BFTExtraVanity \<le> length (Extra h)" and "length (rlp_spec (BFTExtra_rval ist)) < 2 ^ 64"
  shows "BFTFilteredHeader (with_extra h ist) True = Some (Some (clean_extra h ist))"
proof -
  let ?c = "ist\<lparr>be_CommittedSeal := []\<rparr>"
  have "length (rlp_spec (BFTExtra_rval ?c)) < 2 ^ 64"
    using length_clean_extra [of ist] assms(3) by linarith
  then have "EncodeToBytes (VPtr (BFTExtra_EncodeRLP ?c)) = Some (Inr (rlp_spec (BFTExtra_rval ?c)))"
    using EncodeToBytes_spec(1) [of "VPtr (BFTExtra_EncodeRLP ?c)"] by simp
  then show ?thesis
    using assms ExtractBFTExtra_with_extra [OF assms(2,3)] CopyHeader_wf [of "with_extra h ist"]
    by (simp add: BFTFilteredHeader_def take_with_extra) (simp add: clean_extra_def with_extra_def)
qed

lemma Header_Hash_with_extra:
  assumes "header_wf h" and "MixDigest h = BFTDigest" and "BFTExtraVanity \<le> length (Extra h)"
    and "length (rlp_spec (BFTExtra_rval ist)) < 2 ^ 64"
  shows "Header_Hash kec (with_extra h ist) = Some (rlpHash kec (VPtr (Header_rval (clean_extra h ist))))"
  using assms BFTFilteredHeader_with_extra by (simp add: Header_Hash_def)

lemma rlpHash_spec:
  "rlp_encodable v \<Longrightarrow> length (rlp_spec v) < 2 ^ 64 \<Longrightarrow> rlpHash kec v = kec (rlp_spec v)"
  using EncodeToBytes_spec(2) [of v] by (auto simp: rlpHash_def map_sum_eq_Inr)

lemma has_type_inject:
  assumes "has_type ty v" and "has_type ty w" and "rlp_spec v = rlp_spec w" and "length (rlp_spec v) < 2 ^ 64"
  shows "v = w"
  using DecodeBytes_spec [OF assms(1), of "[]"] DecodeBytes_spec [OF assms(2), of "[]"] assms(3,4) by simp

lemma Header_rval_inject: "Header_rval h = Header_rval h' \<longleftrightarrow> h = h'"
  by (metis Header_inverse)

lemma BFTExtra_spec_inject:
  assumes "length (rlp_spec (BFTExtra_rval i)) < 2 ^ 64" and "rlp_spec (BFTExtra_rval i) = rlp_spec (BFTExtra_rval j)"
  shows "i = j"
  using has_type_inject [OF has_type_BFTExtra has_type_BFTExtra assms(2,1)] by (metis BFTExtra_inverse)

lemma with_extra_inject:
  assumes "with_extra h i = with_extra h' j" and "length (rlp_spec (BFTExtra_rval i)) < 2 ^ 64"
    and "length (Extra h) = BFTExtraVanity" and "length (Extra h') = BFTExtraVanity"
  shows "h = h' \<and> i = j"
proof -
  have "Extra (with_extra h i) = Extra (with_extra h' j)"
    using assms(1) by simp
  then have "Extra h = Extra h'" "rlp_spec (BFTExtra_rval i) = rlp_spec (BFTExtra_rval j)"
    using assms(3,4) by (simp_all add: with_extra_def)
  then show ?thesis
    using BFTExtra_spec_inject [OF assms(2)] assms(1) by (cases h; cases h') (simp add: with_extra_def)
qed

text \<open>
  C12: the block hash covers everything but the committed seals.  Two headers of the consensus engine
  (a 32-byte vanity \<open>Extra h\<close> followed by the encoded validators, proposer seal and committed seals) have
  the same hash exactly when they agree on every header field, on the validators and on the proposer
  seal, whatever seals have been added by the validators that committed, as long as the hash function has
  no collision on the two filtered headers.
\<close>

theorem Header_Hash_identifies:
  assumes "header_wf h" and "MixDigest h = BFTDigest" and "length (Extra h) = BFTExtraVanity"
    and "length (rlp_spec (BFTExtra_rval i)) < 2 ^ 64"
    and "header_wf h'" and "MixDigest h' = BFTDigest" and "length (Extra h') = BFTExtraVanity"
    and "length (rlp_spec (BFTExtra_rval j)) < 2 ^ 64"
    and "length (rlp_spec (Header_rval (clean_extra h i))) < 2 ^ 64"
    and "length (rlp_spec (Header_rval (clean_extra h' j))) < 2 ^ 64"
    and "kec (rlp_spec (Header_rval (clean_extra h i))) = kec (rlp_spec (Header_rval (clean_extra h' j))) \<Longrightarrow>
      rlp_spec (Header_rval (clean_extra h i)) = rlp_spec (Header_rval (clean_extra h' j))"
  shows "Header_Hash kec (with_extra h i) = Header_Hash kec (with_extra h' j) \<longleftrightarrow>
    h = h' \<and> be_Validators i = be_Validators j \<and> be_Seal i = be_Seal j"
proof -
  let ?c = "clean_extra h i" and ?d = "clean_extra h' j"
  have wf: "header_wf ?c" "header_wf ?d"
    using assms(1,5) by (simp_all add: clean_extra_def)
  have hash: "Header_Hash kec (with_extra h i) = Some (kec (rlp_spec (Header_rval ?c)))"
    "Header_Hash kec (with_extra h' j) = Some (kec (rlp_spec (Header_rval ?d)))"
    using assms wf by (simp_all add: Header_Hash_with_extra rlpHash_spec Header_encodable)
  have "?c = ?d" if "rlp_spec (Header_rval ?c) = rlp_spec (Header_rval ?d)"
    using has_type_inject [OF has_type_Header has_type_Header that] wf assms(9) Header_rval_inject by blast
  then have "Header_Hash kec (with_extra h i) = Header_Hash kec (with_extra h' j) \<longleftrightarrow> ?c = ?d"
    using hash assms(11) by auto
  moreover have "length (rlp_spec (BFTExtra_rval (i\<lparr>be_CommittedSeal := []\<rparr>))) < 2 ^ 64"
    using length_clean_extra [of i] assms(4) by linarith
  then have "?c = ?d \<longleftrightarrow> h = h' \<and> i\<lparr>be_CommittedSeal := []\<rparr> = j\<lparr>be_CommittedSeal := []\<rparr>"
    unfolding clean_extra_def using assms(3,7) by (intro iffI) (rule with_extra_inject, auto)
  moreover have "i\<lparr>be_CommittedSeal := []\<rparr> = j\<lparr>be_CommittedSeal := []\<rparr> \<longleftrightarrow>
      be_Validators i = be_Validators j \<and> be_Seal i = be_Seal j"
    by (cases i, cases j) auto
  ultimately show ?thesis
    by blast
qed

text \<open>
  C19: a block survives the wire.  Decoding the encoding of a block whose headers have their integer and
  context fields set gives the block back, with nil payloads read as empty ones.
\<close>

theorem block_roundtrip:
  assumes "block_wf b" and "length (rlp_spec (Block_rval b)) < 2 ^ 64"
  shows "\<exists>e. EncodeToBytes (Block_EncodeRLP b) = Some (Inr e) \<and> DecodeBlock e = Some (Inr (block_decoded b)) \<and>
    Block_Hash kec (block_decoded b) = Block_Hash kec b"
  using DecodeBlock_spec [OF assms] by (simp add: Block_Hash_def block_decoded_def)

definition sample_header :: Header where
  "sample_header =
     \<lparr>ParentHash = 1, UncleHash = 2, Signature = 3, Coinbase = 4, Root = 5, TxHash = 6, ReceiptHash = 7,
      DposContext = Some \<lparr>EpochHash = 0, DelegateHash = 0, CandidateHash = 0, VoteHash = 0, MintCntHash = 0\<rparr>,
      Bloom = 0, Difficulty = Some 1, Number = Some 9, GasLimit = 10, GasUsed = 0, Time = Some 11,
      Extra = replicate 32 0, MixDigest = BFTDigest, Nonce = 0\<rparr>"

definition sample_extra :: "bytes list \<Rightarrow> BFTExtra" where
  "sample_extra seals = \<lparr>be_Validators = [1, 2], be_Seal = [5], be_CommittedSeal = seals\<rparr>"

lemma length_rlp_string_eq:
  "length (rlp_string b) =
     (if length b = 1 \<and> hd b \<le> 0x7F then 1
      else length b + (if length b < 56 then 1 else Suc (length (nat_be (length b)))))"
  by (simp add: rlp_string_def rlp_head_def)

lemma length_rlp_list_eq:
  "length (rlp_list p) = length p + (if length p < 56 then 1 else Suc (length (nat_be (length p))))"
  by (simp add: rlp_list_def rlp_head_def)

lemmas rlp_length = length_rlp_string_eq length_rlp_list_eq nat_be_pos

lemma sample_header_ok:
  "header_wf sample_header" "MixDigest sample_header = BFTDigest" "length (Extra sample_header) = BFTExtraVanity"
  by (simp_all add: sample_header_def header_wf_def BFTExtraVanity_def)

lemma sample_extra_ok:
  "length (rlp_spec (BFTExtra_rval (sample_extra []))) = 46"
  "length (rlp_spec (BFTExtra_rval (sample_extra [[7]]))) = 47"
  by (simp_all add: BFTExtra_rval_def sample_extra_def rlp_length)

lemma sample_header_length:
  "length (rlp_spec (Header_rval (clean_extra sample_header (sample_extra s)))) < 2 ^ 64"
  using sample_extra_ok
  by (simp add: Header_rval_def clean_extra_def with_extra_def sample_header_def sample_extra_def
      DposContextProto_rval_def BFTExtraVanity_def rlp_length)

theorem Header_Hash_identifies_witness:
  "Header_Hash (\<lambda>b. of_nat (length b)) (with_extra sample_header (sample_extra [])) =
     Header_Hash (\<lambda>b. of_nat (length b)) (with_extra sample_header (sample_extra [[7]]))"
  using sample_header_ok sample_extra_ok sample_header_length
  by (subst Header_Hash_identifies) (simp_all add: clean_extra_def sample_extra_def)

theorem block_roundtrip_witness:
  "\<exists>e. EncodeToBytes (Block_EncodeRLP (NewBlockWithHeader sample_header)) = Some (Inr e) \<and>
     DecodeBlock e = Some (Inr (block_decoded (NewBlockWithHeader sample_header))) \<and>
     Block_Hash (\<lambda>b. of_nat (length b)) (block_decoded (NewBlockWithHeader sample_header)) =
       Block_Hash (\<lambda>b. of_nat (length b)) (NewBlockWithHeader sample_header)"
proof (rule block_roundtrip)
  show "block_wf (NewBlockWithHeader sample_header)"
    using sample_header_ok by (simp add: block_wf_def NewBlockWithHeader_def CopyHeader_wf)
  show "length (rlp_spec (Block_rval (NewBlockWithHeader sample_header))) < 2 ^ 64"
    by (simp add: Block_rval_def NewBlockWithHeader_def CopyHeader_wf [OF sample_header_ok(1)])
      (simp add: Header_rval_def sample_header_def DposContextProto_rval_def rlp_length)
qed

end
