(* ===== verification/Validator_Set.thy ===== *)
theory Validator_Set
  imports Common_Types
begin

text \<open>
  \<^verbatim>\<open>consensus/dbft/validator/default.go\<close> and \<^verbatim>\<open>validator.go\<close>: the ordered set of
  validators, the proposer selection policies and the fault bound \<open>F\<close>.

  A \<^verbatim>\<open>bft.Validator\<close> is a pointer to a \<^verbatim>\<open>defaultValidator\<close>.  The consensus core keys
  a Go map by that interface value, so the identity of the object matters there: a
  validator is its address together with the reference \<open>v_ref\<close> of the object.
  The argument \<open>ref\<close> of the constructors names the fresh objects they allocate.
\<close>

record validator =
  v_ref :: nat
  v_address :: address

type_synonym ProposerPolicy = u64

definition RoundRobin :: ProposerPolicy where
  "RoundRobin = 0"

definition Sticky :: ProposerPolicy where
  "Sticky = 1"

datatype ProposalSelector = roundRobinProposer_sel | stickyProposer_sel

record defaultSet =
  vs_validators :: "validator list"
  vs_policy :: ProposerPolicy
  vs_proposer :: "validator option"
  vs_selector :: ProposalSelector

definition validator_New :: "nat \<Rightarrow> address \<Rightarrow> validator" where
  "validator_New ref addr = \<lparr>v_ref = ref, v_address = addr\<rparr>"

definition validator_String :: "keccak \<Rightarrow> validator \<Rightarrow> string" where
  "validator_String kec v = Address_String kec (v_address v)"

text \<open>
  \<^verbatim>\<open>sort.Sort\<close> with \<^verbatim>\<open>Validators.Less\<close>, the order of the rendered addresses.  Equal
  strings mean equal addresses, so the instability of Go's sort cannot be seen through
  the addresses.
\<close>

definition sortValidators :: "keccak \<Rightarrow> validator list \<Rightarrow> validator list" where
  "sortValidators kec vs = sort_key (validator_String kec) vs"

definition valset_Size :: "defaultSet \<Rightarrow> nat" where
  "valset_Size vs = length (vs_validators vs)"

definition GetByIndex :: "defaultSet \<Rightarrow> u64 \<Rightarrow> validator option" where
  "GetByIndex vs i = (if i < of_nat (valset_Size vs) then Some (vs_validators vs ! unat i) else None)"

fun findAddress :: "nat \<Rightarrow> validator list \<Rightarrow> address \<Rightarrow> int \<times> validator option" where
  "findAddress i [] addr = (-1, None)"
| "findAddress i (v # vs) addr =
     (if addr = v_address v then (int i, Some v) else findAddress (Suc i) vs addr)"

definition GetByAddress :: "defaultSet \<Rightarrow> address \<Rightarrow> int \<times> validator option" where
  "GetByAddress vs addr = findAddress 0 (vs_validators vs) addr"

definition newDefaultSet :: "keccak \<Rightarrow> nat \<Rightarrow> address list \<Rightarrow> ProposerPolicy \<Rightarrow> defaultSet" where
  "newDefaultSet kec ref addrs policy =
     (let vals = sortValidators kec (map2 validator_New [ref..<ref + length addrs] addrs);
          vs = \<lparr>vs_validators = vals, vs_policy = policy, vs_proposer = None,
                vs_selector = roundRobinProposer_sel\<rparr>;
          vs = (if valset_Size vs > 0 then vs\<lparr>vs_proposer := GetByIndex vs 0\<rparr> else vs)
      in if policy = Sticky then vs\<lparr>vs_selector := stickyProposer_sel\<rparr> else vs)"

definition NewSet :: "keccak \<Rightarrow> nat \<Rightarrow> address list \<Rightarrow> ProposerPolicy \<Rightarrow> defaultSet" where
  "NewSet kec ref addrs policy = newDefaultSet kec ref addrs policy"

definition GetProposer :: "defaultSet \<Rightarrow> validator option" where
  "GetProposer vs = vs_proposer vs"

text \<open>
  \<^verbatim>\<open>reflect.DeepEqual\<close> on two validators compares the addresses behind the pointers, and
  two nil interfaces are equal.
\<close>

definition DeepEqual_validator :: "validator option \<Rightarrow> validator option \<Rightarrow> bool" where
  "DeepEqual_validator v w = (map_option v_address v = map_option v_address w)"

definition IsProposer :: "defaultSet \<Rightarrow> address \<Rightarrow> bool" where
  "IsProposer vs addr = DeepEqual_validator (GetProposer vs) (snd (GetByAddress vs addr))"

definition calcSeed :: "defaultSet \<Rightarrow> address \<Rightarrow> u64 \<Rightarrow> u64" where
  "calcSeed vs proposer round =
     (let offset = (case GetByAddress vs proposer of (idx, Some _) \<Rightarrow> idx | (_, None) \<Rightarrow> 0)
      in word_of_int offset + round)"

definition emptyAddress :: "address \<Rightarrow> bool" where
  "emptyAddress addr \<longleftrightarrow> addr = 0"

definition roundRobinProposer :: "defaultSet \<Rightarrow> address \<Rightarrow> u64 \<Rightarrow> validator option" where
  "roundRobinProposer vs proposer round =
     (if valset_Size vs = 0 then None
      else let seed = (if emptyAddress proposer then round else calcSeed vs proposer round + 1);
               pick = seed mod of_nat (valset_Size vs)
           in GetByIndex vs pick)"

definition stickyProposer :: "defaultSet \<Rightarrow> address \<Rightarrow> u64 \<Rightarrow> validator option" where
  "stickyProposer vs proposer round =
     (if valset_Size vs = 0 then None
      else let seed = (if emptyAddress proposer then round else calcSeed vs proposer round);
               pick = seed mod of_nat (valset_Size vs)
           in GetByIndex vs pick)"

definition CalcProposer :: "defaultSet \<Rightarrow> address \<Rightarrow> u64 \<Rightarrow> defaultSet" where
  "CalcProposer vs lastProposer round =
     vs\<lparr>vs_proposer := (case vs_selector vs of
          roundRobinProposer_sel \<Rightarrow> roundRobinProposer vs lastProposer round
        | stickyProposer_sel \<Rightarrow> stickyProposer vs lastProposer round)\<rparr>"

definition AddValidator :: "keccak \<Rightarrow> nat \<Rightarrow> address \<Rightarrow> defaultSet \<Rightarrow> bool \<times> defaultSet" where
  "AddValidator kec ref addr vs =
     (if addr \<in> v_address ` set (vs_validators vs) then (False, vs)
      else (True, vs\<lparr>vs_validators := sortValidators kec (vs_validators vs @ [validator_New ref addr])\<rparr>))"

fun removeFirst :: "address \<Rightarrow> validator list \<Rightarrow> (validator list) option" where
  "removeFirst addr [] = None"
| "removeFirst addr (v # vs) =
     (if v_address v = addr then Some vs else map_option ((#) v) (removeFirst addr vs))"

definition RemoveValidator :: "address \<Rightarrow> defaultSet \<Rightarrow> bool \<times> defaultSet" where
  "RemoveValidator addr vs =
     (case removeFirst addr (vs_validators vs) of
        Some vals \<Rightarrow> (True, vs\<lparr>vs_validators := vals\<rparr>)
      | None \<Rightarrow> (False, vs))"

definition valset_Copy :: "keccak \<Rightarrow> nat \<Rightarrow> defaultSet \<Rightarrow> defaultSet" where
  "valset_Copy kec ref vs = NewSet kec ref (map v_address (vs_validators vs)) (vs_policy vs)"

text \<open>
  \<^verbatim>\<open>int(math.Ceil(float64(n)/3)) - 1\<close>; the float division is exact enough for the ceiling
  of every size below \<open>2 ^ 51\<close>, so the integer ceiling is what it computes.
\<close>

definition valset_F :: "defaultSet \<Rightarrow> int" where
  "valset_F vs = (int (valset_Size vs) + 2) div 3 - 1"

definition valset_Policy :: "defaultSet \<Rightarrow> ProposerPolicy" where
  "valset_Policy vs = vs_policy vs"

definition ExtractValidators :: "bytes \<Rightarrow> address list" where
  "ExtractValidators extraData =
     map (\<lambda>i. BytesToAddress (take AddressLength (drop (i * AddressLength) extraData)))
       [0..<length extraData div AddressLength]"

definition ValidExtraData :: "bytes \<Rightarrow> bool" where
  "ValidExtraData extraData \<longleftrightarrow> length extraData mod AddressLength = 0"

section \<open>Lookup\<close>

definition valset_addrs :: "defaultSet \<Rightarrow> address set" where
  "valset_addrs vs = v_address ` set (vs_validators vs)"

definition valset_wf :: "keccak \<Rightarrow> defaultSet \<Rightarrow> bool" where
  "valset_wf kec vs \<longleftrightarrow> distinct (map v_address (vs_validators vs)) \<and>
     sorted (map (validator_String kec) (vs_validators vs))"

lemma findAddress_None: "snd (findAddress i vs a) = None \<longleftrightarrow> a \<notin> v_address ` set vs"
  by (induction i vs a rule: findAddress.induct) auto

lemma findAddress_Some:
  "findAddress i vs a = (k, Some v) \<Longrightarrow>
     \<exists>j < length vs. k = int (i + j) \<and> vs ! j = v \<and> v_address v = a"
proof (induction i vs a rule: findAddress.induct)
  case (2 i w vs addr)
  show ?case
  proof (cases "addr = v_address w")
    case True
    with "2.prems" show ?thesis
      by (intro exI [of _ 0]) auto
  next
    case False
    with 2 obtain j where "j < length vs" "k = int (Suc i + j)" "vs ! j = v" "v_address v = addr"
      by auto
    then show ?thesis
      by (intro exI [of _ "Suc j"]) auto
  qed
qed simp

lemma findAddress_nth:
  "distinct (map v_address vs) \<Longrightarrow> j < length vs \<Longrightarrow>
     findAddress i vs (v_address (vs ! j)) = (int (i + j), Some (vs ! j))"
proof (induction vs arbitrary: i j)
  case (Cons v vs)
  then show ?case
    by (cases j) (auto simp: image_iff, metis nth_mem)
qed simp

lemma GetByAddress_None [simp]: "snd (GetByAddress vs a) = None \<longleftrightarrow> a \<notin> valset_addrs vs"
  by (simp add: GetByAddress_def valset_addrs_def findAddress_None)

lemma GetByAddress_SomeD:
  assumes "snd (GetByAddress vs a) = Some v"
  shows "v \<in> set (vs_validators vs)" and "v_address v = a" and "a \<in> valset_addrs vs"
proof -
  obtain k where "findAddress 0 (vs_validators vs) a = (k, Some v)"
    using assms by (cases "findAddress 0 (vs_validators vs) a") (auto simp: GetByAddress_def)
  then show "v \<in> set (vs_validators vs)" "v_address v = a" "a \<in> valset_addrs vs"
    by (auto dest!: findAddress_Some simp: valset_addrs_def)
qed

lemma GetByAddress_mem:
  assumes "a \<in> valset_addrs vs"
  obtains v where "snd (GetByAddress vs a) = Some v" "v_address v = a"
proof (cases "snd (GetByAddress vs a)")
  case None
  with assms show ?thesis
    by simp
next
  case (Some v)
  then show ?thesis
    using GetByAddress_SomeD(2) that by blast
qed

lemma GetByIndex_nat:
  assumes "j < valset_Size vs" and "valset_Size vs < 2 ^ 64"
  shows "GetByIndex vs (of_nat j) = Some (vs_validators vs ! j)"
proof -
  have "unat (of_nat j :: u64) = j"
    using assms by (simp add: unat_of_nat take_bit_nat_eq_self)
  moreover have "(of_nat j :: u64) < of_nat (valset_Size vs)"
    using assms by (simp add: of_nat_word_less_iff take_bit_nat_eq_self)
  ultimately show ?thesis
    by (simp add: GetByIndex_def)
qed

section \<open>Insertion and removal\<close>

lemma set_sortValidators [simp]: "set (sortValidators kec vs) = set vs"
  by (simp add: sortValidators_def)

lemma length_sortValidators [simp]: "length (sortValidators kec vs) = length vs"
  by (simp add: sortValidators_def)

lemma mset_sortValidators [simp]: "mset (sortValidators kec vs) = mset vs"
  by (simp add: sortValidators_def)

lemma distinct_sortValidators [simp]:
  "distinct (map v_address (sortValidators kec vs)) = distinct (map v_address vs)"
  by (rule distinct_mset_set_eq) simp

lemma sorted_sortValidators [simp]: "sorted (map (validator_String kec) (sortValidators kec vs))"
  by (simp add: sortValidators_def)

lemma removeFirst_None: "removeFirst a vs = None \<longleftrightarrow> a \<notin> v_address ` set vs"
  by (induction vs) auto

lemma removeFirst_Some:
  assumes "removeFirst a vs = Some ws"
  obtains xs v ys where "vs = xs @ v # ys" "ws = xs @ ys" "v_address v = a"
    "a \<notin> v_address ` set xs"
  using assms
proof (induction vs arbitrary: ws thesis)
  case (Cons v vs)
  show ?case
  proof (cases "v_address v = a")
    case True
    with Cons.prems show ?thesis
      by (intro Cons.prems(1) [of "[]" v vs]) auto
  next
    case False
    with Cons.prems(2) obtain us where us: "removeFirst a vs = Some us" "ws = v # us"
      by auto
    then obtain xs w ys where "vs = xs @ w # ys" "us = xs @ ys" "v_address w = a"
      "a \<notin> v_address ` set xs"
      using Cons.IH by metis
    with us False show ?thesis
      by (intro Cons.prems(1) [of "v # xs" w ys]) auto
  qed
qed simp

lemma AddValidator_addrs:
  "AddValidator kec ref a vs = (b, vs') \<Longrightarrow>
     b = (a \<notin> valset_addrs vs) \<and> valset_addrs vs' = insert a (valset_addrs vs)"
  by (auto simp: AddValidator_def valset_addrs_def validator_New_def split: if_splits)

lemma AddValidator_wf:
  "valset_wf kec vs \<Longrightarrow> AddValidator kec ref a vs = (b, vs') \<Longrightarrow> valset_wf kec vs'"
  by (auto simp: AddValidator_def valset_wf_def validator_New_def image_iff split: if_splits)

lemma RemoveValidator_addrs:
  assumes "valset_wf kec vs" and "RemoveValidator a vs = (b, vs')"
  shows "b = (a \<in> valset_addrs vs) \<and> valset_addrs vs' = valset_addrs vs - {a}"
proof (cases "removeFirst a (vs_validators vs)")
  case None
  with assms show ?thesis
    by (auto simp: RemoveValidator_def valset_addrs_def removeFirst_None)
next
  case (Some ws)
  then obtain xs v ys where split: "vs_validators vs = xs @ v # ys" "ws = xs @ ys" "v_address v = a"
    by (rule removeFirst_Some)
  have "a \<notin> v_address ` set (xs @ ys)"
    using assms(1) split by (auto simp: valset_wf_def)
  moreover have "b" "vs_validators vs' = xs @ ys"
    using assms(2) Some split(2) by (auto simp: RemoveValidator_def)
  ultimately show ?thesis
    unfolding valset_addrs_def split(1) using split(3) by auto
qed

lemma RemoveValidator_wf:
  assumes "valset_wf kec vs" and "RemoveValidator a vs = (b, vs')"
  shows "valset_wf kec vs'"
proof (cases "removeFirst a (vs_validators vs)")
  case None
  with assms show ?thesis
    by (simp add: RemoveValidator_def)
next
  case (Some ws)
  then obtain xs v ys where split: "vs_validators vs = xs @ v # ys" "ws = xs @ ys"
    by (rule removeFirst_Some)
  have "vs_validators vs' = xs @ ys"
    using assms(2) Some split(2) by (auto simp: RemoveValidator_def)
  then show ?thesis
    using assms(1) unfolding valset_wf_def split(1) by (simp add: sorted_append)
qed

lemma valset_wf_card: "valset_wf kec vs \<Longrightarrow> card (valset_addrs vs) = valset_Size vs"
  using distinct_card [of "map v_address (vs_validators vs)"]
  by (simp add: valset_Size_def valset_addrs_def valset_wf_def)

lemma finite_valset_addrs [simp]: "finite (valset_addrs vs)"
  by (simp add: valset_addrs_def)

lemma newDefaultSet_validators:
  "vs_validators (newDefaultSet kec ref addrs policy) =
     sortValidators kec (map2 validator_New [ref..<ref + length addrs] addrs)"
  by (simp add: newDefaultSet_def Let_def)

lemma map_address_map2_New:
  "length refs = length addrs \<Longrightarrow> map v_address (map2 validator_New refs addrs) = addrs"
  by (induction refs addrs rule: list_induct2) (auto simp: validator_New_def)

lemma newDefaultSet_addrs [simp]: "valset_addrs (newDefaultSet kec ref addrs policy) = set addrs"
  using arg_cong [OF map_address_map2_New [of "[ref..<ref + length addrs]" addrs], of set]
  by (simp only: valset_addrs_def newDefaultSet_validators set_sortValidators list.set_map length_upt
      diff_add_inverse simp_thms)

lemma newDefaultSet_Size [simp]: "valset_Size (newDefaultSet kec ref addrs policy) = length addrs"
  by (simp add: valset_Size_def newDefaultSet_validators)

lemma newDefaultSet_wf:
  "distinct addrs \<Longrightarrow> valset_wf kec (newDefaultSet kec ref addrs policy)"
  using map_address_map2_New [of "[ref..<ref + length addrs]" addrs]
  by (simp add: valset_wf_def newDefaultSet_validators)

lemma valset_Copy_addrs [simp]: "valset_addrs (valset_Copy kec ref vs) = valset_addrs vs"
  by (simp add: valset_Copy_def NewSet_def) (simp add: valset_addrs_def)

lemma valset_Copy_wf: "valset_wf kec vs \<Longrightarrow> valset_wf kec (valset_Copy kec ref vs)"
  by (simp add: valset_Copy_def NewSet_def newDefaultSet_wf valset_wf_def [of kec vs])

lemma valset_Copy_Size [simp]: "valset_Size (valset_Copy kec ref vs) = valset_Size vs"
  by (simp add: valset_Copy_def NewSet_def valset_Size_def [of vs])

section \<open>Proposer selection\<close>

lemma valset_wf_distinct:
  "distinct (map v_address (vs_validators vs)) \<Longrightarrow> distinct (vs_validators vs)"
  by (simp add: distinct_map)

text \<open>
  Without wrap-around the pick is an index of natural numbers: the position of the last
  proposer, plus the round (plus one under round robin), modulo the size.
\<close>

lemma pick_nat:
  assumes "k < 2 ^ 64" and "0 < n" and "n < 2 ^ 64"
  shows "(of_nat k :: u64) mod of_nat n = of_nat (k mod n)"
proof -
  have "k mod n < 2 ^ 64"
    using assms(2,3) by (meson mod_less_divisor order_less_trans)
  then show ?thesis
    using assms
    by (simp only: word_unat_eq_iff unat_mod_distrib unat_of_nat) (simp add: take_bit_nat_eq_self)
qed

lemma calcSeed_nth:
  assumes "distinct (map v_address (vs_validators vs))" and "j < valset_Size vs"
  shows "calcSeed vs (v_address (vs_validators vs ! j)) (of_nat r) = of_nat (j + r)"
  using assms findAddress_nth [of "vs_validators vs" j 0]
  by (simp add: calcSeed_def GetByAddress_def valset_Size_def)

lemma roundRobinProposer_nth:
  assumes "distinct (map v_address (vs_validators vs))" and "j < valset_Size vs"
    and "v_address (vs_validators vs ! j) \<noteq> 0"
    and "valset_Size vs < 2 ^ 64" and "j + r + 1 < 2 ^ 64"
  shows "roundRobinProposer vs (v_address (vs_validators vs ! j)) (of_nat r) =
    Some (vs_validators vs ! ((j + r + 1) mod valset_Size vs))"
proof -
  have "calcSeed vs (v_address (vs_validators vs ! j)) (of_nat r) + 1 = of_nat (j + r + 1)"
    using calcSeed_nth [OF assms(1,2), of r] by simp
  moreover have "(j + r + 1) mod valset_Size vs < valset_Size vs"
    using assms(2) by simp
  moreover have "valset_Size vs \<noteq> 0"
    using assms(2) by simp
  ultimately show ?thesis
    using assms(3-5) pick_nat [of "j + r + 1" "valset_Size vs"]
      GetByIndex_nat [of "(j + r + 1) mod valset_Size vs" vs]
    unfolding roundRobinProposer_def emptyAddress_def Let_def by (simp add: add.commute)
qed

lemma stickyProposer_nth:
  assumes "distinct (map v_address (vs_validators vs))" and "j < valset_Size vs"
    and "v_address (vs_validators vs ! j) \<noteq> 0"
    and "valset_Size vs < 2 ^ 64" and "j + r < 2 ^ 64"
  shows "stickyProposer vs (v_address (vs_validators vs ! j)) (of_nat r) =
    Some (vs_validators vs ! ((j + r) mod valset_Size vs))"
proof -
  have "(j + r) mod valset_Size vs < valset_Size vs"
    using assms(2) by simp
  then show ?thesis
    using assms pick_nat [of "j + r" "valset_Size vs"] GetByIndex_nat [of "(j + r) mod valset_Size vs" vs]
      calcSeed_nth [OF assms(1,2), of r]
    by (simp add: stickyProposer_def emptyAddress_def Let_def)
qed

lemma bij_betw_shift_mod:
  assumes "0 < (n::nat)"
  shows "bij_betw (\<lambda>r. (c + r) mod n) {0..<n} {0..<n}"
proof (rule bij_betwI')
  fix x y
  assume xy: "x \<in> {0..<n}" "y \<in> {0..<n}"
  have "(int c + int x) mod int n = (int c + int y) mod int n \<longleftrightarrow> int x mod int n = int y mod int n"
    by (simp add: mod_eq_dvd_iff)
  then have "(c + x) mod n = (c + y) mod n \<longleftrightarrow> x mod n = y mod n"
    by (metis of_nat_add of_nat_eq_iff of_nat_mod)
  with xy show "((c + x) mod n = (c + y) mod n) = (x = y)"
    by simp
next
  fix x
  assume "x \<in> {0..<n}"
  with assms show "(c + x) mod n \<in> {0..<n}"
    by simp
next
  fix y
  assume y: "y \<in> {0..<n}"
  let ?x = "(y + (n - c mod n)) mod n"
  have "(c + ?x) mod n = (c mod n + (n - c mod n) + y) mod n"
    by (metis add.assoc add.commute mod_add_left_eq mod_add_right_eq)
  also have "\<dots> = y"
    using assms y by simp
  finally show "\<exists>x \<in> {0..<n}. y = (c + x) mod n"
    using assms by (metis atLeastLessThan_iff le0 mod_less_divisor)
qed

lemma bij_betw_ex1:
  assumes "bij_betw f A B" and "y \<in> B"
  shows "\<exists>!x. x \<in> A \<and> f x = y"
  using assms unfolding bij_betw_def inj_on_def by blast

section \<open>The fault bound and quorums\<close>

definition is_quorum :: "defaultSet \<Rightarrow> address set \<Rightarrow> bool" where
  "is_quorum vs Q \<longleftrightarrow> Q \<subseteq> valset_addrs vs \<and> int (card Q) > 2 * valset_F vs"

definition valset_optimal :: "defaultSet \<Rightarrow> bool" where
  "valset_optimal vs \<longleftrightarrow> distinct (map v_address (vs_validators vs)) \<and> valset_Size vs mod 3 = 1"

lemma ceiling_third:
  fixes n :: int
  shows "0 < n \<Longrightarrow> 0 \<le> (n + 2) div 3 - 1" "0 < n \<Longrightarrow> 3 * ((n + 2) div 3 - 1) < n"
    "n \<le> 3 * ((n + 2) div 3 - 1) + 3" "n mod 3 = 1 \<Longrightarrow> n = 3 * ((n + 2) div 3 - 1) + 1"
    "n mod 3 \<noteq> 1 \<Longrightarrow> 3 * ((n + 2) div 3 - 1) + 2 \<le> n"
  by presburger+

lemma F_bounds:
  "0 < valset_Size vs \<Longrightarrow> 0 \<le> valset_F vs"
  "0 < valset_Size vs \<Longrightarrow> 3 * valset_F vs < int (valset_Size vs)"
  "int (valset_Size vs) \<le> 3 * valset_F vs + 3"
  unfolding valset_F_def using ceiling_third [of "int (valset_Size vs)"] by auto

lemma valset_optimal_size: "valset_optimal vs \<Longrightarrow> int (valset_Size vs) = 3 * valset_F vs + 1"
proof -
  assume "valset_optimal vs"
  then have "int (valset_Size vs) mod 3 = 1"
    unfolding valset_optimal_def by (metis of_nat_1 of_nat_mod of_nat_numeral)
  then show ?thesis
    unfolding valset_F_def by (rule ceiling_third(4))
qed

lemma card_valset_addrs:
  "distinct (map v_address (vs_validators vs)) \<Longrightarrow> card (valset_addrs vs) = valset_Size vs"
  using distinct_card [of "map v_address (vs_validators vs)"]
  by (simp add: valset_Size_def valset_addrs_def)

text \<open>
  What the consensus argument needs of a quorum system: any two quorums share more nodes
  than can be faulty.
\<close>

locale quorum_system =
  fixes nodes :: "'s \<Rightarrow> 'a set"
    and quorum :: "'s \<Rightarrow> 'a set \<Rightarrow> bool"
    and faults :: "'s \<Rightarrow> int"
    and sound :: "'s \<Rightarrow> bool"
  assumes quorum_nodes: "quorum s Q \<Longrightarrow> Q \<subseteq> nodes s"
    and finite_nodes: "finite (nodes s)"
    and quorum_overlap: "sound s \<Longrightarrow> quorum s Q \<Longrightarrow> quorum s Q' \<Longrightarrow> int (card (Q \<inter> Q')) > faults s"
begin

lemma common_correct_node:
  assumes "sound s" and "quorum s Q" and "quorum s Q'" and "int (card (B \<inter> nodes s)) \<le> faults s"
  obtains a where "a \<in> Q" "a \<in> Q'" "a \<notin> B"
proof -
  have "\<not> Q \<inter> Q' \<subseteq> B \<inter> nodes s"
  proof
    assume "Q \<inter> Q' \<subseteq> B \<inter> nodes s"
    then have "card (Q \<inter> Q') \<le> card (B \<inter> nodes s)"
      using finite_nodes by (intro card_mono) auto
    with assms quorum_overlap [OF assms(1-3)] show False
      by linarith
  qed
  then show ?thesis
    using quorum_nodes [OF assms(2)] that by blast
qed

text \<open>Nodes outside \<open>B\<close> vote for one value only, so two quorums cannot back two values.\<close>

lemma quorums_agree:
  assumes "sound s" and "quorum s Q" and "quorum s Q'" and "int (card (B \<inter> nodes s)) \<le> faults s"
    and "\<And>a. a \<in> Q \<Longrightarrow> voted a v" and "\<And>a. a \<in> Q' \<Longrightarrow> voted a w"
    and "\<And>a x y. a \<notin> B \<Longrightarrow> voted a x \<Longrightarrow> voted a y \<Longrightarrow> x = y"
  shows "v = w"
proof -
  obtain a where "a \<in> Q" "a \<in> Q'" "a \<notin> B"
    using assms(1-4) by (rule common_correct_node)
  then show ?thesis
    using assms(5-7) by blast
qed

end

lemma optimal_overlap:
  assumes "valset_optimal vs" and "is_quorum vs Q" and "is_quorum vs Q'"
  shows "int (card (Q \<inter> Q')) > valset_F vs"
proof -
  have fin: "finite Q" "finite Q'"
    using assms(2,3) by (auto simp: is_quorum_def intro: finite_subset)
  have "card (Q \<union> Q') \<le> card (valset_addrs vs)"
    using assms(2,3) by (intro card_mono) (auto simp: is_quorum_def)
  then have "int (card (Q \<union> Q')) \<le> 3 * valset_F vs + 1"
    using assms(1) valset_optimal_size [OF assms(1)] card_valset_addrs [of vs]
    by (simp add: valset_optimal_def)
  moreover have "int (card Q) + int (card Q') = int (card (Q \<union> Q')) + int (card (Q \<inter> Q'))"
    using card_Un_Int [OF fin] by simp
  ultimately show ?thesis
    using assms(2,3) by (simp add: is_quorum_def)
qed

interpretation vq: quorum_system valset_addrs is_quorum valset_F valset_optimal
  by unfold_locales (auto simp: is_quorum_def optimal_overlap)

text \<open>
  The other direction: when the size is not of the form \<open>3 * f + 1\<close>, the first and the last
  \<open>2 * F + 1\<close> validators are quorums that share at most \<open>F\<close> nodes.
\<close>

lemma valset_at_inject:
  assumes "distinct (map v_address (vs_validators vs))" and "i < valset_Size vs" "j < valset_Size vs"
  shows "v_address (vs_validators vs ! i) = v_address (vs_validators vs ! j) \<longleftrightarrow> i = j"
  using nth_eq_iff_index_eq [OF assms(1), of i j] assms(2,3) by (simp add: valset_Size_def)

lemma card_addrs_slice:
  assumes "distinct (map v_address (vs_validators vs))" and "I \<subseteq> {0..<valset_Size vs}"
  shows "card ((\<lambda>i. v_address (vs_validators vs ! i)) ` I) = card I"
proof (rule card_image)
  show "inj_on (\<lambda>i. v_address (vs_validators vs ! i)) I"
    using valset_at_inject [OF assms(1)] assms(2) by (auto simp: inj_on_def subset_iff)
qed

lemma suboptimal_overlap:
  assumes dist: "distinct (map v_address (vs_validators vs))"
    and size: "0 < valset_Size vs" "valset_Size vs mod 3 \<noteq> 1"
  shows "\<exists>Q Q'. is_quorum vs Q \<and> is_quorum vs Q' \<and> int (card (Q \<inter> Q')) \<le> valset_F vs"
proof -
  let ?n = "valset_Size vs"
  let ?at = "\<lambda>i. v_address (vs_validators vs ! i)"
  define q where "q = nat (2 * valset_F vs + 1)"
  have "int ?n mod 3 \<noteq> 1"
    using size(2) by (metis of_nat_1 of_nat_eq_iff of_nat_mod of_nat_numeral)
  then have f: "0 \<le> valset_F vs" "3 * valset_F vs + 2 \<le> int ?n"
    using F_bounds(1) [OF size(1)] ceiling_third(5) [of "int ?n"] by (auto simp: valset_F_def)
  have q: "int q = 2 * valset_F vs + 1" "q \<le> ?n"
    using f by (auto simp: q_def)
  let ?I = "{0..<q}" and ?J = "{?n - q..<?n}"
  have sub: "?I \<subseteq> {0..<?n}" "?J \<subseteq> {0..<?n}"
    using q(2) by auto
  have cards: "card (?at ` ?I) = q" "card (?at ` ?J) = q"
    using card_addrs_slice [OF dist sub(1)] card_addrs_slice [OF dist sub(2)] q(2) by auto
  have addrs: "?at ` ?I \<subseteq> valset_addrs vs" "?at ` ?J \<subseteq> valset_addrs vs"
    using sub by (auto simp: valset_addrs_def valset_Size_def)
  have "?at ` ?I \<inter> ?at ` ?J = ?at ` (?I \<inter> ?J)"
    using sub valset_at_inject [OF dist]
    by (intro inj_on_image_Int [symmetric, of _ "{0..<?n}"]) (auto simp: inj_on_def)
  then have "card (?at ` ?I \<inter> ?at ` ?J) = card (?I \<inter> ?J)"
    using card_addrs_slice [OF dist, of "?I \<inter> ?J"] sub by auto
  also have "?I \<inter> ?J = {?n - q..<q}"
    using q(2) by auto
  finally have "int (card (?at ` ?I \<inter> ?at ` ?J)) \<le> valset_F vs"
    using q f by auto
  moreover have "is_quorum vs (?at ` ?I)" "is_quorum vs (?at ` ?J)"
    using cards addrs q(1) by (auto simp: is_quorum_def)
  ultimately show ?thesis
    by blast
qed

section \<open>Properties\<close>

text \<open>Sets of \<open>n\<close> validators with the addresses \<open>1, \<dots>, n\<close>, for concrete instances.\<close>

definition sample_set :: "nat \<Rightarrow> defaultSet" where
  "sample_set n =
     \<lparr>vs_validators = map (\<lambda>i. validator_New i (of_nat (Suc i))) [0..<n], vs_policy = RoundRobin,
      vs_proposer = None, vs_selector = roundRobinProposer_sel\<rparr>"

text \<open>
  C6: two sets of more than \<open>2 * F\<close> validators, the size the core waits for before it commits,
  always share more than \<open>F\<close> validators exactly when the number of validators is
  \<open>3 * f + 1\<close>.  With any other size there are two commit quorums whose common members can
  all be faulty.
\<close>

theorem quorum_overlap_iff:
  assumes "distinct (map v_address (vs_validators vs))" and "0 < valset_Size vs"
  shows "(\<forall>Q Q'. is_quorum vs Q \<and> is_quorum vs Q' \<longrightarrow> valset_F vs < int (card (Q \<inter> Q'))) \<longleftrightarrow>
    valset_Size vs mod 3 = 1"
proof
  assume "\<forall>Q Q'. is_quorum vs Q \<and> is_quorum vs Q' \<longrightarrow> valset_F vs < int (card (Q \<inter> Q'))"
  then show "valset_Size vs mod 3 = 1"
    using suboptimal_overlap [OF assms] by force
next
  assume "valset_Size vs mod 3 = 1"
  with assms(1) have "valset_optimal vs"
    by (simp add: valset_optimal_def)
  then show "\<forall>Q Q'. is_quorum vs Q \<and> is_quorum vs Q' \<longrightarrow> valset_F vs < int (card (Q \<inter> Q'))"
    using vq.quorum_overlap by blast
qed

theorem quorum_overlap_iff_witness:
  "valset_Size (sample_set 6) = 6 \<and>
   \<not> (\<forall>Q Q'. is_quorum (sample_set 6) Q \<and> is_quorum (sample_set 6) Q' \<longrightarrow>
        valset_F (sample_set 6) < int (card (Q \<inter> Q')))"
proof -
  have "distinct (map v_address (vs_validators (sample_set 6)))" "valset_Size (sample_set 6) = 6"
    by code_simp+
  then show ?thesis
    using quorum_overlap_iff [of "sample_set 6"] by simp
qed

text \<open>
  C7: round-robin selection is fair.  From any last proposer of the set, the rounds
  \<open>0, \<dots>, n - 1\<close> pick every validator exactly once, as long as the counter does not wrap.
\<close>

theorem roundRobin_fair:
  assumes "distinct (map v_address (vs_validators vs))" and "j < valset_Size vs"
    and "v_address (vs_validators vs ! j) \<noteq> 0" and "2 * valset_Size vs < 2 ^ 64"
    and "v \<in> set (vs_validators vs)"
  shows "\<exists>!r. r < valset_Size vs \<and>
    roundRobinProposer vs (v_address (vs_validators vs ! j)) (of_nat r) = Some v"
proof -
  let ?n = "valset_Size vs"
  let ?pick = "\<lambda>r. (Suc j + r) mod ?n"
  have pick: "roundRobinProposer vs (v_address (vs_validators vs ! j)) (of_nat r) =
    Some (vs_validators vs ! ?pick r)" if "r < ?n" for r
    using roundRobinProposer_nth [OF assms(1-3), of r] assms(2,4) that by simp
  obtain i where i: "i < ?n" "v = vs_validators vs ! i"
    using assms(5) by (auto simp: in_set_conv_nth valset_Size_def)
  have "?pick r < length (vs_validators vs)" for r
    using assms(2) by (simp add: valset_Size_def [symmetric])
  then have inj: "vs_validators vs ! ?pick r = v \<longleftrightarrow> ?pick r = i" for r
    using nth_eq_iff_index_eq [OF valset_wf_distinct [OF assms(1)], of "?pick r" i] i
    by (simp only: valset_Size_def)
  have "bij_betw ?pick {0..<?n} {0..<?n}"
    using assms(2) by (intro bij_betw_shift_mod) simp
  then have "\<exists>!r. r \<in> {0..<?n} \<and> ?pick r = i"
    by (rule bij_betw_ex1) (simp add: i(1))
  moreover have "r < ?n \<and> roundRobinProposer vs (v_address (vs_validators vs ! j)) (of_nat r) = Some v \<longleftrightarrow>
    r \<in> {0..<?n} \<and> ?pick r = i" for r
    using pick [of r] inj [of r] by auto
  ultimately show ?thesis
    by simp
qed

theorem roundRobin_fair_witness:
  "\<exists>!r. r < 4 \<and> roundRobinProposer (sample_set 4) (v_address (vs_validators (sample_set 4) ! 1)) (of_nat r)
     = Some (validator_New 0 1)"
proof -
  have "distinct (map v_address (vs_validators (sample_set 4)))" "valset_Size (sample_set 4) = 4"
    "v_address (vs_validators (sample_set 4) ! 1) \<noteq> 0"
    "validator_New 0 1 \<in> set (vs_validators (sample_set 4))"
    by code_simp+
  then show ?thesis
    using roundRobin_fair [of "sample_set 4" 1 "validator_New 0 1"] by simp
qed

text \<open>
  C8: the sorted validator slice implements a set.  Adding and removing an address report
  whether the set changes, change the set of addresses by exactly that address, and keep
  the slice sorted and free of duplicates; a copy holds the same set.
\<close>

theorem validator_set_refines_set:
  assumes "valset_wf kec vs"
  shows "fst (AddValidator kec ref a vs) = (a \<notin> valset_addrs vs) \<and>
    valset_addrs (snd (AddValidator kec ref a vs)) = insert a (valset_addrs vs) \<and>
    valset_wf kec (snd (AddValidator kec ref a vs)) \<and>
    fst (RemoveValidator a vs) = (a \<in> valset_addrs vs) \<and>
    valset_addrs (snd (RemoveValidator a vs)) = valset_addrs vs - {a} \<and>
    valset_wf kec (snd (RemoveValidator a vs)) \<and>
    valset_addrs (valset_Copy kec ref vs) = valset_addrs vs \<and> valset_wf kec (valset_Copy kec ref vs)"
  using AddValidator_addrs [of kec ref a vs] RemoveValidator_addrs [OF assms, of a]
    AddValidator_wf [OF assms, of ref a] RemoveValidator_wf [OF assms, of a] valset_Copy_wf [OF assms]
  by (cases "AddValidator kec ref a vs"; cases "RemoveValidator a vs") simp

theorem validator_set_refines_set_witness:
  "valset_addrs (snd (RemoveValidator 5 (newDefaultSet (\<lambda>_. 0) 0 [3, 5] RoundRobin))) = {3}"
proof -
  have "valset_wf (\<lambda>_. 0) (newDefaultSet (\<lambda>_. 0) 0 [3, 5] RoundRobin)"
    by (rule newDefaultSet_wf) simp
  then show ?thesis
    using validator_set_refines_set [of "\<lambda>_. 0" "newDefaultSet (\<lambda>_. 0) 0 [3, 5] RoundRobin" 0 5]
    by auto
qed

end
