(* ===== verification/BFT_Types.thy ===== *)
theory BFT_Types
  imports Block_Types Validator_Set
begin

text \<open>
  \<^verbatim>\<open>consensus/dbft/types.go\<close>, \<^verbatim>\<open>utils.go\<close>, \<^verbatim>\<open>config.go\<close>, \<^verbatim>\<open>core/types.go\<close> and \<^verbatim>\<open>core/errors.go\<close>: views,
  subjects, proposals and signed messages with their RLP forms.  A proposal is a block, the only
  type that \<^verbatim>\<open>Preprepare.DecodeRLP\<close> reads.  The decoder allocates every pointer of these
  types, so a view and its two integers are never nil here.
\<close>

datatype bft_error =
    errInconsistentSubject | errNotFromProposer | errIgnored | errFutureMessage | errOldMessage
  | errInvalidMessage | errFailedDecodePreprepare | errFailedDecodePrepare | errFailedDecodeCommit
  | errFailedDecodeMessageSet | ErrUnauthorizedAddress | ErrStoppedEngine | ErrStartedEngine
  | ErrFutureBlock | err_rlp rlp_error | err_backend string

record Config =
  cfg_RequestTimeout :: u64
  cfg_BlockPeriod :: u64
  cfg_ProposerPolicy :: ProposerPolicy
  cfg_Epoch :: u64
  cfg_Validators :: "address list"

definition DefaultConfig :: Config where
  "DefaultConfig =
     \<lparr>cfg_RequestTimeout = 10000, cfg_BlockPeriod = 3, cfg_ProposerPolicy = RoundRobin, cfg_Epoch = 30000,
      cfg_Validators = []\<rparr>"

section \<open>Views\<close>

record View =
  vw_Round :: int
  vw_Sequence :: int

definition View_Cmp :: "View \<Rightarrow> View \<Rightarrow> int" where
  "View_Cmp v y =
     (if go_cmp (vw_Sequence v) (vw_Sequence y) \<noteq> 0 then go_cmp (vw_Sequence v) (vw_Sequence y)
      else if go_cmp (vw_Round v) (vw_Round y) \<noteq> 0 then go_cmp (vw_Round v) (vw_Round y)
      else 0)"

definition View_EncodeRLP :: "View \<Rightarrow> rval" where
  "View_EncodeRLP v = VEncoder (VSlice False (map rv_any
     [VBigIntPtr (Some (vw_Round v)), VBigIntPtr (Some (vw_Sequence v))]))"

definition View_type :: rtype where
  "View_type = TDecoder (TStruct [TBigInt, TBigInt])"

definition View_of_rval :: "rval \<Rightarrow> View" where
  "View_of_rval v = (let f = rv_fields v in \<lparr>vw_Round = rv_int (f ! 0), vw_Sequence = rv_int (f ! 1)\<rparr>)"

section \<open>Subjects and proposals\<close>

record Request =
  req_Proposal :: "Block option"

record Preprepare =
  pp_View :: View
  pp_Proposal :: Block

record Subject =
  sub_View :: View
  sub_Digest :: hash

definition Preprepare_EncodeRLP :: "Preprepare \<Rightarrow> rval" where
  "Preprepare_EncodeRLP b = VEncoder (VSlice False (map rv_any
     [View_EncodeRLP (pp_View b), Block_EncodeRLP (pp_Proposal b)]))"

definition Preprepare_type :: rtype where
  "Preprepare_type = TDecoder (TStruct [View_type, Block_type])"

definition Preprepare_of_rval :: "rval \<Rightarrow> Preprepare" where
  "Preprepare_of_rval v =
     (let f = rv_fields v in \<lparr>pp_View = View_of_rval (f ! 0), pp_Proposal = Block_of_rval (f ! 1)\<rparr>)"

definition Subject_EncodeRLP :: "Subject \<Rightarrow> rval" where
  "Subject_EncodeRLP b = VEncoder (VSlice False (map rv_any
     [View_EncodeRLP (sub_View b), rv_hash (sub_Digest b)]))"

definition Subject_type :: rtype where
  "Subject_type = TDecoder (TStruct [View_type, TByteArray 32])"

definition Subject_of_rval :: "rval \<Rightarrow> Subject" where
  "Subject_of_rval v =
     (let f = rv_fields v in \<lparr>sub_View = View_of_rval (f ! 0), sub_Digest = rv_word (f ! 1)\<rparr>)"

section \<open>Messages\<close>

datatype State = StateAcceptRequest | StatePreprepared | StatePrepared | StateCommitted

fun State_num :: "State \<Rightarrow> u64" where
  "State_num StateAcceptRequest = 0"
| "State_num StatePreprepared = 1"
| "State_num StatePrepared = 2"
| "State_num StateCommitted = 3"

definition State_Cmp :: "State \<Rightarrow> State \<Rightarrow> int" where
  "State_Cmp s y =
     (if State_num s < State_num y then -1 else if State_num s > State_num y then 1 else 0)"

definition msgPreprepare :: u64 where "msgPreprepare = 0"
definition msgPrepare :: u64 where "msgPrepare = 1"
definition msgCommit :: u64 where "msgCommit = 2"
definition msgRoundChange :: u64 where "msgRoundChange = 3"
definition msgAll :: u64 where "msgAll = 4"

lemmas msg_codes = msgPreprepare_def msgPrepare_def msgCommit_def msgRoundChange_def msgAll_def

record message =
  msg_Code :: u64
  msg_Msg :: bytes
  msg_Address :: address
  msg_Signature :: bytes
  msg_CommittedSeal :: bytes

definition message_EncodeRLP :: "message \<Rightarrow> rval" where
  "message_EncodeRLP m = VEncoder (VSlice False (map rv_any
     [VUint (msg_Code m), VBytes (msg_Msg m), rv_address (msg_Address m), VBytes (msg_Signature m),
      VBytes (msg_CommittedSeal m)]))"

definition message_type :: rtype where
  "message_type = TDecoder (TStruct [TUint 64, TByteSlice, TByteArray 20, TByteSlice, TByteSlice])"

definition message_of_rval :: "rval \<Rightarrow> message" where
  "message_of_rval v = (let f = rv_fields v in
     \<lparr>msg_Code = rv_uint (f ! 0), msg_Msg = rv_bytes (f ! 1), msg_Address = rv_word (f ! 2),
      msg_Signature = rv_bytes (f ! 3), msg_CommittedSeal = rv_bytes (f ! 4)\<rparr>)"

definition bft_Encode :: "rval \<Rightarrow> (bft_error + bytes) option" where
  "bft_Encode val = map_option (map_sum err_rlp id) (EncodeToBytes val)"

definition Payload :: "message \<Rightarrow> (bft_error + bytes) option" where
  "Payload m = bft_Encode (message_EncodeRLP m)"

definition PayloadNoSig :: "message \<Rightarrow> (bft_error + bytes) option" where
  "PayloadNoSig m = bft_Encode (message_EncodeRLP
     \<lparr>msg_Code = msg_Code m, msg_Msg = msg_Msg m, msg_Address = msg_Address m, msg_Signature = [],
      msg_CommittedSeal = msg_CommittedSeal m\<rparr>)"

definition FromPayload ::
  "bytes \<Rightarrow> (bytes \<Rightarrow> bytes \<Rightarrow> bft_error + address) option \<Rightarrow> (bft_error + message) option" where
  "FromPayload b validateFn = do {
     d \<leftarrow> DecodeBytes message_type b;
     (case d of
        Inl err \<Rightarrow> Some (Inl (err_rlp err))
      | Inr v \<Rightarrow>
          let m = message_of_rval v in
          (case validateFn of
             None \<Rightarrow> Some (Inr m)
           | Some validate \<Rightarrow> do {
               p \<leftarrow> PayloadNoSig m;
               (case p of
                  Inl err \<Rightarrow> Some (Inl err)
                | Inr payload \<Rightarrow>
                    Some (case validate payload (msg_Signature m) of
                            Inl err \<Rightarrow> Inl err
                          | Inr _ \<Rightarrow> Inr m))
             }))
   }"

definition Decode_Subject :: "message \<Rightarrow> (bft_error + Subject) option" where
  "Decode_Subject m = map_option (map_sum err_rlp Subject_of_rval) (DecodeBytes Subject_type (msg_Msg m))"

definition Decode_Preprepare :: "message \<Rightarrow> (bft_error + Preprepare) option" where
  "Decode_Preprepare m =
     map_option (map_sum err_rlp Preprepare_of_rval) (DecodeBytes Preprepare_type (msg_Msg m))"

section \<open>Signatures\<close>

text \<open>
  The recovery of a signer from a hash and a signature, \<^verbatim>\<open>crypto.SigToPub\<close> followed by
  \<^verbatim>\<open>crypto.PubkeyToAddress\<close>, is the argument \<open>rcv\<close>.
\<close>

type_synonym sig_recover = "hash \<Rightarrow> bytes \<Rightarrow> string + address"

definition GetSignatureAddress :: "keccak \<Rightarrow> sig_recover \<Rightarrow> bytes \<Rightarrow> bytes \<Rightarrow> bft_error + address" where
  "GetSignatureAddress kec rcv dat sig = map_sum err_backend id (rcv (kec dat) sig)"

definition CheckValidatorSignature ::
  "keccak \<Rightarrow> sig_recover \<Rightarrow> defaultSet \<Rightarrow> bytes \<Rightarrow> bytes \<Rightarrow> bft_error + address" where
  "CheckValidatorSignature kec rcv valSet dat sig =
     (case GetSignatureAddress kec rcv dat sig of
        Inl err \<Rightarrow> Inl err
      | Inr signer \<Rightarrow>
          (case snd (GetByAddress valSet signer) of
             Some val \<Rightarrow> Inr (v_address val)
           | None \<Rightarrow> Inl ErrUnauthorizedAddress))"

section \<open>Round trips\<close>

definition view_wf :: "View \<Rightarrow> bool" where
  "view_wf v \<longleftrightarrow> 0 \<le> vw_Round v \<and> 0 \<le> vw_Sequence v"

definition View_rval :: "View \<Rightarrow> rval" where
  "View_rval v = VEncoder (VStruct [VBigIntPtr (Some (vw_Round v)), VBigIntPtr (Some (vw_Sequence v))])"

definition Subject_rval :: "Subject \<Rightarrow> rval" where
  "Subject_rval b = VEncoder (VStruct [View_rval (sub_View b), rv_hash (sub_Digest b)])"

definition Preprepare_rval :: "Preprepare \<Rightarrow> rval" where
  "Preprepare_rval b = VEncoder (VStruct [View_rval (pp_View b), Block_rval (pp_Proposal b)])"

definition message_rval :: "message \<Rightarrow> rval" where
  "message_rval m = VEncoder (VStruct
     [VUint (msg_Code m), VBytes (msg_Msg m), rv_address (msg_Address m), VBytes (msg_Signature m),
      VBytes (msg_CommittedSeal m)])"

lemma rlp_spec_View [simp]: "rlp_spec (View_EncodeRLP v) = rlp_spec (View_rval v)"
  by (simp only: View_EncodeRLP_def View_rval_def rlp_spec.simps(2) rlp_spec_any)

lemma rlp_spec_Subject: "rlp_spec (Subject_EncodeRLP b) = rlp_spec (Subject_rval b)"
  by (simp add: Subject_EncodeRLP_def Subject_rval_def)

lemma rlp_spec_Preprepare: "rlp_spec (Preprepare_EncodeRLP b) = rlp_spec (Preprepare_rval b)"
  by (simp add: Preprepare_EncodeRLP_def Preprepare_rval_def rlp_spec_Block)

lemma rlp_spec_message: "rlp_spec (message_EncodeRLP m) = rlp_spec (message_rval m)"
  by (simp only: message_EncodeRLP_def message_rval_def rlp_spec.simps(2) rlp_spec_any)

lemma has_type_View: "view_wf v \<Longrightarrow> has_type View_type (View_rval v)"
  by (simp add: View_type_def View_rval_def has_type_iff(2,3,13) view_wf_def)

lemma has_type_Subject: "view_wf (sub_View b) \<Longrightarrow> has_type Subject_type (Subject_rval b)"
  by (simp add: Subject_type_def Subject_rval_def has_type_iff(2,13) has_type_View)

lemma has_type_Preprepare:
  "view_wf (pp_View b) \<Longrightarrow> block_wf (pp_Proposal b) \<Longrightarrow> has_type Preprepare_type (Preprepare_rval b)"
  by (simp add: Preprepare_type_def Preprepare_rval_def has_type_iff(2,13) has_type_View has_type_Block)

lemma has_type_message: "has_type message_type (message_rval m)"
  by (simp add: message_type_def message_rval_def has_type_iff(2,8,13))

lemma View_inverse [simp]: "View_of_rval (View_rval v) = v"
  by (simp add: View_of_rval_def View_rval_def rv_int_def)

lemma Subject_inverse [simp]: "Subject_of_rval (Subject_rval b) = b"
  by (simp add: Subject_of_rval_def Subject_rval_def)

lemma Preprepare_inverse [simp]:
  "Preprepare_of_rval (Preprepare_rval b) = b\<lparr>pp_Proposal := block_decoded (pp_Proposal b)\<rparr>"
  by (simp add: Preprepare_of_rval_def Preprepare_rval_def)

lemma message_inverse [simp]: "message_of_rval (message_rval m) = m"
  by (simp add: message_of_rval_def message_rval_def)

lemma BFT_encodable:
  "view_wf v \<Longrightarrow> rlp_encodable (View_EncodeRLP v)"
  "view_wf (sub_View b) \<Longrightarrow> rlp_encodable (Subject_EncodeRLP b)"
  "view_wf (pp_View p) \<Longrightarrow> block_wf (pp_Proposal p) \<Longrightarrow> rlp_encodable (Preprepare_EncodeRLP p)"
  "rlp_encodable (message_EncodeRLP m)"
  by (simp_all add: View_EncodeRLP_def Subject_EncodeRLP_def Preprepare_EncodeRLP_def message_EncodeRLP_def
      view_wf_def Block_encodable)

lemma Decode_Subject_spec:
  assumes "view_wf (sub_View b)" and "length (rlp_spec (Subject_rval b)) < 2 ^ 64"
  shows "bft_Encode (Subject_EncodeRLP b) = Some (Inr (rlp_spec (Subject_rval b)))"
    and "msg_Msg m = rlp_spec (Subject_rval b) \<Longrightarrow> Decode_Subject m = Some (Inr b)"
  using codec [OF has_type_Subject rlp_spec_Subject BFT_encodable(2)] assms
  by (simp_all add: bft_Encode_def Decode_Subject_def)

lemma Decode_Preprepare_spec:
  assumes "view_wf (pp_View b)" and "block_wf (pp_Proposal b)" and "length (rlp_spec (Preprepare_rval b)) < 2 ^ 64"
  shows "bft_Encode (Preprepare_EncodeRLP b) = Some (Inr (rlp_spec (Preprepare_rval b)))"
    and "msg_Msg m = rlp_spec (Preprepare_rval b) \<Longrightarrow>
      Decode_Preprepare m = Some (Inr (b\<lparr>pp_Proposal := block_decoded (pp_Proposal b)\<rparr>))"
  using codec [OF has_type_Preprepare rlp_spec_Preprepare BFT_encodable(3)] assms
  by (simp_all add: bft_Encode_def Decode_Preprepare_def)

definition unsigned_message :: "message \<Rightarrow> message" where
  "unsigned_message m = m\<lparr>msg_Signature := []\<rparr>"

lemma PayloadNoSig_Payload: "PayloadNoSig m = Payload (unsigned_message m)"
  by (simp add: PayloadNoSig_def Payload_def message_EncodeRLP_def unsigned_message_def)

lemma Payload_spec:
  assumes "length (rlp_spec (message_rval m)) < 2 ^ 64"
  shows "Payload m = Some (Inr (rlp_spec (message_rval m)))"
    and "DecodeBytes message_type (rlp_spec (message_rval m)) = Some (Inr (message_rval m))"
  using codec [OF has_type_message rlp_spec_message BFT_encodable(4) assms]
  by (simp_all add: Payload_def bft_Encode_def)

end
