(* ===== verification/BFT_State.thy ===== *)
theory BFT_State
  imports BFT_Types "HOL-Library.AList"
begin

text \<open>
  \<^verbatim>\<open>consensus/dbft/core/message_set.go\<close>, \<^verbatim>\<open>roundstate.go\<close> and the round change set of
  \<^verbatim>\<open>roundchange.go\<close>.  A Go map is an association list with distinct keys; the order in which
  Go ranges over it is the argument \<open>iter\<close>, a permutation of the values.  The sets keep the
  validator set they were made for: the core shares it by pointer, but only ever moves its
  proposer, which these sets never read.
\<close>

type_synonym iteration = "message list \<Rightarrow> message list"

section \<open>Message sets\<close>

record messageSet =
  ms_view :: View
  ms_valSet :: defaultSet
  ms_messages :: "(address \<times> message) list"

definition newMessageSet :: "defaultSet \<Rightarrow> messageSet" where
  "newMessageSet valSet =
     \<lparr>ms_view = \<lparr>vw_Round = 0, vw_Sequence = 0\<rparr>, ms_valSet = valSet, ms_messages = []\<rparr>"

definition ms_verify :: "messageSet \<Rightarrow> message \<Rightarrow> bft_error option" where
  "ms_verify ms msg =
     (case snd (GetByAddress (ms_valSet ms) (msg_Address msg)) of
        None \<Rightarrow> Some ErrUnauthorizedAddress
      | Some v \<Rightarrow> None)"

definition addVerifiedMessage :: "message \<Rightarrow> messageSet \<Rightarrow> messageSet" where
  "addVerifiedMessage msg ms = ms\<lparr>ms_messages := AList.update (msg_Address msg) msg (ms_messages ms)\<rparr>"

definition ms_Add :: "message \<Rightarrow> messageSet \<Rightarrow> bft_error option \<times> messageSet" where
  "ms_Add msg ms =
     (case ms_verify ms msg of
        Some err \<Rightarrow> (Some err, ms)
      | None \<Rightarrow> (None, addVerifiedMessage msg ms))"

definition ms_Values :: "iteration \<Rightarrow> messageSet \<Rightarrow> message list" where
  "ms_Values iter ms = iter (map snd (ms_messages ms))"

definition ms_Size :: "messageSet \<Rightarrow> nat" where
  "ms_Size ms = length (ms_messages ms)"

definition ms_Get :: "messageSet \<Rightarrow> address \<Rightarrow> message option" where
  "ms_Get ms addr = map_of (ms_messages ms) addr"

section \<open>Round state\<close>

record roundState =
  rs_round :: int
  rs_sequence :: int
  rs_Preprepare :: "Preprepare option"
  rs_Prepares :: messageSet
  rs_Commits :: messageSet
  rs_lockedHash :: hash
  rs_pendingRequest :: "Request option"

definition newRoundState ::
  "View \<Rightarrow> defaultSet \<Rightarrow> hash \<Rightarrow> Preprepare option \<Rightarrow> Request option \<Rightarrow> roundState" where
  "newRoundState view validatorSet lockedHash preprepare pendingRequest =
     \<lparr>rs_round = vw_Round view, rs_sequence = vw_Sequence view, rs_Preprepare = preprepare,
      rs_Prepares = newMessageSet validatorSet, rs_Commits = newMessageSet validatorSet,
      rs_lockedHash = lockedHash, rs_pendingRequest = pendingRequest\<rparr>"

definition GetPrepareOrCommitSize :: "iteration \<Rightarrow> roundState \<Rightarrow> int" where
  "GetPrepareOrCommitSize iter s =
     (let result = int (ms_Size (rs_Prepares s)) + int (ms_Size (rs_Commits s))
      in fold (\<lambda>m result. if ms_Get (rs_Commits s) (msg_Address m) \<noteq> None then result - 1 else result)
           (ms_Values iter (rs_Prepares s)) result)"

definition rs_Subject :: "keccak \<Rightarrow> roundState \<Rightarrow> Subject option option" where
  "rs_Subject kec s =
     (case rs_Preprepare s of
        None \<Rightarrow> Some None
      | Some pp \<Rightarrow> do {
          h \<leftarrow> Block_Hash kec (pp_Proposal pp);
          Some (Some \<lparr>sub_View = \<lparr>vw_Round = rs_round s, vw_Sequence = rs_sequence s\<rparr>, sub_Digest = h\<rparr>)
        })"

definition SetPreprepare :: "Preprepare \<Rightarrow> roundState \<Rightarrow> roundState" where
  "SetPreprepare preprepare s = s\<lparr>rs_Preprepare := Some preprepare\<rparr>"

definition rs_Proposal :: "roundState \<Rightarrow> Block option" where
  "rs_Proposal s = map_option pp_Proposal (rs_Preprepare s)"

definition SetRound :: "int \<Rightarrow> roundState \<Rightarrow> roundState" where
  "SetRound r s = s\<lparr>rs_round := r\<rparr>"

definition SetSequence :: "int \<Rightarrow> roundState \<Rightarrow> roundState" where
  "SetSequence r s = s\<lparr>rs_sequence := r\<rparr>"

definition LockHash :: "keccak \<Rightarrow> roundState \<Rightarrow> roundState option" where
  "LockHash kec s =
     (case rs_Preprepare s of
        None \<Rightarrow> Some s
      | Some pp \<Rightarrow> do { h \<leftarrow> Block_Hash kec (pp_Proposal pp); Some (s\<lparr>rs_lockedHash := h\<rparr>) })"

definition UnlockHash :: "roundState \<Rightarrow> roundState" where
  "UnlockHash s = s\<lparr>rs_lockedHash := 0\<rparr>"

definition GetLockedHash :: "roundState \<Rightarrow> hash" where
  "GetLockedHash s = rs_lockedHash s"

definition IsHashLocked :: "(hash \<Rightarrow> bool) \<Rightarrow> roundState \<Rightarrow> bool" where
  "IsHashLocked hasBadProposal s =
     (if EmptyHash (rs_lockedHash s) then False else \<not> hasBadProposal (GetLockedHash s))"

section \<open>Round change sets\<close>

record roundChangeSet =
  rc_validatorSet :: defaultSet
  rc_roundChanges :: "(u64 \<times> messageSet) list"

definition newRoundChangeSet :: "defaultSet \<Rightarrow> roundChangeSet" where
  "newRoundChangeSet valSet = \<lparr>rc_validatorSet = valSet, rc_roundChanges = []\<rparr>"

definition rc_Add :: "int \<Rightarrow> message \<Rightarrow> roundChangeSet \<Rightarrow> (bft_error + nat) \<times> roundChangeSet" where
  "rc_Add r msg rcs =
     (let round = big_Uint64 r;
          ms = (case map_of (rc_roundChanges rcs) round of
                  None \<Rightarrow> newMessageSet (rc_validatorSet rcs)
                | Some ms \<Rightarrow> ms)
      in case ms_Add msg ms of
           (Some err, ms) \<Rightarrow> (Inl err, rcs\<lparr>rc_roundChanges := AList.update round ms (rc_roundChanges rcs)\<rparr>)
         | (None, ms) \<Rightarrow>
             (Inr (ms_Size ms), rcs\<lparr>rc_roundChanges := AList.update round ms (rc_roundChanges rcs)\<rparr>))"

definition rc_Clear :: "iteration \<Rightarrow> int \<Rightarrow> roundChangeSet \<Rightarrow> roundChangeSet" where
  "rc_Clear iter round rcs = rcs\<lparr>rc_roundChanges :=
     filter (\<lambda>(k, rms). \<not> (length (ms_Values iter rms) = 0 \<or> k < big_Uint64 round)) (rc_roundChanges rcs)\<rparr>"

definition rc_MaxRound :: "int \<Rightarrow> roundChangeSet \<Rightarrow> int option" where
  "rc_MaxRound num rcs =
     fold (\<lambda>(k, rms) maxRound.
         if int (ms_Size rms) < num then maxRound
         else let r = sint k in
           (case maxRound of
              None \<Rightarrow> Some r
            | Some m \<Rightarrow> if m < r then Some r else maxRound))
       (rc_roundChanges rcs) None"

section \<open>Well-formed sets\<close>

text \<open>
  The invariant of a message set: one message for each sender, filed under the address it claims,
  and only from addresses of the validator set.
\<close>

definition ms_senders :: "messageSet \<Rightarrow> address set" where
  "ms_senders ms = fst ` set (ms_messages ms)"

definition ms_wf :: "messageSet \<Rightarrow> bool" where
  "ms_wf ms \<longleftrightarrow> distinct (map fst (ms_messages ms)) \<and>
     (\<forall>(a, m) \<in> set (ms_messages ms). msg_Address m = a \<and> a \<in> valset_addrs (ms_valSet ms))"

definition iter_ok :: "iteration \<Rightarrow> bool" where
  "iter_ok iter \<longleftrightarrow> (\<forall>ms. mset (iter ms) = mset ms)"

lemma newMessageSet_simps [simp]:
  "ms_messages (newMessageSet vs) = []" "ms_valSet (newMessageSet vs) = vs" "ms_senders (newMessageSet vs) = {}"
  "ms_wf (newMessageSet vs)" "ms_Size (newMessageSet vs) = 0"
  by (simp_all add: newMessageSet_def ms_senders_def ms_wf_def ms_Size_def)

lemma newRoundState_simps [simp]:
  "rs_round (newRoundState v vs h p r) = vw_Round v" "rs_sequence (newRoundState v vs h p r) = vw_Sequence v"
  "rs_Preprepare (newRoundState v vs h p r) = p" "rs_Prepares (newRoundState v vs h p r) = newMessageSet vs"
  "rs_Commits (newRoundState v vs h p r) = newMessageSet vs" "rs_lockedHash (newRoundState v vs h p r) = h"
  "rs_pendingRequest (newRoundState v vs h p r) = r"
  by (simp_all add: newRoundState_def)

lemma ms_verify_None: "ms_verify ms msg = None \<longleftrightarrow> msg_Address msg \<in> valset_addrs (ms_valSet ms)"
  using GetByAddress_None [of "ms_valSet ms" "msg_Address msg"]
  by (auto simp: ms_verify_def split: option.splits dest: GetByAddress_SomeD(3))

lemma ms_Add_cases:
  assumes "ms_Add msg ms = (r, ms')"
  shows "(r = Some ErrUnauthorizedAddress \<and> ms' = ms \<and> msg_Address msg \<notin> valset_addrs (ms_valSet ms)) \<or>
    (r = None \<and> ms' = addVerifiedMessage msg ms \<and> msg_Address msg \<in> valset_addrs (ms_valSet ms))"
  using assms ms_verify_None [of ms msg]
  by (auto simp: ms_Add_def ms_verify_def split: option.splits)

lemma addVerifiedMessage_simps [simp]:
  "ms_valSet (addVerifiedMessage msg ms) = ms_valSet ms"
  "ms_senders (addVerifiedMessage msg ms) = insert (msg_Address msg) (ms_senders ms)"
  by (simp_all add: addVerifiedMessage_def ms_senders_def dom_update flip: dom_map_of_conv_image_fst)
    (auto simp: update_conv')

lemma set_AList_update: "distinct (map fst al) \<Longrightarrow> set (AList.update k v al) = insert (k, v) {p \<in> set al. fst p \<noteq> k}"
  by (induction al) (auto simp: image_iff)

lemma addVerifiedMessage_wf:
  assumes "ms_wf ms" and "msg_Address msg \<in> valset_addrs (ms_valSet ms)"
  shows "ms_wf (addVerifiedMessage msg ms)"
  using assms by (auto simp: ms_wf_def addVerifiedMessage_def set_AList_update distinct_update)

lemma ms_Add_wf [simp]: "ms_wf ms \<Longrightarrow> ms_wf (snd (ms_Add msg ms))"
  using ms_Add_cases [of msg ms "fst (ms_Add msg ms)" "snd (ms_Add msg ms)"] addVerifiedMessage_wf by auto

lemma ms_Add_valSet [simp]: "ms_valSet (snd (ms_Add msg ms)) = ms_valSet ms"
  using ms_Add_cases [of msg ms "fst (ms_Add msg ms)" "snd (ms_Add msg ms)"] by auto

lemma ms_Size_card: "ms_wf ms \<Longrightarrow> ms_Size ms = card (ms_senders ms)"
  using distinct_card [of "map fst (ms_messages ms)"] by (simp add: ms_wf_def ms_Size_def ms_senders_def)

lemma ms_Get_iff: "ms_Get ms a \<noteq> None \<longleftrightarrow> a \<in> ms_senders ms"
  by (simp add: ms_Get_def ms_senders_def dom_map_of_conv_image_fst [symmetric] domIff)

lemma ms_senders_valset: "ms_wf ms \<Longrightarrow> ms_senders ms \<subseteq> valset_addrs (ms_valSet ms)"
  by (auto simp: ms_wf_def ms_senders_def)

lemma finite_ms_senders [simp]: "finite (ms_senders ms)"
  by (simp add: ms_senders_def)

section \<open>Counting votes\<close>

lemma fold_count:
  "fold (\<lambda>m r. if P m then r - 1 else r) xs (n :: int) = n - int (length (filter P xs))"
  by (induction xs arbitrary: n) auto

lemma length_filter_iter: "iter_ok iter \<Longrightarrow> length (filter P (iter xs)) = length (filter P xs)"
  unfolding iter_ok_def by (metis mset_filter size_mset)

lemma PrepareOrCommit_common:
  assumes "ms_wf ps"
  shows "length (filter (\<lambda>m. msg_Address m \<in> C) (map snd (ms_messages ps))) = card (ms_senders ps \<inter> C)"
proof -
  have "map msg_Address (map snd (ms_messages ps)) = map fst (ms_messages ps)"
    using assms by (auto simp: ms_wf_def)
  then have "map msg_Address (filter (\<lambda>m. msg_Address m \<in> C) (map snd (ms_messages ps))) =
      filter (\<lambda>a. a \<in> C) (map fst (ms_messages ps))"
    by (metis (mono_tags, lifting) comp_apply filter_cong filter_map)
  then have "length (filter (\<lambda>m. msg_Address m \<in> C) (map snd (ms_messages ps))) =
      length (filter (\<lambda>a. a \<in> C) (map fst (ms_messages ps)))"
    by (metis length_map)
  also have "\<dots> = card {a \<in> set (map fst (ms_messages ps)). a \<in> C}"
    using assms by (intro card_filter_distinct) (simp add: ms_wf_def)
  also have "{a \<in> set (map fst (ms_messages ps)). a \<in> C} = ms_senders ps \<inter> C"
    by (auto simp: ms_senders_def)
  finally show ?thesis .
qed

lemma PrepareOrCommitSize_union:
  assumes "iter_ok iter" and "ms_wf (rs_Prepares s)" and "ms_wf (rs_Commits s)"
  shows "GetPrepareOrCommitSize iter s = int (card (ms_senders (rs_Prepares s) \<union> ms_senders (rs_Commits s)))"
proof -
  let ?P = "ms_senders (rs_Prepares s)" and ?C = "ms_senders (rs_Commits s)"
  have "GetPrepareOrCommitSize iter s = int (card ?P) + int (card ?C) - int (card (?P \<inter> ?C))"
    using assms by (simp add: GetPrepareOrCommitSize_def ms_Get_iff fold_count ms_Values_def length_filter_iter
        PrepareOrCommit_common [unfolded filter_map length_map] ms_Size_card del: not_None_eq)
  then show ?thesis
    using card_Un_Int [of ?P ?C] by simp
qed

text \<open>
  C17: a validator that sent both a PREPARE and a COMMIT counts once.  In every iteration order of Go's map,
  the size computed by subtracting duplicates is the number of distinct validators heard from.
\<close>

theorem GetPrepareOrCommitSize_card:
  assumes "iter_ok iter" and "ms_wf (rs_Prepares s)" and "ms_wf (rs_Commits s)"
  shows "GetPrepareOrCommitSize iter s = int (card (ms_senders (rs_Prepares s) \<union> ms_senders (rs_Commits s)))"
  using assms by (rule PrepareOrCommitSize_union)

section \<open>Round changes\<close>

definition rc_wf :: "roundChangeSet \<Rightarrow> bool" where
  "rc_wf rcs \<longleftrightarrow> distinct (map fst (rc_roundChanges rcs)) \<and>
     (\<forall>(k, ms) \<in> set (rc_roundChanges rcs). ms_wf ms \<and> ms_valSet ms = rc_validatorSet rcs)"

lemma newRoundChangeSet_wf [simp]: "rc_wf (newRoundChangeSet vs)" "rc_validatorSet (newRoundChangeSet vs) = vs"
  by (simp_all add: rc_wf_def newRoundChangeSet_def)

lemma rc_Clear_wf [simp]: "rc_wf rcs \<Longrightarrow> rc_wf (rc_Clear iter r rcs)" "rc_validatorSet (rc_Clear iter r rcs) = rc_validatorSet rcs"
  by (auto simp: rc_wf_def rc_Clear_def distinct_map_filter)

lemma rc_Add_wf:
  assumes "rc_wf rcs" and "rc_Add r msg rcs = (res, rcs')"
  shows "rc_wf rcs'" and "rc_validatorSet rcs' = rc_validatorSet rcs"
proof -
  define ms where "ms = (case map_of (rc_roundChanges rcs) (big_Uint64 r) of
      None \<Rightarrow> newMessageSet (rc_validatorSet rcs) | Some ms \<Rightarrow> ms)"
  have rcs': "rcs' = rcs\<lparr>rc_roundChanges := AList.update (big_Uint64 r) (snd (ms_Add msg ms)) (rc_roundChanges rcs)\<rparr>"
    using assms(2) by (auto simp: rc_Add_def ms_def Let_def split: prod.splits option.splits)
  have "ms_wf ms \<and> ms_valSet ms = rc_validatorSet rcs"
    using assms(1) by (auto simp: ms_def rc_wf_def split: option.splits dest!: map_of_SomeD)
  then show "rc_wf rcs'" "rc_validatorSet rcs' = rc_validatorSet rcs"
    using assms(1) by (auto simp: rcs' rc_wf_def set_AList_update distinct_update)
qed

definition max_opt :: "int set \<Rightarrow> int option" where
  "max_opt A = (if A = {} then None else Some (Max A))"

lemma MaxRound_fold:
  "fold (\<lambda>(k, rms) maxRound. if int (ms_Size rms) < num then maxRound
       else let r = sint k in (case maxRound of None \<Rightarrow> Some r | Some m \<Rightarrow> if m < r then Some r else maxRound))
     xs (max_opt A) = max_opt (A \<union> sint ` fst ` {p \<in> set xs. num \<le> int (ms_Size (snd p))})" if "finite A"
  using that
proof (induction xs arbitrary: A)
  case (Cons x xs)
  obtain k rms where x: "x = (k, rms)"
    by fastforce
  show ?case
  proof (cases "int (ms_Size rms) < num")
    case True
    then have "sint ` fst ` {p \<in> set (x # xs). num \<le> int (ms_Size (snd p))} =
        sint ` fst ` {p \<in> set xs. num \<le> int (ms_Size (snd p))}"
      by (auto simp: x)
    then show ?thesis
      using Cons.IH [OF Cons.prems] True by (simp add: x)
  next
    case False
    then have "{p \<in> set (x # xs). num \<le> int (ms_Size (snd p))} =
        insert x {p \<in> set xs. num \<le> int (ms_Size (snd p))}"
      by (auto simp: x)
    then have set: "A \<union> sint ` fst ` {p \<in> set (x # xs). num \<le> int (ms_Size (snd p))} =
        insert (sint k) A \<union> sint ` fst ` {p \<in> set xs. num \<le> int (ms_Size (snd p))}"
      by (simp add: x)
    have "(case max_opt A of None \<Rightarrow> Some (sint k) | Some m \<Rightarrow> if m < sint k then Some (sint k) else max_opt A) =
        max_opt (insert (sint k) A)"
      using Cons.prems by (cases "A = {}") (simp_all add: max_opt_def max_def del: Max_less_iff)
    then show ?thesis
      using Cons.IH [of "insert (sint k) A"] Cons.prems False unfolding set by (simp add: x Let_def)
  qed
qed simp

text \<open>
  C18: the round to catch up with.  \<^verbatim>\<open>MaxRound\<close> returns the greatest round, read as a signed 64-bit
  number, for which at least \<open>num\<close> validators asked to change, and nothing when there is none.
\<close>

theorem MaxRound_greatest:
  "rc_MaxRound num rcs =
     max_opt (sint ` fst ` {p \<in> set (rc_roundChanges rcs). num \<le> int (ms_Size (snd p))})"
  using MaxRound_fold [of "{}" num "rc_roundChanges rcs"] by (simp add: rc_MaxRound_def max_opt_def)

text \<open>A round state of a validator set of four in which two validators prepared and one of them committed.\<close>

definition sample_msg :: "u64 \<Rightarrow> address \<Rightarrow> message" where
  "sample_msg code a = \<lparr>msg_Code = code, msg_Msg = [], msg_Address = a, msg_Signature = [], msg_CommittedSeal = []\<rparr>"

definition sample_round :: roundState where
  "sample_round = (let rs = newRoundState \<lparr>vw_Round = 0, vw_Sequence = 1\<rparr> (sample_set 4) 0 None None in
     rs\<lparr>rs_Prepares := snd (ms_Add (sample_msg 1 1) (snd (ms_Add (sample_msg 1 2) (rs_Prepares rs)))),
       rs_Commits := snd (ms_Add (sample_msg 2 2) (rs_Commits rs))\<rparr>)"

lemma sample_round_senders:
  "ms_senders (rs_Prepares sample_round) = {1, 2}" "ms_senders (rs_Commits sample_round) = {2}"
  by code_simp+

theorem GetPrepareOrCommitSize_card_witness: "GetPrepareOrCommitSize rev sample_round = 2"
proof -
  have "GetPrepareOrCommitSize rev sample_round =
      int (card (ms_senders (rs_Prepares sample_round) \<union> ms_senders (rs_Commits sample_round)))"
    by (rule GetPrepareOrCommitSize_card) (simp_all add: iter_ok_def sample_round_def Let_def)
  then show ?thesis
    unfolding sample_round_senders by (simp add: insert_commute)
qed

end
