(* ===== verification/Go_Heap.thy ===== *)
theory Go_Heap
  imports Prelude
begin

text \<open>
  The binary heap of Go's \<^verbatim>\<open>container/heap\<close>, over a slice with the element order
  \<open>lt\<close>, and the priority queue \<^verbatim>\<open>prque\<close> built on it
  (\<^verbatim>\<open>vendor/gopkg.in/karalabe/cookiejar.v2/collections/prque\<close>), whose block stack is a
  list here.  The locale \<open>heap_order\<close> states what the heap needs of \<open>lt\<close>; inside it the
  heap order and the contents of the slice are shown to be kept by every operation.
\<close>

definition heap_swap :: "nat \<Rightarrow> nat \<Rightarrow> 'a list \<Rightarrow> 'a list" where
  "heap_swap i j xs = xs[i := xs ! j, j := xs ! i]"

function heap_up :: "('a \<Rightarrow> 'a \<Rightarrow> bool) \<Rightarrow> nat \<Rightarrow> 'a list \<Rightarrow> 'a list" where
  "heap_up lt j xs =
     (let i = (j - 1) div 2
      in if i = j \<or> \<not> lt (xs ! j) (xs ! i) then xs
         else heap_up lt i (heap_swap i j xs))"
  by pat_completeness auto
termination
  by (relation "measure (\<lambda>(lt, j, xs). j)") auto

function heap_down :: "('a \<Rightarrow> 'a \<Rightarrow> bool) \<Rightarrow> nat \<Rightarrow> nat \<Rightarrow> 'a list \<Rightarrow> 'a list" where
  "heap_down lt i n xs =
     (let j1 = 2 * i + 1
      in if j1 \<ge> n then xs
         else let j = (if j1 + 1 < n \<and> lt (xs ! (j1 + 1)) (xs ! j1) then j1 + 1 else j1)
              in if \<not> lt (xs ! j) (xs ! i) then xs
                 else heap_down lt j n (heap_swap i j xs))"
  by pat_completeness auto
termination
  by (relation "measure (\<lambda>(lt, i, n, xs). n - i)") (auto simp: Let_def split: if_splits)

declare heap_up.simps [simp del] heap_down.simps [simp del]

definition heap_Push :: "('a \<Rightarrow> 'a \<Rightarrow> bool) \<Rightarrow> 'a \<Rightarrow> 'a list \<Rightarrow> 'a list" where
  "heap_Push lt x xs = heap_up lt (length xs) (xs @ [x])"

text \<open>Popping an empty heap indexes the slice out of range: a panic.\<close>

definition heap_Pop :: "('a \<Rightarrow> 'a \<Rightarrow> bool) \<Rightarrow> 'a list \<Rightarrow> ('a \<times> 'a list) option" where
  "heap_Pop lt xs =
     (if xs = [] then None
      else let n = length xs - 1; ys = heap_down lt 0 n (heap_swap 0 n xs)
           in Some (last ys, butlast ys))"

fun heap_Init_loop :: "('a \<Rightarrow> 'a \<Rightarrow> bool) \<Rightarrow> nat \<Rightarrow> 'a list \<Rightarrow> 'a list" where
  "heap_Init_loop lt 0 xs = xs"
| "heap_Init_loop lt (Suc i) xs = heap_Init_loop lt i (heap_down lt i (length xs) xs)"

definition heap_Init :: "('a \<Rightarrow> 'a \<Rightarrow> bool) \<Rightarrow> 'a list \<Rightarrow> 'a list" where
  "heap_Init lt xs = heap_Init_loop lt (length xs div 2) xs"

section \<open>Contents\<close>

lemma length_heap_swap [simp]: "length (heap_swap i j xs) = length xs"
  by (simp add: heap_swap_def)

lemma mset_heap_swap [simp]:
  "i < length xs \<Longrightarrow> j < length xs \<Longrightarrow> mset (heap_swap i j xs) = mset xs"
  unfolding heap_swap_def by (rule mset_swap)

lemma heap_swap_nth:
  "i < length xs \<Longrightarrow> j < length xs \<Longrightarrow> k < length xs \<Longrightarrow>
     heap_swap i j xs ! k = (if k = j then xs ! i else if k = i then xs ! j else xs ! k)"
  by (simp add: heap_swap_def nth_list_update)

lemma length_heap_up [simp]: "length (heap_up lt j xs) = length xs"
proof (induction lt j xs rule: heap_up.induct)
  case (1 lt j xs)
  then show ?case
    by (subst heap_up.simps) (simp add: Let_def)
qed

lemma mset_heap_up: "j < length xs \<Longrightarrow> mset (heap_up lt j xs) = mset xs"
proof (induction lt j xs rule: heap_up.induct)
  case (1 lt j xs)
  then show ?case
    by (subst heap_up.simps) (auto simp: Let_def)
qed

lemma length_heap_down [simp]: "length (heap_down lt i n xs) = length xs"
proof (induction lt i n xs rule: heap_down.induct)
  case (1 lt i n xs)
  then show ?case
    by (subst heap_down.simps) (simp add: Let_def)
qed

lemma mset_heap_down: "n \<le> length xs \<Longrightarrow> mset (heap_down lt i n xs) = mset xs"
proof (induction lt i n xs rule: heap_down.induct)
  case (1 lt i n xs)
  then show ?case
    by (subst heap_down.simps) (auto simp: Let_def)
qed

lemma heap_down_beyond: "n \<le> k \<Longrightarrow> k < length xs \<Longrightarrow> heap_down lt i n xs ! k = xs ! k"
proof (induction lt i n xs rule: heap_down.induct)
  case (1 lt i n xs)
  then show ?case
    by (subst heap_down.simps) (auto simp: Let_def heap_swap_nth)
qed

lemma mset_heap_Push: "mset (heap_Push lt x xs) = add_mset x (mset xs)"
  by (simp add: heap_Push_def mset_heap_up)

lemma heap_Pop_None [simp]: "heap_Pop lt xs = None \<longleftrightarrow> xs = []"
  by (simp add: heap_Pop_def Let_def)

lemma heap_Pop_contents:
  assumes "heap_Pop lt xs = Some (x, ys)"
  shows "mset xs = add_mset x (mset ys)" and "x = xs ! 0" and "length xs = Suc (length ys)"
proof -
  let ?n = "length xs - 1"
  let ?zs = "heap_down lt 0 ?n (heap_swap 0 ?n xs)"
  have ne: "xs \<noteq> []" and x: "x = last ?zs" and ys: "ys = butlast ?zs"
    using assms by (auto simp: heap_Pop_def Let_def split: if_splits)
  have zs: "?zs \<noteq> []" "length ?zs = length xs"
    using ne by (auto simp flip: length_greater_0_conv)
  have "mset ?zs = mset xs"
    using ne by (simp add: mset_heap_down)
  moreover have "?zs = ys @ [x]"
    using zs(1) x ys by simp
  ultimately show "mset xs = add_mset x (mset ys)"
    by (metis mset.simps(1) mset.simps(2) mset_append union_mset_add_mset_right add.right_neutral)
  then show "length xs = Suc (length ys)"
    by (metis size_add_mset size_mset)
  have "x = ?zs ! ?n"
    using x zs last_conv_nth by metis
  also have "\<dots> = xs ! 0"
    using ne by (simp add: heap_down_beyond heap_swap_nth)
  finally show "x = xs ! 0" .
qed

lemma mset_heap_Init_loop: "mset (heap_Init_loop lt i xs) = mset xs"
  by (induction lt i xs rule: heap_Init_loop.induct) (simp_all add: mset_heap_down)

lemma mset_heap_Init: "mset (heap_Init lt xs) = mset xs"
  by (simp add: heap_Init_def mset_heap_Init_loop)

section \<open>Heap order\<close>

definition par :: "nat \<Rightarrow> nat" where
  "par k = (k - 1) div 2"

definition heap_above :: "('a \<Rightarrow> 'a \<Rightarrow> bool) \<Rightarrow> nat \<Rightarrow> nat \<Rightarrow> 'a list \<Rightarrow> bool" where
  "heap_above lt a n xs \<longleftrightarrow> (\<forall>k < n. 0 < k \<and> a \<le> par k \<longrightarrow> \<not> lt (xs ! k) (xs ! par k))"

abbreviation is_heap :: "('a \<Rightarrow> 'a \<Rightarrow> bool) \<Rightarrow> 'a list \<Rightarrow> bool" where
  "is_heap lt xs \<equiv> heap_above lt 0 (length xs) xs"

text \<open>
  The state of the two loops: the order holds but at one place, and the grandparent of
  that place is still below its grandchildren.
\<close>

definition heap_but_up :: "('a \<Rightarrow> 'a \<Rightarrow> bool) \<Rightarrow> nat \<Rightarrow> nat \<Rightarrow> 'a list \<Rightarrow> bool" where
  "heap_but_up lt j n xs \<longleftrightarrow>
     (\<forall>k < n. 0 < k \<and> k \<noteq> j \<longrightarrow> \<not> lt (xs ! k) (xs ! par k)) \<and>
     (\<forall>k < n. 0 < k \<and> 0 < j \<and> par k = j \<longrightarrow> \<not> lt (xs ! k) (xs ! par j))"

definition heap_but_down :: "('a \<Rightarrow> 'a \<Rightarrow> bool) \<Rightarrow> nat \<Rightarrow> nat \<Rightarrow> nat \<Rightarrow> 'a list \<Rightarrow> bool" where
  "heap_but_down lt a i n xs \<longleftrightarrow>
     (\<forall>k < n. 0 < k \<and> a \<le> par k \<and> par k \<noteq> i \<longrightarrow> \<not> lt (xs ! k) (xs ! par k)) \<and>
     (\<forall>k < n. 0 < k \<and> 0 < i \<and> a \<le> par i \<and> par k = i \<longrightarrow> \<not> lt (xs ! k) (xs ! par i))"

lemma par_eq_cases: "0 < k \<Longrightarrow> par k = i \<longleftrightarrow> k = 2 * i + 1 \<or> k = 2 * i + 2"
  unfolding par_def by arith

lemma par_0 [simp]: "par 0 = 0"
  by (simp add: par_def)

lemma par_less: "0 < k \<Longrightarrow> par k < k"
  unfolding par_def by arith

lemma heap_up_unfold:
  "heap_up lt j xs =
     (if par j = j \<or> \<not> lt (xs ! j) (xs ! par j) then xs
      else heap_up lt (par j) (heap_swap (par j) j xs))"
  by (subst heap_up.simps) (simp add: Let_def par_def)

locale heap_order =
  fixes lt :: "'a \<Rightarrow> 'a \<Rightarrow> bool"
  assumes lt_irrefl: "\<not> lt x x"
    and lt_trans: "lt x y \<Longrightarrow> lt y z \<Longrightarrow> lt x z"
    and not_lt_trans: "\<not> lt x y \<Longrightarrow> \<not> lt y z \<Longrightarrow> \<not> lt x z"
begin

lemma lt_asym: "lt x y \<Longrightarrow> \<not> lt y x"
  using lt_irrefl lt_trans by blast

lemma heap_up_step:
  assumes inv: "heap_but_up lt j n xs" and j: "j < n" "0 < j" and n: "n \<le> length xs"
    and lt: "lt (xs ! j) (xs ! par j)"
  shows "heap_but_up lt (par j) n (heap_swap (par j) j xs)"
proof -
  let ?i = "par j"
  let ?ys = "heap_swap ?i j xs"
  have i: "?i < j" "?i < length xs" "j < length xs"
    using j n par_less [of j] by auto
  have at: "?ys ! k = (if k = j then xs ! ?i else if k = ?i then xs ! j else xs ! k)" if "k < n" for k
    using that i n by (simp add: heap_swap_nth)
  have o1: "\<not> lt (xs ! k) (xs ! par k)" if "k < n" "0 < k" "k \<noteq> j" for k
    using inv that by (simp add: heap_but_up_def)
  have o2: "\<not> lt (xs ! k) (xs ! ?i)" if "k < n" "0 < k" "par k = j" for k
    using inv that j by (simp add: heap_but_up_def)
  have "\<not> lt (?ys ! k) (?ys ! par k)" if k: "k < n" "0 < k" "k \<noteq> ?i" for k
  proof -
    have pk: "par k < n" "par k \<noteq> k"
      using k par_less [of k] by auto
    consider "k = j" | "k \<noteq> j" "par k = j" | "k \<noteq> j" "par k = ?i" | "k \<noteq> j" "par k \<noteq> j" "par k \<noteq> ?i"
      by blast
    then show ?thesis
    proof cases
      case 1
      then show ?thesis
        using i lt lt_asym at [of j] at [of ?i] j by auto
    next
      case 2
      then show ?thesis
        using at [of k] at [of "par k"] k pk o2 by simp
    next
      case 3
      then have "\<not> lt (xs ! k) (xs ! j)"
        using o1 [of k] k lt lt_trans by metis
      then show ?thesis
        using 3 at [of k] at [of "par k"] k pk i by simp
    next
      case 4
      then show ?thesis
        using at [of k] at [of "par k"] k pk o1 by simp
    qed
  qed
  moreover have "\<not> lt (?ys ! k) (?ys ! par ?i)" if k: "k < n" "0 < k" "0 < ?i" "par k = ?i" for k
  proof -
    have pi: "par ?i < ?i" "par ?i < n"
      using k par_less [of ?i] i j by auto
    have ii: "\<not> lt (xs ! ?i) (xs ! par ?i)"
      using o1 [of ?i] k i j by auto
    have "\<not> lt (xs ! k) (xs ! par ?i)" if "k \<noteq> j"
      using o1 [of k] that k ii not_lt_trans by metis
    moreover have "?ys ! par ?i = xs ! par ?i" "k \<noteq> ?i"
      using at [of "par ?i"] pi i par_less [of k] k by auto
    ultimately show ?thesis
      using at [of k] k ii by (cases "k = j") auto
  qed
  ultimately show ?thesis
    unfolding heap_but_up_def by blast
qed

lemma heap_up_heap:
  assumes "heap_but_up lt j (length xs) xs" and "j < length xs"
  shows "is_heap lt (heap_up lt j xs)"
  using assms
proof (induction j arbitrary: xs rule: less_induct)
  case (less j)
  show ?case
  proof (cases "par j = j \<or> \<not> lt (xs ! j) (xs ! par j)")
    case True
    then have up: "heap_up lt j xs = xs"
      by (subst heap_up_unfold) simp
    have "par j = j \<Longrightarrow> j = 0"
      using par_less [of j] by fastforce
    with True less.prems show ?thesis
      unfolding up by (auto simp: heap_above_def heap_but_up_def)
  next
    case False
    then have j: "0 < j" "par j < j"
      using par_less [of j] by (cases j; auto)+
    have "is_heap lt (heap_up lt (par j) (heap_swap (par j) j xs))"
      using less.IH [OF j(2), of "heap_swap (par j) j xs"] less.prems j False
        heap_up_step [of j "length xs" xs] by simp
    moreover have "heap_up lt j xs = heap_up lt (par j) (heap_swap (par j) j xs)"
      using False by (subst heap_up_unfold) simp
    ultimately show ?thesis
      by simp
  qed
qed

lemma heap_Push_heap: "is_heap lt xs \<Longrightarrow> is_heap lt (heap_Push lt x xs)"
proof -
  assume heap: "is_heap lt xs"
  have "\<not> lt ((xs @ [x]) ! k) ((xs @ [x]) ! par k)" if "0 < k" "k < length xs" for k
    using heap that par_less [of k] by (simp add: heap_above_def nth_append)
  moreover have "par k \<noteq> length xs" if "0 < k" "k < Suc (length xs)" for k
    using that par_less [of k] by simp
  ultimately have "heap_but_up lt (length xs) (length (xs @ [x])) (xs @ [x])"
    unfolding heap_but_up_def by (auto simp: less_Suc_eq)
  then show ?thesis
    unfolding heap_Push_def by (rule heap_up_heap) simp
qed

lemma heap_down_step:
  assumes inv: "heap_but_down lt a i n xs" and n: "n \<le> length xs" and a: "a \<le> i"
    and j: "0 < j" "par j = i" "j < n" and lt: "lt (xs ! j) (xs ! i)"
    and least: "\<And>k. k < n \<Longrightarrow> 0 < k \<Longrightarrow> par k = i \<Longrightarrow> \<not> lt (xs ! k) (xs ! j)"
  shows "heap_but_down lt a j n (heap_swap i j xs)"
proof -
  let ?ys = "heap_swap i j xs"
  have i: "i < j" "i < length xs" "j < length xs"
    using j n par_less [of j] by auto
  have at: "?ys ! k = (if k = j then xs ! i else if k = i then xs ! j else xs ! k)" if "k < n" for k
    using that i n by (simp add: heap_swap_nth)
  have o1: "\<not> lt (xs ! k) (xs ! par k)" if "k < n" "0 < k" "a \<le> par k" "par k \<noteq> i" for k
    using inv that by (simp add: heap_but_down_def)
  have "\<not> lt (?ys ! k) (?ys ! par k)" if k: "k < n" "0 < k" "a \<le> par k" "par k \<noteq> j" for k
  proof -
    have pk: "par k < n" "par k \<noteq> k"
      using k par_less [of k] by auto
    consider "k = i" | "k \<noteq> i" "par k = i" | "k \<noteq> i" "par k \<noteq> i"
      by blast
    then show ?thesis
    proof cases
      case 1
      then have "\<not> lt (xs ! j) (xs ! par i)"
        using inv k j by (simp add: heap_but_down_def)
      then show ?thesis
        using 1 at [of k] at [of "par k"] k pk i by simp
    next
      case 2
      then have "\<not> lt (xs ! k) (xs ! j)" "\<not> lt (xs ! i) (xs ! j)"
        using least k lt lt_asym by auto
      then show ?thesis
        using 2 at [of k] at [of i] k pk i j by auto
    next
      case 3
      then show ?thesis
        using at [of k] at [of "par k"] k pk j o1 by auto
    qed
  qed
  moreover have "\<not> lt (?ys ! k) (?ys ! par j)" if k: "k < n" "0 < k" "par k = j" for k
  proof -
    have "k \<noteq> j" "k \<noteq> i"
      using k i par_less [of k] by auto
    moreover have "\<not> lt (xs ! k) (xs ! j)"
      using o1 [of k] k i a by auto
    ultimately show ?thesis
      using at [of k] at [of i] k i j by auto
  qed
  ultimately show ?thesis
    unfolding heap_but_down_def by blast
qed

lemma heap_down_stop:
  assumes "heap_but_down lt a i n xs"
    and "\<And>k. k < n \<Longrightarrow> 0 < k \<Longrightarrow> par k = i \<Longrightarrow> \<not> lt (xs ! k) (xs ! i)"
  shows "heap_above lt a n xs"
  using assms by (auto simp: heap_but_down_def heap_above_def)

lemma heap_down_above:
  assumes "heap_but_down lt a i n xs" and "n \<le> length xs" and "a \<le> i"
  shows "heap_above lt a n (heap_down lt i n xs)"
  using assms
proof (induction "n - i" arbitrary: i xs rule: less_induct)
  case less
  define j1 where "j1 = 2 * i + 1"
  define j where "j = (if j1 + 1 < n \<and> lt (xs ! (j1 + 1)) (xs ! j1) then j1 + 1 else j1)"
  have child: "par k = i \<longleftrightarrow> k = j1 \<or> k = j1 + 1" if "0 < k" for k
    using that by (simp add: par_eq_cases j1_def)
  have down: "heap_down lt i n xs =
      (if n \<le> j1 \<or> \<not> lt (xs ! j) (xs ! i) then xs else heap_down lt j n (heap_swap i j xs))"
    by (subst heap_down.simps) (simp add: Let_def j1_def j_def)
  have least: "\<not> lt (xs ! k) (xs ! j)" if "k < n" "0 < k" "par k = i" for k
    using that child lt_irrefl lt_asym by (auto simp: j_def)
  show ?case
  proof (cases "n \<le> j1 \<or> \<not> lt (xs ! j) (xs ! i)")
    case True
    have "\<not> lt (xs ! k) (xs ! i)" if k: "k < n" "0 < k" "par k = i" for k
    proof -
      have "j1 < n"
        using k child [of k] by auto
      with True have "\<not> lt (xs ! j) (xs ! i)"
        by simp
      with least [OF k] show ?thesis
        by (rule not_lt_trans)
    qed
    then show ?thesis
      using True down heap_down_stop [OF less.prems(1)] by simp
  next
    case False
    have j: "0 < j" "j < n" "par j = i" "i < j"
      using False child [of j] by (auto simp: j_def j1_def)
    have "heap_above lt a n (heap_down lt j n (heap_swap i j xs))"
    proof (rule less.hyps)
      show "heap_but_down lt a j n (heap_swap i j xs)"
        using heap_down_step [OF less.prems j(1,3,2)] False least by blast
    qed (use less.prems j in auto)
    with False down show ?thesis
      by simp
  qed
qed

lemma heap_root_least:
  assumes "is_heap lt xs" and "k < length xs"
  shows "\<not> lt (xs ! k) (xs ! 0)"
  using assms(2)
proof (induction k rule: less_induct)
  case (less k)
  show ?case
  proof (cases "k = 0")
    case True
    then show ?thesis
      using lt_irrefl by simp
  next
    case False
    then have "\<not> lt (xs ! k) (xs ! par k)" "\<not> lt (xs ! par k) (xs ! 0)"
      using assms(1) less par_less [of k] by (auto simp: heap_above_def)
    then show ?thesis
      by (rule not_lt_trans)
  qed
qed

lemma heap_Pop_least:
  assumes "is_heap lt xs" and "heap_Pop lt xs = Some (x, ys)" and "y \<in># mset xs"
  shows "\<not> lt y x"
proof -
  obtain k where "k < length xs" "y = xs ! k"
    using assms(3) by (metis in_set_conv_nth set_mset_mset)
  then show ?thesis
    using heap_root_least [OF assms(1)] heap_Pop_contents(2) [OF assms(2)] by simp
qed

lemma heap_Pop_heap:
  assumes "is_heap lt xs" and "heap_Pop lt xs = Some (x, ys)"
  shows "is_heap lt ys"
proof -
  let ?n = "length xs - 1"
  let ?zs = "heap_down lt 0 ?n (heap_swap 0 ?n xs)"
  have ne: "xs \<noteq> []" and ys: "ys = butlast ?zs"
    using assms(2) by (auto simp: heap_Pop_def Let_def split: if_splits)
  have "\<not> lt (heap_swap 0 ?n xs ! k) (heap_swap 0 ?n xs ! par k)"
    if k: "k < ?n" "0 < k" "par k \<noteq> 0" for k
  proof -
    have "heap_swap 0 ?n xs ! k = xs ! k" "heap_swap 0 ?n xs ! par k = xs ! par k"
      using k par_less [of k] ne by (auto simp: heap_swap_def)
    then show ?thesis
      using assms(1) k by (simp add: heap_above_def)
  qed
  then have "heap_but_down lt 0 0 ?n (heap_swap 0 ?n xs)"
    by (auto simp: heap_but_down_def)
  then have "heap_above lt 0 ?n ?zs"
    by (rule heap_down_above) simp_all
  moreover have "ys ! k = ?zs ! k" if "k < ?n" for k
    using that by (simp add: ys nth_butlast)
  moreover have "length ys = ?n"
    by (simp add: ys)
  ultimately show ?thesis
    unfolding heap_above_def by (metis order_less_trans par_less)
qed

lemma heap_Init_loop_heap:
  "heap_above lt i (length xs) xs \<Longrightarrow> is_heap lt (heap_Init_loop lt i xs)"
proof (induction i arbitrary: xs)
  case (Suc i)
  have "heap_but_down lt i i (length xs) xs"
    using Suc.prems par_less [of i] by (auto simp: heap_but_down_def heap_above_def Suc_le_eq)
  then have "heap_above lt i (length xs) (heap_down lt i (length xs) xs)"
    by (rule heap_down_above) simp_all
  then show ?case
    using Suc.IH [of "heap_down lt i (length xs) xs"] by simp
qed simp

lemma heap_Init_heap: "is_heap lt (heap_Init lt xs)"
  unfolding heap_Init_def
  by (rule heap_Init_loop_heap) (auto simp: heap_above_def par_def)

end

section \<open>The priority queue \<^verbatim>\<open>prque\<close>\<close>

text \<open>
  An item is a value with its priority.  A \<^verbatim>\<open>float32\<close> priority is the integer it holds: every
  caller in this development converts an integer to it.
\<close>

type_synonym 'a prque_item = "'a \<times> int"
type_synonym 'a prque = "'a prque_item list"

definition prque_Less :: "'a prque_item \<Rightarrow> 'a prque_item \<Rightarrow> bool" where
  "prque_Less x y \<longleftrightarrow> snd x > snd y"

definition prque_New :: "'a prque" where
  "prque_New = []"

definition prque_Push :: "'a \<Rightarrow> int \<Rightarrow> 'a prque \<Rightarrow> 'a prque" where
  "prque_Push data priority p = heap_Push prque_Less (data, priority) p"

definition prque_Pop :: "'a prque \<Rightarrow> ('a prque_item \<times> 'a prque) option" where
  "prque_Pop p = heap_Pop prque_Less p"

definition prque_PopItem :: "'a prque \<Rightarrow> ('a \<times> 'a prque) option" where
  "prque_PopItem p = map_option (\<lambda>(item, p'). (fst item, p')) (heap_Pop prque_Less p)"

definition prque_Empty :: "'a prque \<Rightarrow> bool" where
  "prque_Empty p \<longleftrightarrow> length p = 0"

definition prque_Size :: "'a prque \<Rightarrow> nat" where
  "prque_Size p = length p"

interpretation pq: heap_order prque_Less
  by unfold_locales (auto simp: prque_Less_def)

abbreviation is_prque :: "'a prque \<Rightarrow> bool" where
  "is_prque p \<equiv> is_heap prque_Less p"

lemma prque_New_heap [simp]: "is_prque prque_New"
  by (simp add: prque_New_def heap_above_def)

lemma mset_prque_Push [simp]: "mset (prque_Push d k p) = add_mset (d, k) (mset p)"
  by (simp add: prque_Push_def mset_heap_Push)

lemma prque_Push_heap [simp]: "is_prque p \<Longrightarrow> is_prque (prque_Push d k p)"
  by (simp add: prque_Push_def pq.heap_Push_heap del: length_0_conv)

end
