(* ===== verification/BFT_Core.thy ===== *)
theory BFT_Core
  imports BFT_State Go_Heap
begin

text \<open>
  \<^verbatim>\<open>consensus/dbft/core\<close>: the event handlers of the consensus core, one definition for each Go
  function, in state-passing style.  The \<^verbatim>\<open>bft.Backend\<close> interface is the record \<open>env\<close>; its answers
  are constant while one event is handled and may change from one event to the next.  What a
  handler sends (messages, commits, posted events, timers) is appended to \<open>c_out\<close>.  A result of
  \<open>None\<close> is a panic, for instance a method call on a nil round state, or a decoder that does not
  return.  A handler that returns an error returns it beside the new state.  Log lines and metrics are
  left out; the mutexes guard single operations, which are atomic here.
\<close>

datatype event =
    RequestEvent "Block option"
  | MessageEvent bytes
  | backlogEvent validator message
  | timeoutEvent
  | FinalCommittedEvent

datatype effect =
    Broadcast "defaultSet option" bytes
  | Gossip "defaultSet option" bytes
  | Commit Block "bytes list"
  | SendEvent event
  | StopFuturePreprepareTimer
  | StopRoundChangeTimer
  | FuturePreprepareTimer nat event
  | RoundChangeTimer u64

record env =
  e_kec :: keccak
  e_rcv :: sig_recover
  e_iter :: iteration
  e_ref :: nat
  e_Address :: address
  e_Validators :: "Block \<Rightarrow> defaultSet"
  e_ParentValidators :: "Block \<Rightarrow> defaultSet"
  e_LastProposal :: "Block option \<times> address"
  e_Verify :: "Block \<Rightarrow> nat \<times> bft_error option"
  e_Sign :: "bytes \<Rightarrow> bft_error + bytes"
  e_Commit :: "Block \<Rightarrow> bytes list \<Rightarrow> bft_error option"
  e_HasPropsal :: "hash \<Rightarrow> int \<Rightarrow> bool"
  e_GetProposer :: "u64 \<Rightarrow> address"
  e_HasBadProposal :: "hash \<Rightarrow> bool"

record core =
  c_config :: Config
  c_address :: address
  c_state :: State
  c_futurePreprepareTimer :: bool
  c_valSet :: "defaultSet option"
  c_waitingForRoundChange :: bool
  c_backlogs :: "(validator \<times> message prque) list"
  c_current :: "roundState option"
  c_roundChangeSet :: "roundChangeSet option"
  c_roundChangeTimer :: bool
  c_pendingRequests :: "Request prque"
  c_out :: "effect list"

definition emit :: "effect \<Rightarrow> core \<Rightarrow> core" where
  "emit x c = c\<lparr>c_out := c_out c @ [x]\<rparr>"

definition New :: "env \<Rightarrow> Config \<Rightarrow> core" where
  "New e config =
     \<lparr>c_config = config, c_address = e_Address e, c_state = StateAcceptRequest,
      c_futurePreprepareTimer = False, c_valSet = None, c_waitingForRoundChange = False, c_backlogs = [],
      c_current = None, c_roundChangeSet = None, c_roundChangeTimer = False,
      c_pendingRequests = prque_New, c_out = []\<rparr>"

section \<open>Views and guards\<close>

definition currentView :: "core \<Rightarrow> View option" where
  "currentView c = do {
     cur \<leftarrow> c_current c;
     Some \<lparr>vw_Round = rs_round cur, vw_Sequence = rs_sequence cur\<rparr>
   }"

definition isProposer :: "env \<Rightarrow> core \<Rightarrow> bool" where
  "isProposer e c = (case c_valSet c of None \<Rightarrow> False | Some v \<Rightarrow> IsProposer v (e_Address e))"

definition checkMessage :: "u64 \<Rightarrow> View option \<Rightarrow> core \<Rightarrow> bft_error option option" where
  "checkMessage msgCode vw c =
     (case vw of
        None \<Rightarrow> Some (Some errInvalidMessage)
      | Some view \<Rightarrow> do {
          cv \<leftarrow> currentView c;
          Some (if msgCode = msgRoundChange then
                  if vw_Sequence view > vw_Sequence cv then Some errFutureMessage
                  else if View_Cmp view cv < 0 then Some errOldMessage
                  else None
                else if View_Cmp view cv > 0 then Some errFutureMessage
                else if View_Cmp view cv < 0 then Some errOldMessage
                else if c_waitingForRoundChange c then Some errFutureMessage
                else if c_state c = StateAcceptRequest then
                  if msgCode > msgPreprepare then Some errFutureMessage else None
                else None)
        })"

definition checkRequestMsg :: "Request \<Rightarrow> core \<Rightarrow> bft_error option option" where
  "checkRequestMsg request c =
     (case req_Proposal request of
        None \<Rightarrow> Some (Some errInvalidMessage)
      | Some proposal \<Rightarrow> do {
          cur \<leftarrow> c_current c;
          n \<leftarrow> Block_Number proposal;
          Some (if go_cmp (rs_sequence cur) n > 0 then Some errOldMessage
                else if go_cmp (rs_sequence cur) n < 0 then Some errFutureMessage
                else None)
        })"

section \<open>Backlog\<close>

text \<open>
  Conversion to \<^verbatim>\<open>float32\<close>: 24 significant bits, rounded to the nearest value, ties to even.
  The result is an integer again for every integer argument of 64 bits.
\<close>

definition float32_nat :: "nat \<Rightarrow> nat" where
  "float32_nat n =
     (let k = nat_bitlen n - 24; q = n div 2 ^ k; r = n mod 2 ^ k
      in if 2 * r > 2 ^ k \<or> (2 * r = 2 ^ k \<and> odd q) then (q + 1) * 2 ^ k else q * 2 ^ k)"

definition float32_int :: "int \<Rightarrow> int" where
  "float32_int i = (if i < 0 then - int (float32_nat (nat (- i))) else int (float32_nat (nat i)))"

definition msgPriority :: "u64 \<Rightarrow> u64" where
  "msgPriority code =
     (if code = msgPreprepare then 1 else if code = msgCommit then 2 else if code = msgPrepare then 3 else 0)"

definition toPriority :: "u64 \<Rightarrow> View \<Rightarrow> int" where
  "toPriority msgCode view =
     (if msgCode = msgRoundChange then - int (float32_nat (unat (big_Uint64 (vw_Sequence view) * 1000)))
      else - int (float32_nat (unat (big_Uint64 (vw_Sequence view) * 1000 + big_Uint64 (vw_Round view) * 10 +
             msgPriority msgCode))))"

text \<open>The view of a backlog message: none when its payload does not decode.\<close>

definition backlogView :: "message \<Rightarrow> View option option" where
  "backlogView msg =
     (if msg_Code msg = msgPreprepare
      then map_option (case_sum (\<lambda>_. None) (Some \<circ> pp_View)) (Decode_Preprepare msg)
      else map_option (case_sum (\<lambda>_. None) (Some \<circ> sub_View)) (Decode_Subject msg))"

definition storeBacklog :: "message \<Rightarrow> validator \<Rightarrow> core \<Rightarrow> core option" where
  "storeBacklog msg src c =
     (if v_address src = c_address c then Some c
      else do {
        let backlog = (case map_of (c_backlogs c) src of None \<Rightarrow> prque_New | Some q \<Rightarrow> q);
        p \<leftarrow> backlogView msg;
        let backlog = (case p of
            Some view \<Rightarrow> prque_Push msg (toPriority (msg_Code msg) view) backlog
          | None \<Rightarrow> backlog);
        Some (c\<lparr>c_backlogs := AList.update src backlog (c_backlogs c)\<rparr>)
      })"

function processBacklog_loop ::
  "core \<Rightarrow> validator \<Rightarrow> message prque \<Rightarrow> effect list \<Rightarrow> (message prque \<times> effect list) option" where
  "processBacklog_loop c src backlog out =
     (case prque_Pop backlog of
        None \<Rightarrow> Some (backlog, out)
      | Some ((msg, prio), backlog') \<Rightarrow> do {
          v \<leftarrow> backlogView msg;
          (case v of
             None \<Rightarrow> processBacklog_loop c src backlog' out
           | Some view \<Rightarrow> do {
               r \<leftarrow> checkMessage (msg_Code msg) (Some view) c;
               (case r of
                  Some err \<Rightarrow>
                    if err = errFutureMessage then Some (prque_Push msg prio backlog', out)
                    else processBacklog_loop c src backlog' out
                | None \<Rightarrow>
                    processBacklog_loop c src backlog' (out @ [SendEvent (backlogEvent src msg)]))
             })
        })"
  by pat_completeness auto
termination
  by (relation "measure (\<lambda>(c, src, backlog, out). length backlog)")
    (auto simp: prque_Pop_def dest: heap_Pop_contents(3))

fun processBacklog_all ::
  "core \<Rightarrow> (validator \<times> message prque) list \<Rightarrow> effect list \<Rightarrow> ((validator \<times> message prque) list \<times> effect list) option"
where
  "processBacklog_all c [] out = Some ([], out)"
| "processBacklog_all c ((src, backlog) # rest) out = do {
     (backlog, out) \<leftarrow> processBacklog_loop c src backlog out;
     (rest, out) \<leftarrow> processBacklog_all c rest out;
     Some ((src, backlog) # rest, out)
   }"

definition processBacklog :: "core \<Rightarrow> core option" where
  "processBacklog c = do {
     (backlogs, out) \<leftarrow> processBacklog_all c (c_backlogs c) (c_out c);
     Some (c\<lparr>c_backlogs := backlogs, c_out := out\<rparr>)
   }"

section \<open>Pending requests\<close>

definition storeRequestMsg :: "Request \<Rightarrow> core \<Rightarrow> core option" where
  "storeRequestMsg request c = do {
     proposal \<leftarrow> req_Proposal request;
     n \<leftarrow> Block_Number proposal;
     Some (c\<lparr>c_pendingRequests :=
       prque_Push request (float32_int (sint (- (word_of_int n :: u64)))) (c_pendingRequests c)\<rparr>)
   }"

function processPendingRequests_loop ::
  "core \<Rightarrow> Request prque \<Rightarrow> effect list \<Rightarrow> (Request prque \<times> effect list) option" where
  "processPendingRequests_loop c q out =
     (case prque_Pop q of
        None \<Rightarrow> Some (q, out)
      | Some ((r, prio), q') \<Rightarrow> do {
          res \<leftarrow> checkRequestMsg r c;
          (case res of
             Some err \<Rightarrow>
               if err = errFutureMessage then Some (prque_Push r prio q', out)
               else processPendingRequests_loop c q' out
           | None \<Rightarrow> processPendingRequests_loop c q' (out @ [SendEvent (RequestEvent (req_Proposal r))]))
        })"
  by pat_completeness auto
termination
  by (relation "measure (\<lambda>(c, q, out). length q)")
    (auto simp: prque_Pop_def dest: heap_Pop_contents(3))

definition processPendingRequests :: "core \<Rightarrow> core option" where
  "processPendingRequests c = do {
     (q, out) \<leftarrow> processPendingRequests_loop c (c_pendingRequests c) (c_out c);
     Some (c\<lparr>c_pendingRequests := q, c_out := out\<rparr>)
   }"

section \<open>State and timers\<close>

definition setState :: "State \<Rightarrow> core \<Rightarrow> core option" where
  "setState state c = do {
     let c = (if c_state c \<noteq> state then c\<lparr>c_state := state\<rparr> else c);
     c \<leftarrow> (if state = StateAcceptRequest then processPendingRequests c else Some c);
     processBacklog c
   }"

definition updateRoundState :: "env \<Rightarrow> View \<Rightarrow> defaultSet \<Rightarrow> bool \<Rightarrow> core \<Rightarrow> core" where
  "updateRoundState e view validatorSet roundChange c =
     c\<lparr>c_current := Some (case (roundChange, c_current c) of
         (True, Some cur) \<Rightarrow>
           if IsHashLocked (e_HasBadProposal e) cur
           then newRoundState view validatorSet (GetLockedHash cur) (rs_Preprepare cur) (rs_pendingRequest cur)
           else newRoundState view validatorSet 0 None (rs_pendingRequest cur)
       | _ \<Rightarrow> newRoundState view validatorSet 0 None None)\<rparr>"

definition stopFuturePreprepareTimer :: "core \<Rightarrow> core" where
  "stopFuturePreprepareTimer c =
     (if c_futurePreprepareTimer c then emit StopFuturePreprepareTimer c else c)"

definition stopTimer :: "core \<Rightarrow> core" where
  "stopTimer c =
     (let c = stopFuturePreprepareTimer c
      in if c_roundChangeTimer c then emit StopRoundChangeTimer c else c)"

text \<open>
  Durations are 64-bit counts of nanoseconds.  \<^verbatim>\<open>math.Pow(2, r)\<close> is exact; from \<open>r = 63\<close> on it does
  not fit the integer it is converted to, which gives the smallest integer on amd64.
\<close>

definition roundTimeout :: "u64 \<Rightarrow> u64 \<Rightarrow> u64" where
  "roundTimeout requestTimeout round =
     (let timeout = requestTimeout * 1000000
      in if round > 0 then timeout + (if round < 63 then 2 ^ unat round else 2 ^ 63) * 1000000000
         else timeout)"

definition newRoundChangeTimer :: "core \<Rightarrow> core option" where
  "newRoundChangeTimer c = do {
     let c = stopTimer c;
     cur \<leftarrow> c_current c;
     let timeout = roundTimeout (cfg_RequestTimeout (c_config c)) (big_Uint64 (rs_round cur));
     Some (emit (RoundChangeTimer timeout) (c\<lparr>c_roundChangeTimer := True\<rparr>))
   }"

section \<open>Sending\<close>

definition PrepareCommittedSeal :: "hash \<Rightarrow> bytes" where
  "PrepareCommittedSeal hsh = Hash_Bytes hsh @ [ucast msgCommit]"

definition finalizeMessage :: "env \<Rightarrow> message \<Rightarrow> core \<Rightarrow> (bft_error + bytes) option" where
  "finalizeMessage e msg c = do {
     let msg = msg\<lparr>msg_Address := c_address c, msg_CommittedSeal := []\<rparr>;
     sealed \<leftarrow> (if msg_Code msg = msgCommit then do {
         cur \<leftarrow> c_current c;
         (case rs_Proposal cur of
            None \<Rightarrow> Some (Inr msg)
          | Some proposal \<Rightarrow> do {
              h \<leftarrow> Block_Hash (e_kec e) proposal;
              Some (map_sum id (\<lambda>s. msg\<lparr>msg_CommittedSeal := s\<rparr>) (e_Sign e (PrepareCommittedSeal h)))
            })
       } else Some (Inr msg));
     (case sealed of
        Inl err \<Rightarrow> Some (Inl err)
      | Inr msg \<Rightarrow> do {
          d \<leftarrow> PayloadNoSig msg;
          (case d of
             Inl err \<Rightarrow> Some (Inl err)
           | Inr dat \<Rightarrow>
               (case e_Sign e dat of
                  Inl err \<Rightarrow> Some (Inl err)
                | Inr sig \<Rightarrow> Payload (msg\<lparr>msg_Signature := sig\<rparr>)))
        })
   }"

definition broadcast :: "env \<Rightarrow> u64 \<Rightarrow> bytes \<Rightarrow> core \<Rightarrow> core option" where
  "broadcast e code m c = do {
     r \<leftarrow> finalizeMessage e \<lparr>msg_Code = code, msg_Msg = m, msg_Address = 0, msg_Signature = [],
       msg_CommittedSeal = []\<rparr> c;
     Some (case r of
        Inl err \<Rightarrow> c
      | Inr payload \<Rightarrow> emit (Broadcast (c_valSet c) payload) c)
   }"

definition sendPreprepare :: "env \<Rightarrow> Request \<Rightarrow> core \<Rightarrow> core option" where
  "sendPreprepare e request c = do {
     cur \<leftarrow> c_current c;
     proposal \<leftarrow> req_Proposal request;
     n \<leftarrow> Block_Number proposal;
     if rs_sequence cur = n \<and> isProposer e c then do {
       curView \<leftarrow> currentView c;
       r \<leftarrow> bft_Encode (Preprepare_EncodeRLP \<lparr>pp_View = curView, pp_Proposal = proposal\<rparr>);
       (case r of
          Inl err \<Rightarrow> Some c
        | Inr preprepare \<Rightarrow> broadcast e msgPreprepare preprepare c)
     } else Some c
   }"

text \<open>Encoding a nil subject calls a method on a nil pointer.\<close>

definition sendPrepare :: "env \<Rightarrow> core \<Rightarrow> core option" where
  "sendPrepare e c = do {
     cur \<leftarrow> c_current c;
     s \<leftarrow> rs_Subject (e_kec e) cur;
     sub \<leftarrow> s;
     r \<leftarrow> bft_Encode (Subject_EncodeRLP sub);
     (case r of
        Inl err \<Rightarrow> Some c
      | Inr encodedSubject \<Rightarrow> broadcast e msgPrepare encodedSubject c)
   }"

definition broadcastCommit :: "env \<Rightarrow> Subject \<Rightarrow> core \<Rightarrow> core option" where
  "broadcastCommit e sub c = do {
     r \<leftarrow> bft_Encode (Subject_EncodeRLP sub);
     (case r of
        Inl err \<Rightarrow> Some c
      | Inr encodedSubject \<Rightarrow> broadcast e msgCommit encodedSubject c)
   }"

definition sendCommit :: "env \<Rightarrow> core \<Rightarrow> core option" where
  "sendCommit e c = do {
     cur \<leftarrow> c_current c;
     s \<leftarrow> rs_Subject (e_kec e) cur;
     sub \<leftarrow> s;
     broadcastCommit e sub c
   }"

definition sendCommitForOldBlock :: "env \<Rightarrow> View \<Rightarrow> hash \<Rightarrow> core \<Rightarrow> core option" where
  "sendCommitForOldBlock e view digest c = broadcastCommit e \<lparr>sub_View = view, sub_Digest = digest\<rparr> c"

section \<open>Rounds\<close>

text \<open>
  The choice at the start of \<^verbatim>\<open>startNewRound\<close>: return at once (\<open>None\<close>), or go on with the value of
  \<^verbatim>\<open>roundChange\<close>.
\<close>

definition startNewRound_guard :: "env \<Rightarrow> int \<Rightarrow> core \<Rightarrow> bool option option" where
  "startNewRound_guard e round c =
     (case c_current c of
        None \<Rightarrow> Some (Some False)
      | Some cur \<Rightarrow> do {
          lastProposal \<leftarrow> fst (e_LastProposal e);
          n \<leftarrow> Block_Number lastProposal;
          Some (if n \<ge> rs_sequence cur then Some False
                else if n = sint ((word_of_int (rs_sequence cur) :: u64) - 1) then
                  if round = 0 then None
                  else if round < rs_round cur then None
                  else Some True
                else None)
        })"

definition startNewRound_view :: "env \<Rightarrow> int \<Rightarrow> bool \<Rightarrow> core \<Rightarrow> (View \<times> core) option" where
  "startNewRound_view e round roundChange c =
     (if roundChange then do {
        cur \<leftarrow> c_current c;
        Some (\<lparr>vw_Round = round, vw_Sequence = rs_sequence cur\<rparr>, c)
      } else do {
        lastProposal \<leftarrow> fst (e_LastProposal e);
        n \<leftarrow> Block_Number lastProposal;
        Some (\<lparr>vw_Round = 0, vw_Sequence = n + 1\<rparr>, c\<lparr>c_valSet := Some (e_Validators e lastProposal)\<rparr>)
      })"

definition proposeLocked :: "env \<Rightarrow> core \<Rightarrow> core option" where
  "proposeLocked e c = do {
     cur \<leftarrow> c_current c;
     if IsHashLocked (e_HasBadProposal e) cur then sendPreprepare e \<lparr>req_Proposal = rs_Proposal cur\<rparr> c
     else (case rs_pendingRequest cur of
             Some r \<Rightarrow> sendPreprepare e r c
           | None \<Rightarrow> Some c)
   }"

definition startNewRound :: "env \<Rightarrow> int \<Rightarrow> core \<Rightarrow> core option" where
  "startNewRound e round c = do {
     g \<leftarrow> startNewRound_guard e round c;
     (case g of
        None \<Rightarrow> Some c
      | Some roundChange \<Rightarrow> do {
          (newView, c) \<leftarrow> startNewRound_view e round roundChange c;
          valSet \<leftarrow> c_valSet c;
          let c = c\<lparr>c_roundChangeSet := Some (newRoundChangeSet valSet)\<rparr>;
          let c = updateRoundState e newView valSet roundChange c;
          let c = c\<lparr>c_valSet := Some (CalcProposer valSet (snd (e_LastProposal e)) (big_Uint64 (vw_Round newView)))\<rparr>;
          let c = c\<lparr>c_waitingForRoundChange := False\<rparr>;
          c \<leftarrow> setState StateAcceptRequest c;
          c \<leftarrow> (if roundChange \<and> isProposer e c \<and> c_current c \<noteq> None then proposeLocked e c else Some c);
          newRoundChangeTimer c
        })
   }"

definition catchUpRound :: "env \<Rightarrow> View \<Rightarrow> core \<Rightarrow> core option" where
  "catchUpRound e view c = do {
     cur \<leftarrow> c_current c;
     valSet \<leftarrow> c_valSet c;
     let c = c\<lparr>c_waitingForRoundChange := True\<rparr>;
     let c = updateRoundState e view valSet True c;
     rcs \<leftarrow> c_roundChangeSet c;
     newRoundChangeTimer (c\<lparr>c_roundChangeSet := Some (rc_Clear (e_iter e) (vw_Round view) rcs)\<rparr>)
   }"

definition sendRoundChange :: "env \<Rightarrow> int \<Rightarrow> core \<Rightarrow> core option" where
  "sendRoundChange e round c = do {
     cv \<leftarrow> currentView c;
     if vw_Round cv \<ge> round then Some c
     else do {
       c \<leftarrow> catchUpRound e \<lparr>vw_Round = round, vw_Sequence = vw_Sequence cv\<rparr> c;
       cv \<leftarrow> currentView c;
       r \<leftarrow> bft_Encode (Subject_EncodeRLP \<lparr>sub_View = cv, sub_Digest = 0\<rparr>);
       (case r of
          Inl err \<Rightarrow> Some c
        | Inr payload \<Rightarrow> broadcast e msgRoundChange payload c)
     }
   }"

definition sendNextRoundChange :: "env \<Rightarrow> core \<Rightarrow> core option" where
  "sendNextRoundChange e c = do {
     cv \<leftarrow> currentView c;
     sendRoundChange e (vw_Round cv + 1) c
   }"

definition copySeal :: "bytes \<Rightarrow> bytes" where
  "copySeal s = take BFTExtraSeal s @ replicate (BFTExtraSeal - length s) 0"

definition commit :: "env \<Rightarrow> core \<Rightarrow> core option" where
  "commit e c = do {
     c \<leftarrow> setState StateCommitted c;
     cur \<leftarrow> c_current c;
     (case rs_Proposal cur of
        None \<Rightarrow> Some c
      | Some proposal \<Rightarrow>
          let committedSeals = map (copySeal \<circ> msg_CommittedSeal) (ms_Values (e_iter e) (rs_Commits cur));
              c = emit (Commit proposal committedSeals) c
          in (case e_Commit e proposal committedSeals of
                Some err \<Rightarrow> sendNextRoundChange e (c\<lparr>c_current := Some (UnlockHash cur)\<rparr>)
              | None \<Rightarrow> Some c))
   }"

section \<open>Handlers\<close>

definition handleRequest :: "env \<Rightarrow> Request \<Rightarrow> core \<Rightarrow> (bft_error option \<times> core) option" where
  "handleRequest e request c = do {
     cur \<leftarrow> c_current c;
     r \<leftarrow> checkRequestMsg request c;
     (case r of
        Some err \<Rightarrow> Some (Some err, c)
      | None \<Rightarrow> do {
          let c = c\<lparr>c_current := Some (cur\<lparr>rs_pendingRequest := Some request\<rparr>)\<rparr>;
          c \<leftarrow> (if c_state c = StateAcceptRequest then sendPreprepare e request c else Some c);
          Some (None, c)
        })
   }"

definition acceptPreprepare :: "Preprepare \<Rightarrow> core \<Rightarrow> core option" where
  "acceptPreprepare preprepare c = do {
     cur \<leftarrow> c_current c;
     Some (c\<lparr>c_current := Some (SetPreprepare preprepare cur)\<rparr>)
   }"

text \<open>A PRE-PREPARE of an earlier view: the block it proposes may be committed already.\<close>

definition handleOldPreprepare ::
  "env \<Rightarrow> Preprepare \<Rightarrow> validator \<Rightarrow> core \<Rightarrow> (bft_error option \<times> core) option" where
  "handleOldPreprepare e preprepare src c = do {
     let valSet = valset_Copy (e_kec e) (e_ref e) (e_ParentValidators e (pp_Proposal preprepare));
     n \<leftarrow> Block_Number (pp_Proposal preprepare);
     let previousProposer = e_GetProposer e (big_Uint64 n - 1);
     let valSet = CalcProposer valSet previousProposer (big_Uint64 (vw_Round (pp_View preprepare)));
     if IsProposer valSet (v_address src) then do {
       h \<leftarrow> Block_Hash (e_kec e) (pp_Proposal preprepare);
       if e_HasPropsal e h n then do {
         c \<leftarrow> sendCommitForOldBlock e (pp_View preprepare) h c;
         Some (None, c)
       } else Some (Some errOldMessage, c)
     } else Some (Some errOldMessage, c)
   }"

text \<open>The end of \<^verbatim>\<open>handlePreprepare\<close>, for a verified proposal of the current view.\<close>

definition handleVerifiedPreprepare :: "env \<Rightarrow> Preprepare \<Rightarrow> core \<Rightarrow> core option" where
  "handleVerifiedPreprepare e preprepare c =
     (if c_state c = StateAcceptRequest then do {
        cur \<leftarrow> c_current c;
        if IsHashLocked (e_HasBadProposal e) cur then do {
          h \<leftarrow> Block_Hash (e_kec e) (pp_Proposal preprepare);
          if h = GetLockedHash cur then do {
            c \<leftarrow> acceptPreprepare preprepare c;
            c \<leftarrow> setState StatePrepared c;
            sendCommit e c
          } else sendNextRoundChange e c
        } else do {
          c \<leftarrow> acceptPreprepare preprepare c;
          c \<leftarrow> setState StatePreprepared c;
          sendPrepare e c
        }
      } else Some c)"

definition handlePreprepare :: "env \<Rightarrow> message \<Rightarrow> validator \<Rightarrow> core \<Rightarrow> (bft_error option \<times> core) option" where
  "handlePreprepare e msg src c = do {
     d \<leftarrow> Decode_Preprepare msg;
     (case d of
        Inl err \<Rightarrow> Some (Some errFailedDecodePreprepare, c)
      | Inr preprepare \<Rightarrow> do {
          r \<leftarrow> checkMessage msgPreprepare (Some (pp_View preprepare)) c;
          (case r of
             Some err \<Rightarrow>
               if err = errOldMessage then handleOldPreprepare e preprepare src c else Some (Some err, c)
           | None \<Rightarrow> do {
               valSet \<leftarrow> c_valSet c;
               if \<not> IsProposer valSet (v_address src) then Some (Some errNotFromProposer, c)
               else (case e_Verify e (pp_Proposal preprepare) of
                   (duration, Some err) \<Rightarrow>
                     if err = ErrFutureBlock then
                       let c = stopFuturePreprepareTimer c
                       in Some (Some err, emit (FuturePreprepareTimer duration (backlogEvent src msg))
                            (c\<lparr>c_futurePreprepareTimer := True\<rparr>))
                     else do {
                       c \<leftarrow> sendNextRoundChange e c;
                       Some (Some err, c)
                     }
                 | (duration, None) \<Rightarrow> do {
                     c \<leftarrow> handleVerifiedPreprepare e preprepare c;
                     Some (None, c)
                   })
             })
        })
   }"

definition verifyPrepare :: "env \<Rightarrow> Subject \<Rightarrow> core \<Rightarrow> bft_error option option" where
  "verifyPrepare e prepare c = do {
     cur \<leftarrow> c_current c;
     sub \<leftarrow> rs_Subject (e_kec e) cur;
     Some (if Some prepare \<noteq> sub then Some errInconsistentSubject else None)
   }"

definition acceptPrepare :: "message \<Rightarrow> core \<Rightarrow> core option" where
  "acceptPrepare msg c = do {
     cur \<leftarrow> c_current c;
     Some (c\<lparr>c_current := Some (cur\<lparr>rs_Prepares := snd (ms_Add msg (rs_Prepares cur))\<rparr>)\<rparr>)
   }"

definition preparedQuorum :: "env \<Rightarrow> Subject \<Rightarrow> core \<Rightarrow> bool option" where
  "preparedQuorum e prepare c = do {
     cur \<leftarrow> c_current c;
     valSet \<leftarrow> c_valSet c;
     Some (((IsHashLocked (e_HasBadProposal e) cur \<and> sub_Digest prepare = GetLockedHash cur) \<or>
             GetPrepareOrCommitSize (e_iter e) cur > 2 * valset_F valSet) \<and>
           State_Cmp (c_state c) StatePrepared < 0)
   }"

definition lockCurrent :: "env \<Rightarrow> core \<Rightarrow> core option" where
  "lockCurrent e c = do {
     cur \<leftarrow> c_current c;
     cur \<leftarrow> LockHash (e_kec e) cur;
     Some (c\<lparr>c_current := Some cur\<rparr>)
   }"

definition handlePrepare :: "env \<Rightarrow> message \<Rightarrow> validator \<Rightarrow> core \<Rightarrow> (bft_error option \<times> core) option" where
  "handlePrepare e msg src c = do {
     d \<leftarrow> Decode_Subject msg;
     (case d of
        Inl err \<Rightarrow> Some (Some errFailedDecodePrepare, c)
      | Inr prepare \<Rightarrow> do {
          r \<leftarrow> checkMessage msgPrepare (Some (sub_View prepare)) c;
          (case r of
             Some err \<Rightarrow> Some (Some err, c)
           | None \<Rightarrow> do {
               r \<leftarrow> verifyPrepare e prepare c;
               (case r of
                  Some err \<Rightarrow> Some (Some err, c)
                | None \<Rightarrow> do {
                    c \<leftarrow> acceptPrepare msg c;
                    q \<leftarrow> preparedQuorum e prepare c;
                    c \<leftarrow> (if q then do {
                            c \<leftarrow> lockCurrent e c;
                            c \<leftarrow> setState StatePrepared c;
                            sendCommit e c
                          } else Some c);
                    Some (None, c)
                  })
             })
        })
   }"

definition verifyCommit :: "env \<Rightarrow> Subject \<Rightarrow> core \<Rightarrow> bft_error option option" where
  "verifyCommit e sub c = do {
     cur \<leftarrow> c_current c;
     own \<leftarrow> rs_Subject (e_kec e) cur;
     Some (if Some sub \<noteq> own then Some errInconsistentSubject else None)
   }"

definition acceptCommit :: "message \<Rightarrow> core \<Rightarrow> core option" where
  "acceptCommit msg c = do {
     cur \<leftarrow> c_current c;
     Some (c\<lparr>c_current := Some (cur\<lparr>rs_Commits := snd (ms_Add msg (rs_Commits cur))\<rparr>)\<rparr>)
   }"

definition committedQuorum :: "core \<Rightarrow> bool option" where
  "committedQuorum c = do {
     cur \<leftarrow> c_current c;
     valSet \<leftarrow> c_valSet c;
     Some (int (ms_Size (rs_Commits cur)) > 2 * valset_F valSet \<and> State_Cmp (c_state c) StateCommitted < 0)
   }"

definition handleCommit :: "env \<Rightarrow> message \<Rightarrow> validator \<Rightarrow> core \<Rightarrow> (bft_error option \<times> core) option" where
  "handleCommit e msg src c = do {
     d \<leftarrow> Decode_Subject msg;
     (case d of
        Inl err \<Rightarrow> Some (Some errFailedDecodeCommit, c)
      | Inr sub \<Rightarrow> do {
          r \<leftarrow> checkMessage msgCommit (Some (sub_View sub)) c;
          (case r of
             Some err \<Rightarrow> Some (Some err, c)
           | None \<Rightarrow> do {
               r \<leftarrow> verifyCommit e sub c;
               (case r of
                  Some err \<Rightarrow> Some (Some err, c)
                | None \<Rightarrow> do {
                    c \<leftarrow> acceptCommit msg c;
                    q \<leftarrow> committedQuorum c;
                    c \<leftarrow> (if q then do {
                            c \<leftarrow> lockCurrent e c;
                            commit e c
                          } else Some c);
                    Some (None, c)
                  })
             })
        })
   }"

definition handleRoundChange :: "env \<Rightarrow> message \<Rightarrow> validator \<Rightarrow> core \<Rightarrow> (bft_error option \<times> core) option" where
  "handleRoundChange e msg src c = do {
     d \<leftarrow> Decode_Subject msg;
     (case d of
        Inl err \<Rightarrow> Some (Some errInvalidMessage, c)
      | Inr rc \<Rightarrow> do {
          r \<leftarrow> checkMessage msgRoundChange (Some (sub_View rc)) c;
          (case r of
             Some err \<Rightarrow> Some (Some err, c)
           | None \<Rightarrow> do {
               cv \<leftarrow> currentView c;
               rcs \<leftarrow> c_roundChangeSet c;
               let round = vw_Round (sub_View rc);
               let (res, rcs) = rc_Add round msg rcs;
               let c = c\<lparr>c_roundChangeSet := Some rcs\<rparr>;
               (case res of
                  Inl err \<Rightarrow> Some (Some err, c)
                | Inr num \<Rightarrow> do {
                    valSet \<leftarrow> c_valSet c;
                    if c_waitingForRoundChange c \<and> int num = valset_F valSet + 1 then do {
                      c \<leftarrow> (if vw_Round cv < round then sendRoundChange e round c else Some c);
                      Some (None, c)
                    }
                    else if int num = 2 * valset_F valSet + 1 \<and> (c_waitingForRoundChange c \<or> vw_Round cv < round)
                    then do {
                      c \<leftarrow> startNewRound e round c;
                      Some (None, c)
                    }
                    else Some (if vw_Round cv < round then Some errIgnored else None, c)
                  })
             })
        })
   }"

definition handleFinalCommitted :: "env \<Rightarrow> core \<Rightarrow> core option" where
  "handleFinalCommitted e c = startNewRound e 0 c"

definition handleTimeoutMsg :: "env \<Rightarrow> core \<Rightarrow> core option" where
  "handleTimeoutMsg e c = do {
     maxRound \<leftarrow> (if \<not> c_waitingForRoundChange c then do {
         rcs \<leftarrow> c_roundChangeSet c;
         valSet \<leftarrow> c_valSet c;
         cur \<leftarrow> c_current c;
         Some (case rc_MaxRound (valset_F valSet + 1) rcs of
                 Some r \<Rightarrow> if r > rs_round cur then Some r else None
               | None \<Rightarrow> None)
       } else Some None);
     (case maxRound of
        Some r \<Rightarrow> sendRoundChange e r c
      | None \<Rightarrow>
          (case fst (e_LastProposal e) of
             None \<Rightarrow> sendNextRoundChange e c
           | Some lastProposal \<Rightarrow> do {
               n \<leftarrow> Block_Number lastProposal;
               cur \<leftarrow> c_current c;
               if n \<ge> rs_sequence cur then startNewRound e 0 c else sendNextRoundChange e c
             }))
   }"

definition testBacklog ::
  "message \<Rightarrow> validator \<Rightarrow> bft_error option \<times> core \<Rightarrow> (bft_error option \<times> core) option" where
  "testBacklog msg src r =
     (if fst r = Some errFutureMessage
      then map_option (Pair (fst r)) (storeBacklog msg src (snd r)) else Some r)"

definition handleCheckedMsg :: "env \<Rightarrow> message \<Rightarrow> validator \<Rightarrow> core \<Rightarrow> (bft_error option \<times> core) option" where
  "handleCheckedMsg e msg src c =
     (if msg_Code msg = msgPreprepare then handlePreprepare e msg src c \<bind> testBacklog msg src
      else if msg_Code msg = msgPrepare then handlePrepare e msg src c \<bind> testBacklog msg src
      else if msg_Code msg = msgCommit then handleCommit e msg src c \<bind> testBacklog msg src
      else if msg_Code msg = msgRoundChange then handleRoundChange e msg src c \<bind> testBacklog msg src
      else Some (Some errInvalidMessage, c))"

definition checkValidatorSignature :: "env \<Rightarrow> defaultSet \<Rightarrow> bytes \<Rightarrow> bytes \<Rightarrow> bft_error + address" where
  "checkValidatorSignature e valSet dat sig = CheckValidatorSignature (e_kec e) (e_rcv e) valSet dat sig"

definition handleMsg :: "env \<Rightarrow> bytes \<Rightarrow> core \<Rightarrow> (bft_error option \<times> core) option" where
  "handleMsg e payload c = do {
     valSet \<leftarrow> c_valSet c;
     r \<leftarrow> FromPayload payload (Some (checkValidatorSignature e valSet));
     (case r of
        Inl err \<Rightarrow> Some (Some err, c)
      | Inr msg \<Rightarrow>
          (case snd (GetByAddress valSet (msg_Address msg)) of
             None \<Rightarrow> Some (Some ErrUnauthorizedAddress, c)
           | Some src \<Rightarrow> handleCheckedMsg e msg src c))
   }"

section \<open>The event loop\<close>

text \<open>One turn of the loop of \<^verbatim>\<open>handleEvents\<close>.\<close>

fun handleEvent :: "env \<Rightarrow> event \<Rightarrow> core \<Rightarrow> core option" where
  "handleEvent e (RequestEvent proposal) c = do {
     (err, c) \<leftarrow> handleRequest e \<lparr>req_Proposal = proposal\<rparr> c;
     if err = Some errFutureMessage then storeRequestMsg \<lparr>req_Proposal = proposal\<rparr> c else Some c
   }"
| "handleEvent e (MessageEvent payload) c = do {
     (err, c) \<leftarrow> handleMsg e payload c;
     Some (if err = None then emit (Gossip (c_valSet c) payload) c else c)
   }"
| "handleEvent e (backlogEvent src msg) c = do {
     (err, c) \<leftarrow> handleCheckedMsg e msg src c;
     if err = None then do {
       p \<leftarrow> Payload msg;
       Some (case p of
          Inl err \<Rightarrow> c
        | Inr p \<Rightarrow> emit (Gossip (c_valSet c) p) c)
     } else Some c
   }"
| "handleEvent e timeoutEvent c = handleTimeoutMsg e c"
| "handleEvent e FinalCommittedEvent c = handleFinalCommitted e c"

definition Start :: "env \<Rightarrow> core \<Rightarrow> core option" where
  "Start e c = startNewRound e 0 c"

definition Stop :: "core \<Rightarrow> core" where
  "Stop c = (stopTimer c)\<lparr>c_current := None\<rparr>"

end
