(* ===== verification/BFT_Frame.thy ===== *)
theory BFT_Frame
  imports BFT_Core
begin

text \<open>
  What the operations of the core leave alone.  Two core states are the \<open>same\<close> when they agree on
  everything the protocol decides on; an operation is \<open>quiet\<close> when it keeps that and appends only
  internal effects (posted events and timers).  The lemmas of this theory give, for every operation,
  the fields it changes and the effects it appends, so that invariants are proved without unfolding it.
\<close>

definition same :: "core \<Rightarrow> core \<Rightarrow> bool" where
  "same c c' \<longleftrightarrow> c_config c' = c_config c \<and> c_address c' = c_address c \<and> c_valSet c' = c_valSet c \<and>
     c_waitingForRoundChange c' = c_waitingForRoundChange c \<and> c_current c' = c_current c \<and>
     c_roundChangeSet c' = c_roundChangeSet c"

definition ext :: "(effect \<Rightarrow> bool) \<Rightarrow> core \<Rightarrow> core \<Rightarrow> bool" where
  "ext P c c' \<longleftrightarrow> (\<exists>os. c_out c' = c_out c @ os \<and> (\<forall>x \<in> set os. P x))"

fun internal :: "effect \<Rightarrow> bool" where
  "internal (Broadcast _ _) = False"
| "internal (Gossip _ _) = False"
| "internal (Commit _ _) = False"
| "internal _ = True"

definition quiet :: "core \<Rightarrow> core \<Rightarrow> bool" where
  "quiet c c' \<longleftrightarrow> same c c' \<and> ext internal c c'"

lemma same_refl [simp]: "same c c"
  by (simp add: same_def)

lemma same_trans: "same a b \<Longrightarrow> same b c \<Longrightarrow> same a c"
  by (simp add: same_def)

lemma ext_refl [simp]: "ext P c c"
  by (simp add: ext_def)

lemma ext_trans: "ext P a b \<Longrightarrow> ext P b c \<Longrightarrow> ext P a c"
  unfolding ext_def by (metis Un_iff append.assoc set_append)

lemma ext_mono: "ext P a b \<Longrightarrow> (\<And>x. P x \<Longrightarrow> Q x) \<Longrightarrow> ext Q a b"
  unfolding ext_def by blast

lemma ext_cong: "c_out a = c_out a' \<Longrightarrow> c_out b = c_out b' \<Longrightarrow> ext P a b = ext P a' b'"
  by (simp add: ext_def)

lemma ext_emit [simp]: "P x \<Longrightarrow> ext P c (emit x c)"
  by (simp add: ext_def emit_def)

lemma same_emit [simp]: "same c (emit x c)"
  by (simp add: same_def emit_def)

lemma emit_simps [simp]:
  "c_state (emit x c) = c_state c" "c_current (emit x c) = c_current c" "c_valSet (emit x c) = c_valSet c"
  "c_waitingForRoundChange (emit x c) = c_waitingForRoundChange c" "c_address (emit x c) = c_address c"
  "c_roundChangeSet (emit x c) = c_roundChangeSet c" "c_config (emit x c) = c_config c"
  "c_out (emit x c) = c_out c @ [x]" "c_backlogs (emit x c) = c_backlogs c"
  "c_pendingRequests (emit x c) = c_pendingRequests c" "c_roundChangeTimer (emit x c) = c_roundChangeTimer c"
  "c_futurePreprepareTimer (emit x c) = c_futurePreprepareTimer c"
  by (simp_all add: emit_def)

lemma quiet_refl [simp]: "quiet c c"
  by (simp add: quiet_def)

lemma quiet_trans: "quiet a b \<Longrightarrow> quiet b c \<Longrightarrow> quiet a c"
  unfolding quiet_def using same_trans ext_trans by blast

lemma quiet_same: "quiet c c' \<Longrightarrow> same c c'"
  by (simp add: quiet_def)

lemma quiet_ext: "quiet c c' \<Longrightarrow> ext internal c c'"
  by (simp add: quiet_def)

lemma currentView_Some:
  "currentView c = Some v \<longleftrightarrow>
     (\<exists>cur. c_current c = Some cur \<and> v = \<lparr>vw_Round = rs_round cur, vw_Sequence = rs_sequence cur\<rparr>)"
  by (auto simp: currentView_def bind_eq_Some_conv)

section \<open>Backlog and pending requests\<close>

declare processBacklog_loop.simps [simp del] processPendingRequests_loop.simps [simp del]

lemma prque_Pop_length: "prque_Pop q = Some (x, r) \<Longrightarrow> length r < length q"
  by (auto simp: prque_Pop_def dest: heap_Pop_contents(3))

lemma processBacklog_loop_out:
  "processBacklog_loop c src q out = Some (q', out') \<Longrightarrow> \<exists>os. out' = out @ os \<and> (\<forall>x \<in> set os. internal x)"
proof (induction q arbitrary: out rule: measure_induct_rule [where f = length])
  case (less q)
  show ?case
  proof (cases "prque_Pop q")
    case None
    with less.prems show ?thesis
      by (subst (asm) processBacklog_loop.simps) simp
  next
    case (Some p)
    then obtain msg prio r where p: "prque_Pop q = Some ((msg, prio), r)"
      by (metis surj_pair)
    have IH: "processBacklog_loop c src r (out @ os) = Some (q', out') \<Longrightarrow> \<forall>x \<in> set os. internal x \<Longrightarrow>
        \<exists>os. out' = out @ os \<and> (\<forall>x \<in> set os. internal x)" for os
      using less.IH [OF prque_Pop_length [OF p], of "out @ os"] by fastforce
    show ?thesis
      using less.prems IH [of "[]"] IH [of "[SendEvent (backlogEvent src msg)]"]
      by (subst (asm) processBacklog_loop.simps) (simp add: p split: op_splits)
  qed
qed

lemma processBacklog_all_out:
  "processBacklog_all c bs out = Some (bs', out') \<Longrightarrow> \<exists>os. out' = out @ os \<and> (\<forall>x \<in> set os. internal x)"
proof (induction bs arbitrary: bs' out out')
  case (Cons b bs)
  obtain src q where b: "b = (src, q)"
    by fastforce
  with Cons.prems obtain q' out1 bs1 where loop: "processBacklog_loop c src q out = Some (q', out1)"
    "processBacklog_all c bs out1 = Some (bs1, out')"
    by (auto split: op_splits)
  obtain os os1 where "out1 = out @ os" "\<forall>x \<in> set os. internal x" "out' = out1 @ os1" "\<forall>x \<in> set os1. internal x"
    using processBacklog_loop_out [OF loop(1)] Cons.IH [OF loop(2)] by blast
  then show ?case
    by (intro exI [of _ "os @ os1"]) auto
qed simp

lemma processBacklog_quiet: "processBacklog c = Some c' \<Longrightarrow> quiet c c' \<and> c_state c' = c_state c"
  by (auto simp: processBacklog_def quiet_def same_def ext_def split: op_splits dest: processBacklog_all_out)

lemma processPendingRequests_loop_out:
  "processPendingRequests_loop c q out = Some (q', out') \<Longrightarrow> \<exists>os. out' = out @ os \<and> (\<forall>x \<in> set os. internal x)"
proof (induction q arbitrary: out rule: measure_induct_rule [where f = length])
  case (less q)
  show ?case
  proof (cases "prque_Pop q")
    case None
    with less.prems show ?thesis
      by (subst (asm) processPendingRequests_loop.simps) simp
  next
    case (Some p)
    then obtain req prio r where p: "prque_Pop q = Some ((req, prio), r)"
      by (metis surj_pair)
    have IH: "processPendingRequests_loop c r (out @ os) = Some (q', out') \<Longrightarrow> \<forall>x \<in> set os. internal x \<Longrightarrow>
        \<exists>os. out' = out @ os \<and> (\<forall>x \<in> set os. internal x)" for os
      using less.IH [OF prque_Pop_length [OF p], of "out @ os"] by fastforce
    show ?thesis
      using less.prems IH [of "[]"] IH [of "[SendEvent (RequestEvent (req_Proposal req))]"]
      by (subst (asm) processPendingRequests_loop.simps) (simp add: p split: op_splits)
  qed
qed

lemma processPendingRequests_quiet:
  "processPendingRequests c = Some c' \<Longrightarrow> quiet c c' \<and> c_state c' = c_state c"
  by (auto simp: processPendingRequests_def quiet_def same_def ext_def split: op_splits
      dest: processPendingRequests_loop_out)

lemma setState_quiet:
  assumes "setState s c = Some c'"
  shows "quiet c c'" and "c_state c' = s"
proof -
  define c0 where "c0 = (if c_state c \<noteq> s then c\<lparr>c_state := s\<rparr> else c)"
  have c0: "quiet c c0" "c_state c0 = s"
    by (auto simp: c0_def quiet_def same_def ext_def)
  obtain d where d: "d = c0 \<or> processPendingRequests c0 = Some d" "processBacklog d = Some c'"
    using assms by (auto simp: setState_def c0_def [symmetric] Let_def split: op_splits)
  have q: "quiet c0 d" "c_state d = c_state c0"
    using d(1) processPendingRequests_quiet by auto
  have "quiet d c'" "c_state c' = c_state d"
    using processBacklog_quiet [OF d(2)] by auto
  then show "quiet c c'" "c_state c' = s"
    using quiet_trans [OF quiet_trans [OF c0(1) q(1)]] q(2) c0(2) by simp_all
qed

lemma storeBacklog_quiet: "storeBacklog msg src c = Some c' \<Longrightarrow> quiet c c' \<and> c_state c' = c_state c \<and> c_out c' = c_out c"
  by (auto simp: storeBacklog_def quiet_def same_def ext_def Let_def split: if_split_asm bind_split_asm)

lemma storeRequestMsg_quiet: "storeRequestMsg r c = Some c' \<Longrightarrow> quiet c c' \<and> c_state c' = c_state c \<and> c_out c' = c_out c"
  by (auto simp: storeRequestMsg_def quiet_def same_def ext_def split: bind_split_asm)

lemma stopTimer_quiet:
  "quiet c (stopFuturePreprepareTimer c)" "c_state (stopFuturePreprepareTimer c) = c_state c"
  "quiet c (stopTimer c)" "c_state (stopTimer c) = c_state c"
  by (auto simp: stopTimer_def stopFuturePreprepareTimer_def quiet_def same_def ext_def)

lemma newRoundChangeTimer_quiet:
  assumes "newRoundChangeTimer c = Some c'"
  shows "quiet c c'" and "c_state c' = c_state c"
proof -
  have "quiet d (emit (RoundChangeTimer t) (d\<lparr>c_roundChangeTimer := True\<rparr>))" for d t
    by (simp add: quiet_def same_def ext_def)
  then show "quiet c c'" "c_state c' = c_state c"
    using assms stopTimer_quiet(3,4) [of c] quiet_trans
    by (auto simp: newRoundChangeTimer_def Let_def split: bind_split_asm)
qed

section \<open>Messages sent\<close>

text \<open>An effect that broadcasts a message of the given code and contents, or of the given subject.\<close>

definition sent :: "u64 \<Rightarrow> bytes \<Rightarrow> effect \<Rightarrow> bool" where
  "sent code m x \<longleftrightarrow> (\<exists>vs payload msg. x = Broadcast vs payload \<and> Payload msg = Some (Inr payload) \<and>
     msg_Code msg = code \<and> msg_Msg msg = m)"

definition sent_subject :: "u64 \<Rightarrow> Subject \<Rightarrow> effect \<Rightarrow> bool" where
  "sent_subject code sub x \<longleftrightarrow> (\<exists>m. bft_Encode (Subject_EncodeRLP sub) = Some (Inr m) \<and> sent code m x)"

lemma finalizeMessage_Payload:
  assumes "finalizeMessage e msg c = Some (Inr payload)"
  obtains msg' where "Payload msg' = Some (Inr payload)" "msg_Code msg' = msg_Code msg" "msg_Msg msg' = msg_Msg msg"
    "msg_Address msg' = c_address c"
proof -
  have "\<exists>msg'. Payload msg' = Some (Inr payload) \<and> msg_Code msg' = msg_Code msg \<and> msg_Msg msg' = msg_Msg msg \<and>
      msg_Address msg' = c_address c"
    using assms by (fastforce simp: finalizeMessage_def Let_def map_sum_eq_Inr split: op_splits)
  then show thesis
    using that by blast
qed

lemma broadcast_frame:
  assumes "broadcast e code m c = Some c'"
  shows "same c c'" and "c_state c' = c_state c" and "ext (sent code m) c c'"
proof -
  have "c' = c \<or> (\<exists>payload. c' = emit (Broadcast (c_valSet c) payload) c \<and> sent code m (Broadcast (c_valSet c) payload))"
    using assms by (auto simp: broadcast_def sent_def split: op_splits elim!: finalizeMessage_Payload)
  then show "same c c'" "c_state c' = c_state c" "ext (sent code m) c c'"
    by auto
qed

lemma broadcast_subject:
  assumes "c' = c \<or> (\<exists>m. bft_Encode (Subject_EncodeRLP sub) = Some (Inr m) \<and> broadcast e code m c = Some c')"
  shows "same c c'" and "c_state c' = c_state c" and "ext (sent_subject code sub) c c'"
proof -
  have "ext (sent_subject code sub) c c'"
    if "bft_Encode (Subject_EncodeRLP sub) = Some (Inr m)" "broadcast e code m c = Some c'" for m
    using that(1) by (intro ext_mono [OF broadcast_frame(3) [OF that(2)]]) (auto simp: sent_subject_def)
  then show "same c c'" "c_state c' = c_state c" "ext (sent_subject code sub) c c'"
    using assms broadcast_frame by auto
qed

lemma sendPreprepare_frame:
  assumes "sendPreprepare e r c = Some c'"
  shows "same c c'" and "c_state c' = c_state c" and "ext (\<lambda>x. \<exists>m. sent msgPreprepare m x) c c'"
proof -
  have "c' = c \<or> (\<exists>m. broadcast e msgPreprepare m c = Some c')"
    using assms by (auto simp: sendPreprepare_def split: op_splits)
  moreover have "ext (\<lambda>x. \<exists>m. sent msgPreprepare m x) c c'" if "broadcast e msgPreprepare m c = Some c'" for m
    by (rule ext_mono [OF broadcast_frame(3) [OF that]]) blast
  ultimately show "same c c'" "c_state c' = c_state c" "ext (\<lambda>x. \<exists>m. sent msgPreprepare m x) c c'"
    using broadcast_frame by auto
qed

lemma broadcastCommit_frame:
  assumes "broadcastCommit e sub c = Some c'"
  shows "same c c'" and "c_state c' = c_state c" and "ext (sent_subject msgCommit sub) c c'"
proof -
  have "c' = c \<or> (\<exists>m. bft_Encode (Subject_EncodeRLP sub) = Some (Inr m) \<and> broadcast e msgCommit m c = Some c')"
    using assms by (auto simp: broadcastCommit_def split: op_splits)
  then show "same c c'" "c_state c' = c_state c" "ext (sent_subject msgCommit sub) c c'"
    by (fact broadcast_subject)+
qed

lemma sendCommit_frame:
  assumes "sendCommit e c = Some c'"
  obtains cur sub where "c_current c = Some cur" "rs_Subject (e_kec e) cur = Some (Some sub)" "same c c'"
    "c_state c' = c_state c" "ext (sent_subject msgCommit sub) c c'"
  using assms broadcastCommit_frame that by (auto simp: sendCommit_def split: bind_split_asm)

lemma sendPrepare_frame:
  assumes "sendPrepare e c = Some c'"
  obtains cur sub where "c_current c = Some cur" "rs_Subject (e_kec e) cur = Some (Some sub)" "same c c'"
    "c_state c' = c_state c" "ext (sent_subject msgPrepare sub) c c'"
proof -
  obtain cur sub where cur: "c_current c = Some cur" "rs_Subject (e_kec e) cur = Some (Some sub)"
    and c': "c' = c \<or> (\<exists>m. bft_Encode (Subject_EncodeRLP sub) = Some (Inr m) \<and> broadcast e msgPrepare m c = Some c')"
    using assms by (auto simp: sendPrepare_def split: op_splits)
  show thesis
    by (rule that [OF cur broadcast_subject [OF c']])
qed

section \<open>Rounds\<close>

lemma updateRoundState_simps [simp]:
  "c_state (updateRoundState e v vs rc c) = c_state c" "c_valSet (updateRoundState e v vs rc c) = c_valSet c"
  "c_waitingForRoundChange (updateRoundState e v vs rc c) = c_waitingForRoundChange c"
  "c_address (updateRoundState e v vs rc c) = c_address c" "c_config (updateRoundState e v vs rc c) = c_config c"
  "c_roundChangeSet (updateRoundState e v vs rc c) = c_roundChangeSet c" "c_out (updateRoundState e v vs rc c) = c_out c"
  by (simp_all add: updateRoundState_def)

text \<open>The round state that a node enters when it changes to the round of \<open>view\<close>.\<close>

definition nextRoundState :: "(hash \<Rightarrow> bool) \<Rightarrow> View \<Rightarrow> defaultSet \<Rightarrow> roundState \<Rightarrow> roundState" where
  "nextRoundState bad view vs cur =
     (if IsHashLocked bad cur
      then newRoundState view vs (GetLockedHash cur) (rs_Preprepare cur) (rs_pendingRequest cur)
      else newRoundState view vs 0 None (rs_pendingRequest cur))"

lemma c_current_updateRoundState:
  "c_current (updateRoundState e view vs rc c) = Some (case (rc, c_current c) of
     (True, Some cur) \<Rightarrow> nextRoundState (e_HasBadProposal e) view vs cur
   | _ \<Rightarrow> newRoundState view vs 0 None None)"
  by (auto simp: updateRoundState_def nextRoundState_def split: option.splits bool.splits)

lemma catchUpRound_cases:
  assumes "catchUpRound e view c = Some c'"
  obtains cur vs rcs where "c_current c = Some cur" "c_valSet c = Some vs" "c_roundChangeSet c = Some rcs"
    "c_current c' = Some (nextRoundState (e_HasBadProposal e) view vs cur)" "c_valSet c' = Some vs"
    "c_roundChangeSet c' = Some (rc_Clear (e_iter e) (vw_Round view) rcs)" "c_waitingForRoundChange c'"
    "c_state c' = c_state c" "c_address c' = c_address c" "c_config c' = c_config c" "ext internal c c'"
proof -
  obtain cur vs rcs d where cur: "c_current c = Some cur" "c_valSet c = Some vs" "c_roundChangeSet c = Some rcs"
    and d: "d = (updateRoundState e view vs True (c\<lparr>c_waitingForRoundChange := True\<rparr>))
      \<lparr>c_roundChangeSet := Some (rc_Clear (e_iter e) (vw_Round view) rcs)\<rparr>"
    and c': "newRoundChangeTimer d = Some c'"
    using assms by (auto simp: catchUpRound_def Let_def split: bind_split_asm)
  have "same d c'" "ext internal d c'" "c_state c' = c_state d"
    using newRoundChangeTimer_quiet [OF c'] by (auto simp: quiet_def)
  moreover have "c_current d = Some (nextRoundState (e_HasBadProposal e) view vs cur)" "c_out d = c_out c"
    using cur by (simp_all add: d c_current_updateRoundState)
  moreover have "ext internal c c'"
    using \<open>ext internal d c'\<close> \<open>c_out d = c_out c\<close> by (simp add: ext_def)
  ultimately show thesis
    using cur that by (simp add: same_def d)
qed

lemma sendRoundChange_cases:
  assumes "sendRoundChange e round c = Some c'"
  obtains (stay) cur where "c' = c" "c_current c = Some cur" "round \<le> rs_round cur"
  | (change) cur vs rcs view where "c_current c = Some cur" "c_valSet c = Some vs" "c_roundChangeSet c = Some rcs"
    "rs_round cur < round" "view = \<lparr>vw_Round = round, vw_Sequence = rs_sequence cur\<rparr>"
    "c_current c' = Some (nextRoundState (e_HasBadProposal e) view vs cur)" "c_valSet c' = Some vs"
    "c_roundChangeSet c' = Some (rc_Clear (e_iter e) round rcs)" "c_waitingForRoundChange c'"
    "c_state c' = c_state c" "c_address c' = c_address c" "c_config c' = c_config c"
    "ext (\<lambda>x. internal x \<or> sent_subject msgRoundChange \<lparr>sub_View = view, sub_Digest = 0\<rparr> x) c c'"
proof -
  obtain cv where cv: "currentView c = Some cv"
    using assms by (auto simp: sendRoundChange_def split: bind_split_asm)
  then obtain cur where cur: "c_current c = Some cur"
    and cv': "cv = \<lparr>vw_Round = rs_round cur, vw_Sequence = rs_sequence cur\<rparr>"
    by (auto simp: currentView_Some)
  show thesis
  proof (cases "round \<le> rs_round cur")
    case True
    with assms cv cv' cur show ?thesis
      by (intro stay) (auto simp: sendRoundChange_def)
  next
    case False
    let ?view = "\<lparr>vw_Round = round, vw_Sequence = rs_sequence cur\<rparr>"
    from False assms cv cv' obtain d dv where d: "catchUpRound e ?view c = Some d" and dv: "currentView d = Some dv"
      and c': "c' = d \<or> (\<exists>m. bft_Encode (Subject_EncodeRLP \<lparr>sub_View = dv, sub_Digest = 0\<rparr>) = Some (Inr m) \<and>
        broadcast e msgRoundChange m d = Some c')"
      by (auto simp: sendRoundChange_def split: op_splits)
    have send: "same d c'" "c_state c' = c_state d"
      "ext (sent_subject msgRoundChange \<lparr>sub_View = dv, sub_Digest = 0\<rparr>) d c'"
      by (fact broadcast_subject [OF c'])+
    from d show ?thesis
    proof (rule catchUpRound_cases)
      fix cur' vs rcs
      assume a: "c_current c = Some cur'" "c_valSet c = Some vs" "c_roundChangeSet c = Some rcs"
        "c_current d = Some (nextRoundState (e_HasBadProposal e) ?view vs cur')" "c_valSet d = Some vs"
        "c_roundChangeSet d = Some (rc_Clear (e_iter e) (vw_Round ?view) rcs)" "c_waitingForRoundChange d"
        "c_state d = c_state c" "c_address d = c_address c" "c_config d = c_config c" "ext internal c d"
      have "dv = ?view"
        using dv a(4) by (auto simp: currentView_Some nextRoundState_def)
      with send(3) have "ext (\<lambda>x. internal x \<or> sent_subject msgRoundChange \<lparr>sub_View = ?view, sub_Digest = 0\<rparr> x) c c'"
        by (intro ext_trans [OF ext_mono [OF a(11)] ext_mono [OF send(3)]]) auto
      with a send False cur show ?thesis
        by (intro change [of cur' vs rcs ?view]) (auto simp: same_def)
    qed
  qed
qed

lemma sendNextRoundChange_cases:
  assumes "sendNextRoundChange e c = Some c'"
  obtains cur where "c_current c = Some cur" "sendRoundChange e (rs_round cur + 1) c = Some c'"
  using assms that by (auto simp: sendNextRoundChange_def currentView_Some split: bind_split_asm)

lemma proposeLocked_frame:
  assumes "proposeLocked e c = Some c'"
  shows "same c c'" and "c_state c' = c_state c" and "ext (\<lambda>x. \<exists>m. sent msgPreprepare m x) c c'"
proof -
  have "c' = c \<or> (\<exists>r. sendPreprepare e r c = Some c')"
    using assms by (auto simp: proposeLocked_def split: op_splits)
  then show "same c c'" "c_state c' = c_state c" "ext (\<lambda>x. \<exists>m. sent msgPreprepare m x) c c'"
    using sendPreprepare_frame by auto
qed

definition enterRound :: "env \<Rightarrow> View \<Rightarrow> defaultSet \<Rightarrow> bool \<Rightarrow> core \<Rightarrow> core" where
  "enterRound e view vs rc d =
     (updateRoundState e view vs rc (d\<lparr>c_roundChangeSet := Some (newRoundChangeSet vs)\<rparr>))
       \<lparr>c_valSet := Some (CalcProposer vs (snd (e_LastProposal e)) (big_Uint64 (vw_Round view))),
        c_waitingForRoundChange := False\<rparr>"

lemma startNewRound_run:
  assumes "startNewRound e round c = Some c'" and "startNewRound_guard e round c = Some (Some rc)"
  shows "\<exists>view d vs d2 d3. startNewRound_view e round rc c = Some (view, d) \<and> c_valSet d = Some vs \<and>
    setState StateAcceptRequest (enterRound e view vs rc d) = Some d2 \<and>
    (d3 = d2 \<or> proposeLocked e d2 = Some d3) \<and> newRoundChangeTimer d3 = Some c'"
proof -
  obtain view d vs d2 d3 where "startNewRound_view e round rc c = Some (view, d)" "c_valSet d = Some vs"
    "setState StateAcceptRequest (enterRound e view vs rc d) = Some d2"
    "(if rc \<and> isProposer e d2 \<and> c_current d2 \<noteq> None then proposeLocked e d2 else Some d2) = Some d3"
    "newRoundChangeTimer d3 = Some c'"
    using assms unfolding startNewRound_def Let_def enterRound_def by (auto simp: bind_eq_Some_conv)
  then show ?thesis
    by metis
qed

lemma startNewRound_cases:
  assumes "startNewRound e round c = Some c'"
  obtains (stay) "c' = c"
  | (start) roundChange view d vs where "startNewRound_guard e round c = Some (Some roundChange)"
    "startNewRound_view e round roundChange c = Some (view, d)" "c_valSet d = Some vs"
    "c_current c' = c_current (updateRoundState e view vs roundChange d)"
    "c_valSet c' = Some (CalcProposer vs (snd (e_LastProposal e)) (big_Uint64 (vw_Round view)))"
    "c_roundChangeSet c' = Some (newRoundChangeSet vs)" "\<not> c_waitingForRoundChange c'"
    "c_state c' = StateAcceptRequest" "c_address c' = c_address c" "c_config c' = c_config c"
    "ext (\<lambda>x. internal x \<or> (\<exists>m. sent msgPreprepare m x)) c c'"
proof -
  obtain g where g: "startNewRound_guard e round c = Some g"
    using assms by (auto simp: startNewRound_def split: bind_split_asm)
  show thesis
  proof (cases g)
    case None
    with g assms show ?thesis
      by (intro stay) (simp add: startNewRound_def)
  next
    case (Some rc)
    let ?P = "\<lambda>x. internal x \<or> (\<exists>m. sent msgPreprepare m x)"
    obtain view d vs d2 d3 where view: "startNewRound_view e round rc c = Some (view, d)"
      and vs: "c_valSet d = Some vs" and d2: "setState StateAcceptRequest (enterRound e view vs rc d) = Some d2"
      and d3: "d3 = d2 \<or> proposeLocked e d2 = Some d3" and c': "newRoundChangeTimer d3 = Some c'"
      using startNewRound_run [OF assms g [unfolded Some]] by blast
    let ?d1 = "enterRound e view vs rc d"
    have d: "d = c \<or> (\<exists>v. d = c\<lparr>c_valSet := Some v\<rparr>)"
      using view by (auto simp: startNewRound_view_def split: bind_split_asm if_split_asm)
    have q1: "quiet ?d1 d2" "c_state d2 = StateAcceptRequest"
      using setState_quiet [OF d2] by auto
    have q2: "same d2 d3" "c_state d3 = c_state d2" "ext (\<lambda>x. \<exists>m. sent msgPreprepare m x) d2 d3"
      using d3 proposeLocked_frame [of e d2 d3] by auto
    have q3: "quiet d3 c'" "c_state c' = c_state d3"
      using newRoundChangeTimer_quiet [OF c'] by auto
    have s: "same ?d1 c'"
      by (rule same_trans [OF same_trans [OF quiet_same [OF q1(1)] q2(1)] quiet_same [OF q3(1)]])
    have x: "ext ?P ?d1 c'"
      by (rule ext_trans [OF ext_trans [OF ext_mono [OF quiet_ext [OF q1(1)]] ext_mono [OF q2(3)]]
            ext_mono [OF quiet_ext [OF q3(1)]]]) auto
    have st: "c_state c' = StateAcceptRequest"
      using q1(2) q2(2) q3(2) by simp
    have "c_out ?d1 = c_out c"
      using d by (auto simp: enterRound_def)
    then have "ext ?P c c'"
      using x by (simp add: ext_def)
    with s st d show ?thesis
      by (intro start [OF _ view vs]) (auto simp: g Some same_def enterRound_def c_current_updateRoundState)
  qed
qed

end
