(* ===== verification/BFT_Invariant.thy ===== *)
theory BFT_Invariant
  imports BFT_Frame
begin

text \<open>
  The invariant of the consensus core and its preservation by every event.  The votes that a node
  has collected are from distinct validators and all name its current proposal and view; a node that
  still waits for a proposal has none; a lock is on the proposal that the node holds; the round
  change sets are well formed.
\<close>

definition vs_same :: "defaultSet \<Rightarrow> defaultSet \<Rightarrow> bool" where
  "vs_same a b \<longleftrightarrow> vs_validators a = vs_validators b"

definition votes :: "keccak \<Rightarrow> u64 \<Rightarrow> roundState \<Rightarrow> messageSet \<Rightarrow> bool" where
  "votes kec code cur ms \<longleftrightarrow> (\<forall>(a, m) \<in> set (ms_messages ms). msg_Code m = code \<and>
     (\<exists>sub. rs_Subject kec cur = Some (Some sub) \<and> Decode_Subject m = Some (Inr sub)))"

definition locked_on :: "keccak \<Rightarrow> roundState \<Rightarrow> bool" where
  "locked_on kec cur \<longleftrightarrow>
     (\<exists>pp. rs_Preprepare cur = Some pp \<and> Block_Hash kec (pp_Proposal pp) = Some (rs_lockedHash cur))"

definition rs_inv :: "keccak \<Rightarrow> (hash \<Rightarrow> bool) \<Rightarrow> defaultSet \<Rightarrow> State \<Rightarrow> roundState \<Rightarrow> bool" where
  "rs_inv kec bad vs st cur \<longleftrightarrow>
     vs_same (ms_valSet (rs_Prepares cur)) vs \<and> vs_same (ms_valSet (rs_Commits cur)) vs \<and>
     ms_wf (rs_Prepares cur) \<and> ms_wf (rs_Commits cur) \<and>
     votes kec msgPrepare cur (rs_Prepares cur) \<and> votes kec msgCommit cur (rs_Commits cur) \<and>
     (st = StateAcceptRequest \<longrightarrow> ms_messages (rs_Prepares cur) = [] \<and> ms_messages (rs_Commits cur) = []) \<and>
     (IsHashLocked bad cur \<longrightarrow> locked_on kec cur)"

definition core_inv :: "keccak \<Rightarrow> (hash \<Rightarrow> bool) \<Rightarrow> core \<Rightarrow> bool" where
  "core_inv kec bad c \<longleftrightarrow> (\<forall>cur. c_current c = Some cur \<longrightarrow>
     (\<exists>vs rcs. c_valSet c = Some vs \<and> c_roundChangeSet c = Some rcs \<and> rc_wf rcs \<and>
        vs_same (rc_validatorSet rcs) vs \<and> rs_inv kec bad vs (c_state c) cur))"

section \<open>Shared facts\<close>

lemma vs_same_simps [simp]: "vs_same vs vs" "vs_same (CalcProposer vs p r) w = vs_same vs w"
  "vs_same w (CalcProposer vs p r) = vs_same w vs"
  by (simp_all add: vs_same_def CalcProposer_def)

lemma vs_same_F: "vs_same a b \<Longrightarrow> valset_F a = valset_F b"
  by (simp add: vs_same_def valset_F_def valset_Size_def)

lemma vs_same_addrs: "vs_same a b \<Longrightarrow> valset_addrs a = valset_addrs b"
  by (simp add: vs_same_def valset_addrs_def)

lemma votes_empty [simp]: "ms_messages ms = [] \<Longrightarrow> votes kec code cur ms"
  by (simp add: votes_def)

lemma votes_cong:
  "rs_Subject kec cur = rs_Subject kec cur' \<Longrightarrow> votes kec code cur ms = votes kec code cur' ms"
  by (simp add: votes_def)

lemma rs_Subject_cong:
  "rs_Preprepare cur = rs_Preprepare cur' \<Longrightarrow> rs_round cur = rs_round cur' \<Longrightarrow> rs_sequence cur = rs_sequence cur' \<Longrightarrow>
     rs_Subject kec cur = rs_Subject kec cur'"
  by (auto simp: rs_Subject_def split: option.split)

lemma votes_Add:
  assumes "votes kec code cur ms" and "ms_wf ms" and "msg_Code msg = code"
    and "rs_Subject kec cur = Some (Some sub)" and "Decode_Subject msg = Some (Inr sub)"
  shows "votes kec code cur (snd (ms_Add msg ms))"
  using assms ms_Add_cases [of msg ms "fst (ms_Add msg ms)" "snd (ms_Add msg ms)"]
  by (auto simp: votes_def addVerifiedMessage_def set_AList_update ms_wf_def)

lemma newRoundState_inv [simp]: "rs_inv kec bad vs st (newRoundState view vs 0 None r)"
  by (simp add: rs_inv_def IsHashLocked_def EmptyHash_def)

lemma nextRoundState_inv: "rs_inv kec bad vs st cur \<Longrightarrow> rs_inv kec bad vs st' (nextRoundState bad view vs cur)"
  by (auto simp: nextRoundState_def rs_inv_def IsHashLocked_def EmptyHash_def locked_on_def GetLockedHash_def)

lemma rs_inv_vs_same: "vs_same vs ws \<Longrightarrow> rs_inv kec bad vs st cur = rs_inv kec bad ws st cur"
  by (simp add: rs_inv_def vs_same_def)

lemma rs_inv_CalcProposer [simp]: "rs_inv kec bad (CalcProposer vs p r) st cur = rs_inv kec bad vs st cur"
  by (simp add: rs_inv_def)

lemma core_inv_same: "same c c' \<Longrightarrow> c_state c' = c_state c \<Longrightarrow> core_inv kec bad c' = core_inv kec bad c"
  by (simp add: core_inv_def same_def)

lemma core_inv_state:
  "core_inv kec bad c \<Longrightarrow> same c c' \<Longrightarrow> c_state c' \<noteq> StateAcceptRequest \<Longrightarrow> core_inv kec bad c'"
  by (fastforce simp: core_inv_def same_def rs_inv_def)

lemma core_inv_current:
  assumes "core_inv kec bad c" and "c_current c = Some cur" and "same (c\<lparr>c_current := Some cur'\<rparr>) c'" and "c_state c' = c_state c"
    and "\<And>vs. rs_inv kec bad vs (c_state c) cur \<Longrightarrow> rs_inv kec bad vs (c_state c) cur'"
  shows "core_inv kec bad c'"
  using assms by (fastforce simp: core_inv_def same_def)

lemma sendRoundChange_inv:
  assumes "sendRoundChange e round c = Some c'" and "core_inv kec bad c" and "e_HasBadProposal e = bad"
  shows "core_inv kec bad c'"
  using assms(1)
proof (cases rule: sendRoundChange_cases)
  case (change cur vs rcs view)
  then have "rs_inv kec bad vs (c_state c) cur" "rc_wf rcs" "vs_same (rc_validatorSet rcs) vs"
    using assms(2) by (auto simp: core_inv_def)
  then show ?thesis
    using change assms(3) by (simp add: core_inv_def nextRoundState_inv)
qed (use assms in simp)

lemma sendNextRoundChange_inv:
  assumes "sendNextRoundChange e c = Some c'" and "core_inv kec bad c" and "e_HasBadProposal e = bad"
  shows "core_inv kec bad c'"
  by (rule sendNextRoundChange_cases [OF assms(1)]) (rule sendRoundChange_inv [OF _ assms(2,3)])

lemma startNewRound_inv:
  assumes "startNewRound e round c = Some c'" and "core_inv kec bad c" and "e_HasBadProposal e = bad"
  shows "core_inv kec bad c'"
  using assms(1)
proof (cases rule: startNewRound_cases)
  case (start roundChange view d vs)
  show ?thesis
  proof (cases roundChange)
    case True
    then have d: "d = c" "\<exists>cur. c_current c = Some cur"
      using start(2) by (auto simp: startNewRound_view_def split: bind_split_asm)
    then obtain cur where cur: "c_current c = Some cur" "rs_inv kec bad vs (c_state c) cur"
      using assms(2) start(3) by (auto simp: core_inv_def)
    then have "rs_inv kec bad vs StateAcceptRequest (nextRoundState bad view vs cur)"
      using nextRoundState_inv by blast
    then show ?thesis
      using start True d cur assms(3) by (simp add: core_inv_def c_current_updateRoundState)
  next
    case False
    then show ?thesis
      using start False by (simp add: core_inv_def c_current_updateRoundState)
  qed
qed (use assms in simp)

section \<open>Handlers\<close>

lemma View_Cmp_iff [simp]:
  "View_Cmp v w > 0 \<longleftrightarrow> vw_Sequence v > vw_Sequence w \<or> vw_Sequence v = vw_Sequence w \<and> vw_Round v > vw_Round w"
  "View_Cmp v w < 0 \<longleftrightarrow> vw_Sequence v < vw_Sequence w \<or> vw_Sequence v = vw_Sequence w \<and> vw_Round v < vw_Round w"
  by (auto simp: View_Cmp_def)

lemma checkMessage_vote:
  assumes "checkMessage code (Some view) c = Some None" and "code = msgPrepare \<or> code = msgCommit"
  obtains cur where "c_current c = Some cur" "view = \<lparr>vw_Round = rs_round cur, vw_Sequence = rs_sequence cur\<rparr>"
    "\<not> c_waitingForRoundChange c" "c_state c \<noteq> StateAcceptRequest"
proof -
  have "code \<noteq> msgRoundChange" "code > msgPreprepare"
    using assms(2) by (auto simp: msg_codes)
  then show thesis
    using assms(1) that by (auto simp: checkMessage_def currentView_def split: bind_split_asm if_split_asm)
qed

lemma checkMessage_preprepare:
  assumes "checkMessage msgPreprepare (Some view) c = Some None"
  obtains cur where "c_current c = Some cur" "view = \<lparr>vw_Round = rs_round cur, vw_Sequence = rs_sequence cur\<rparr>"
    "\<not> c_waitingForRoundChange c"
proof -
  have "msgPreprepare \<noteq> msgRoundChange"
    by (simp add: msg_codes)
  then show thesis
    using assms that by (auto simp: checkMessage_def currentView_def split: bind_split_asm if_split_asm)
qed

text \<open>An accepted PREPARE: the vote is added, and with a quorum the node locks and commits to it.\<close>

lemma handlePrepare_cases:
  assumes "handlePrepare e msg src c = Some (r, c')"
  obtains (reject) err where "r = Some err" "c' = c"
  | (accept) sub cur cur1 c1 where "r = None" "Decode_Subject msg = Some (Inr sub)"
    "checkMessage msgPrepare (Some (sub_View sub)) c = Some None" "c_current c = Some cur"
    "rs_Subject (e_kec e) cur = Some (Some sub)" "cur1 = cur\<lparr>rs_Prepares := snd (ms_Add msg (rs_Prepares cur))\<rparr>"
    "c1 = c\<lparr>c_current := Some cur1\<rparr>"
    "c' = c1 \<or> (preparedQuorum e sub c1 = Some True \<and> (\<exists>c2 c3. lockCurrent e c1 = Some c2 \<and>
       setState StatePrepared c2 = Some c3 \<and> sendCommit e c3 = Some c'))"
proof -
  have "(\<exists>err. r = Some err \<and> c' = c) \<or> (\<exists>sub cur. r = None \<and> Decode_Subject msg = Some (Inr sub) \<and>
      checkMessage msgPrepare (Some (sub_View sub)) c = Some None \<and> c_current c = Some cur \<and>
      rs_Subject (e_kec e) cur = Some (Some sub) \<and>
      (let c1 = c\<lparr>c_current := Some (cur\<lparr>rs_Prepares := snd (ms_Add msg (rs_Prepares cur))\<rparr>)\<rparr> in
        c' = c1 \<or> (preparedQuorum e sub c1 = Some True \<and> (\<exists>c2 c3. lockCurrent e c1 = Some c2 \<and>
          setState StatePrepared c2 = Some c3 \<and> sendCommit e c3 = Some c'))))"
    using assms unfolding handlePrepare_def verifyPrepare_def acceptPrepare_def
    by (auto simp: Let_def split: op_splits)
  then show thesis
    using reject accept by (auto simp: Let_def)
qed

lemma handleCommit_cases:
  assumes "handleCommit e msg src c = Some (r, c')"
  obtains (reject) err where "r = Some err" "c' = c"
  | (accept) sub cur cur1 c1 where "r = None" "Decode_Subject msg = Some (Inr sub)"
    "checkMessage msgCommit (Some (sub_View sub)) c = Some None" "c_current c = Some cur"
    "rs_Subject (e_kec e) cur = Some (Some sub)" "cur1 = cur\<lparr>rs_Commits := snd (ms_Add msg (rs_Commits cur))\<rparr>"
    "c1 = c\<lparr>c_current := Some cur1\<rparr>"
    "c' = c1 \<or> (committedQuorum c1 = Some True \<and> (\<exists>c2. lockCurrent e c1 = Some c2 \<and> commit e c2 = Some c'))"
proof -
  have "(\<exists>err. r = Some err \<and> c' = c) \<or> (\<exists>sub cur. r = None \<and> Decode_Subject msg = Some (Inr sub) \<and>
      checkMessage msgCommit (Some (sub_View sub)) c = Some None \<and> c_current c = Some cur \<and>
      rs_Subject (e_kec e) cur = Some (Some sub) \<and>
      (let c1 = c\<lparr>c_current := Some (cur\<lparr>rs_Commits := snd (ms_Add msg (rs_Commits cur))\<rparr>)\<rparr> in
        c' = c1 \<or> (committedQuorum c1 = Some True \<and> (\<exists>c2. lockCurrent e c1 = Some c2 \<and> commit e c2 = Some c'))))"
    using assms unfolding handleCommit_def verifyCommit_def acceptCommit_def
    by (auto simp: Let_def split: op_splits)
  then show thesis
    using reject accept by (auto simp: Let_def)
qed

lemma LockHash_cases:
  assumes "LockHash kec cur = Some cur'"
  shows "cur' = cur\<lparr>rs_lockedHash := rs_lockedHash cur'\<rparr>"
    and "rs_Preprepare cur = Some pp \<Longrightarrow> Block_Hash kec (pp_Proposal pp) = Some (rs_lockedHash cur')"
    and "rs_Preprepare cur = None \<Longrightarrow> cur' = cur"
  using assms by (auto simp: LockHash_def split: option.split_asm bind_split_asm)

lemma lockCurrent_cases:
  assumes "lockCurrent e c = Some c'"
  obtains cur cur' where "c_current c = Some cur" "LockHash (e_kec e) cur = Some cur'" "c' = c\<lparr>c_current := Some cur'\<rparr>"
  using assms that by (auto simp: lockCurrent_def split: bind_split_asm)

lemma LockHash_inv:
  assumes "LockHash kec cur = Some cur'" and "rs_inv kec bad vs st cur"
  shows "rs_inv kec bad vs st cur'"
proof (cases "rs_Preprepare cur")
  case None
  then show ?thesis
    using LockHash_cases(3) [OF assms(1)] assms(2) by simp
next
  case (Some pp)
  obtain h where h: "cur' = cur\<lparr>rs_lockedHash := h\<rparr>"
    using LockHash_cases(1) [OF assms(1)] by blast
  have "locked_on kec cur'"
    using LockHash_cases(2) [OF assms(1) Some] Some h by (simp add: locked_on_def)
  moreover have "rs_Subject kec cur' = rs_Subject kec cur"
    by (rule rs_Subject_cong) (simp_all add: h)
  ultimately show ?thesis
    using assms(2) by (simp add: rs_inv_def h votes_def)
qed

lemma lockCurrent_inv:
  assumes "lockCurrent e c = Some c'" and "core_inv (e_kec e) bad c"
  shows "core_inv (e_kec e) bad c'"
  using assms(1)
proof (rule lockCurrent_cases)
  fix cur cur'
  assume *: "c_current c = Some cur" "LockHash (e_kec e) cur = Some cur'" "c' = c\<lparr>c_current := Some cur'\<rparr>"
  show ?thesis
    by (rule core_inv_current [OF assms(2) *(1), of cur']) (simp_all add: *(3) LockHash_inv [OF *(2)])
qed

lemma UnlockHash_inv: "rs_inv kec bad vs st cur \<Longrightarrow> rs_inv kec bad vs st (UnlockHash cur)"
  by (auto simp: rs_inv_def UnlockHash_def IsHashLocked_def EmptyHash_def votes_def
      rs_Subject_cong [of "cur\<lparr>rs_lockedHash := 0\<rparr>" cur])

lemma setState_inv:
  assumes "setState st c = Some c'" and "core_inv kec bad c" and "st \<noteq> StateAcceptRequest"
  shows "core_inv kec bad c'"
  using core_inv_state [OF assms(2) quiet_same [OF setState_quiet(1) [OF assms(1)]]] setState_quiet(2) [OF assms(1)] assms(3)
  by simp

text \<open>
  Committing: the certificate is handed to the backend; when the backend refuses it, the node gives up
  its lock and asks for a round change.
\<close>

lemma commit_cases:
  assumes "commit e c = Some c'"
  obtains (none) cur where "c_current c = Some cur" "rs_Preprepare cur = None" "quiet c c'" "c_state c' = StateCommitted"
  | (commit) cur pp d seals where "c_current c = Some cur" "rs_Preprepare cur = Some pp" "quiet c d"
    "c_state d = StateCommitted" "seals = map (copySeal \<circ> msg_CommittedSeal) (ms_Values (e_iter e) (rs_Commits cur))"
    "c' = emit (Commit (pp_Proposal pp) seals) d \<or>
       sendNextRoundChange e ((emit (Commit (pp_Proposal pp) seals) d)\<lparr>c_current := Some (UnlockHash cur)\<rparr>) = Some c'"
proof -
  obtain d where d: "setState StateCommitted c = Some d"
    using assms by (auto simp: commit_def split: bind_split_asm)
  note q = setState_quiet [OF d]
  then have cur: "c_current d = c_current c"
    by (simp add: quiet_def same_def)
  then obtain cur where c: "c_current c = Some cur"
    using assms d by (auto simp: commit_def split: bind_split_asm)
  show thesis
  proof (cases "rs_Preprepare cur")
    case None
    then show ?thesis
      using none [OF c None] assms d q cur c by (simp add: commit_def rs_Proposal_def)
  next
    case (Some pp)
    then show ?thesis
      using commit [OF c Some q refl] assms d q cur c
      by (auto simp: commit_def rs_Proposal_def Let_def split: option.split_asm)
  qed
qed

lemma commit_inv:
  assumes "commit e c = Some c'" and "core_inv kec bad c" and "e_HasBadProposal e = bad"
  shows "core_inv kec bad c'"
  using assms(1)
proof (cases rule: commit_cases)
  case (none cur)
  then show ?thesis
    using core_inv_state [OF assms(2) quiet_same [OF none(3)]] by simp
next
  case (commit cur pp d seals)
  let ?d = "emit (Commit (pp_Proposal pp) seals) d"
  have inv: "core_inv kec bad d"
    using core_inv_state [OF assms(2) quiet_same [OF commit(3)]] commit(4) by simp
  have cur: "c_current d = Some cur"
    using commit(1) quiet_same [OF commit(3)] by (simp add: same_def)
  have "core_inv kec bad (?d\<lparr>c_current := Some (UnlockHash cur)\<rparr>)"
    by (rule core_inv_current [OF inv cur, of "UnlockHash cur"]) (simp_all add: same_def UnlockHash_inv)
  moreover have "core_inv kec bad ?d"
    using inv core_inv_same [of d ?d] by simp
  ultimately show ?thesis
    using commit(6) sendNextRoundChange_inv assms(3) by auto
qed

lemma vote_inv:
  assumes "core_inv kec bad c" and "c_current c = Some cur" and "rs_Subject kec cur = Some (Some sub)"
    and "Decode_Subject msg = Some (Inr sub)" and "c_state c \<noteq> StateAcceptRequest"
  shows "msg_Code msg = msgPrepare \<Longrightarrow>
      core_inv kec bad (c\<lparr>c_current := Some (cur\<lparr>rs_Prepares := snd (ms_Add msg (rs_Prepares cur))\<rparr>)\<rparr>)"
    and "msg_Code msg = msgCommit \<Longrightarrow>
      core_inv kec bad (c\<lparr>c_current := Some (cur\<lparr>rs_Commits := snd (ms_Add msg (rs_Commits cur))\<rparr>)\<rparr>)"
proof -
  let ?p = "cur\<lparr>rs_Prepares := snd (ms_Add msg (rs_Prepares cur))\<rparr>"
  let ?m = "cur\<lparr>rs_Commits := snd (ms_Add msg (rs_Commits cur))\<rparr>"
  have sub: "rs_Subject kec ?p = Some (Some sub)" "rs_Subject kec ?m = Some (Some sub)"
    using assms(3) rs_Subject_cong [of ?p cur kec] rs_Subject_cong [of ?m cur kec] by simp_all
  have lock: "IsHashLocked bad ?p = IsHashLocked bad cur" "IsHashLocked bad ?m = IsHashLocked bad cur"
    "locked_on kec ?p = locked_on kec cur" "locked_on kec ?m = locked_on kec cur"
    by (simp_all add: IsHashLocked_def GetLockedHash_def locked_on_def)
  have votes: "votes kec code ?p ms = votes kec code cur ms" "votes kec code ?m ms = votes kec code cur ms" for code ms
    using sub assms(3) by (simp_all add: votes_def)
  show "core_inv kec bad (c\<lparr>c_current := Some ?p\<rparr>)" if "msg_Code msg = msgPrepare"
    by (rule core_inv_current [OF assms(1,2), of ?p])
      (use votes_Add [OF _ _ that assms(3,4)] assms(5) lock votes in \<open>auto simp: rs_inv_def\<close>)
  show "core_inv kec bad (c\<lparr>c_current := Some ?m\<rparr>)" if "msg_Code msg = msgCommit"
    by (rule core_inv_current [OF assms(1,2), of ?m])
      (use votes_Add [OF _ _ that assms(3,4)] assms(5) lock votes in \<open>auto simp: rs_inv_def\<close>)
qed

lemma handlePrepare_inv:
  assumes "handlePrepare e msg src c = Some (r, c')" and "core_inv (e_kec e) bad c" and "msg_Code msg = msgPrepare"
  shows "core_inv (e_kec e) bad c'"
  using assms(1)
proof (cases rule: handlePrepare_cases)
  case (accept sub cur cur1 c1)
  have "c_state c \<noteq> StateAcceptRequest"
    using accept(3) by (rule checkMessage_vote) simp_all
  then have c1: "core_inv (e_kec e) bad c1"
    using vote_inv(1) [OF assms(2) accept(4,5,2)] assms(3) accept(6,7) by simp
  from accept(8) show ?thesis
  proof (elim disjE conjE exE)
    fix c2 c3
    assume *: "lockCurrent e c1 = Some c2" "setState StatePrepared c2 = Some c3" "sendCommit e c3 = Some c'"
    have "core_inv (e_kec e) bad c3"
      using setState_inv [OF *(2) lockCurrent_inv [OF *(1) c1]] by simp
    then show ?thesis
      by - (rule sendCommit_frame [OF *(3)], simp add: core_inv_same)
  qed (use c1 in simp)
qed (use assms in simp)

lemma handleCommit_inv:
  assumes "handleCommit e msg src c = Some (r, c')" and "core_inv (e_kec e) (e_HasBadProposal e) c"
    and "msg_Code msg = msgCommit"
  shows "core_inv (e_kec e) (e_HasBadProposal e) c'"
  using assms(1)
proof (cases rule: handleCommit_cases)
  case (accept sub cur cur1 c1)
  have "c_state c \<noteq> StateAcceptRequest"
    using accept(3) by (rule checkMessage_vote) simp_all
  then have c1: "core_inv (e_kec e) (e_HasBadProposal e) c1"
    using vote_inv(2) [OF assms(2) accept(4,5,2)] assms(3) accept(6,7) by simp
  with accept(8) show ?thesis
    using commit_inv [OF _ lockCurrent_inv [OF _ c1] refl] by blast
qed (use assms in simp)

lemma acceptPreprepare_cases:
  assumes "acceptPreprepare pp c = Some c'"
  obtains cur where "c_current c = Some cur" "c' = c\<lparr>c_current := Some (cur\<lparr>rs_Preprepare := Some pp\<rparr>)\<rparr>"
  using assms that by (auto simp: acceptPreprepare_def SetPreprepare_def split: bind_split_asm)

text \<open>A proposal is accepted only by a node without votes, and a locked node accepts its locked block only.\<close>

lemma acceptPreprepare_inv:
  assumes "acceptPreprepare pp c = Some c'" and "core_inv kec bad c" and "c_state c = StateAcceptRequest"
    and "\<And>cur. c_current c = Some cur \<Longrightarrow> IsHashLocked bad cur \<Longrightarrow>
      Block_Hash kec (pp_Proposal pp) = Some (rs_lockedHash cur)"
  shows "core_inv kec bad c'"
  using assms(1)
proof (rule acceptPreprepare_cases)
  fix cur
  assume *: "c_current c = Some cur" "c' = c\<lparr>c_current := Some (cur\<lparr>rs_Preprepare := Some pp\<rparr>)\<rparr>"
  show ?thesis
    by (rule core_inv_current [OF assms(2) *(1), of "cur\<lparr>rs_Preprepare := Some pp\<rparr>"])
      (use assms(3) assms(4) [OF *(1)] in
        \<open>auto simp: *(2) rs_inv_def locked_on_def IsHashLocked_def GetLockedHash_def\<close>)
qed

lemma handleVerifiedPreprepare_cases:
  assumes "handleVerifiedPreprepare e pp c = Some c'"
  obtains (stay) "c' = c"
  | (locked) cur c1 c2 where "c_state c = StateAcceptRequest" "c_current c = Some cur"
    "IsHashLocked (e_HasBadProposal e) cur" "Block_Hash (e_kec e) (pp_Proposal pp) = Some (rs_lockedHash cur)"
    "acceptPreprepare pp c = Some c1" "setState StatePrepared c1 = Some c2" "sendCommit e c2 = Some c'"
  | (other) cur where "c_state c = StateAcceptRequest" "c_current c = Some cur"
    "IsHashLocked (e_HasBadProposal e) cur" "sendNextRoundChange e c = Some c'"
  | (free) cur c1 c2 where "c_state c = StateAcceptRequest" "c_current c = Some cur"
    "\<not> IsHashLocked (e_HasBadProposal e) cur"
    "acceptPreprepare pp c = Some c1" "setState StatePreprepared c1 = Some c2" "sendPrepare e c2 = Some c'"
  using assms that
  by (auto simp: handleVerifiedPreprepare_def GetLockedHash_def split: bind_split_asm if_split_asm)

lemma handleVerifiedPreprepare_inv:
  assumes "handleVerifiedPreprepare e pp c = Some c'" and "core_inv (e_kec e) (e_HasBadProposal e) c"
  shows "core_inv (e_kec e) (e_HasBadProposal e) c'"
  using assms(1)
proof (cases rule: handleVerifiedPreprepare_cases)
  case (locked cur c1 c2)
  have "core_inv (e_kec e) (e_HasBadProposal e) c1"
    using locked by (intro acceptPreprepare_inv [OF _ assms(2)]) auto
  then have "core_inv (e_kec e) (e_HasBadProposal e) c2"
    using setState_inv [OF locked(6)] by simp
  then show ?thesis
    by - (rule sendCommit_frame [OF locked(7)], simp add: core_inv_same)
next
  case (other cur)
  then show ?thesis
    using sendNextRoundChange_inv assms(2) by blast
next
  case (free cur c1 c2)
  have "core_inv (e_kec e) (e_HasBadProposal e) c1"
    using free by (intro acceptPreprepare_inv [OF _ assms(2)]) auto
  then have "core_inv (e_kec e) (e_HasBadProposal e) c2"
    using setState_inv [OF free(5)] by simp
  then show ?thesis
    by - (rule sendPrepare_frame [OF free(6)], simp add: core_inv_same)
qed (use assms in simp)

lemma handleOldPreprepare_cases:
  assumes "handleOldPreprepare e pp src c = Some (r, c')"
  shows "c' = c \<and> r = Some errOldMessage \<or> (r = None \<and> (\<exists>h n. Block_Hash (e_kec e) (pp_Proposal pp) = Some h \<and>
    e_HasPropsal e h n \<and> broadcastCommit e \<lparr>sub_View = pp_View pp, sub_Digest = h\<rparr> c = Some c'))"
  using assms by (auto simp: handleOldPreprepare_def sendCommitForOldBlock_def Let_def split: bind_split_asm if_split_asm)

lemma handlePreprepare_cases:
  assumes "handlePreprepare e msg src c = Some (r, c')"
  obtains (reject) err where "r = Some err" "c' = c"
  | (old) pp where "Decode_Preprepare msg = Some (Inr pp)"
    "checkMessage msgPreprepare (Some (pp_View pp)) c = Some (Some errOldMessage)" "handleOldPreprepare e pp src c = Some (r, c')"
  | (future) err where "r = Some err" "quiet c c'" "c_state c' = c_state c"
  | (bad) err where "r = Some err" "sendNextRoundChange e c = Some c'"
  | (accept) pp vs where "Decode_Preprepare msg = Some (Inr pp)" "r = None" "c_valSet c = Some vs"
    "checkMessage msgPreprepare (Some (pp_View pp)) c = Some None" "IsProposer vs (v_address src)"
    "snd (e_Verify e (pp_Proposal pp)) = None" "handleVerifiedPreprepare e pp c = Some c'"
proof -
  have q: "quiet c (emit (FuturePreprepareTimer t ev) ((stopFuturePreprepareTimer c)\<lparr>c_futurePreprepareTimer := True\<rparr>))" for t ev
    using stopTimer_quiet(1) [of c] by (auto simp: quiet_def same_def ext_def)
  have "(\<exists>err. r = Some err \<and> c' = c) \<or>
      (\<exists>pp. Decode_Preprepare msg = Some (Inr pp) \<and> checkMessage msgPreprepare (Some (pp_View pp)) c = Some (Some errOldMessage) \<and>
        handleOldPreprepare e pp src c = Some (r, c')) \<or>
      (\<exists>err. r = Some err \<and> quiet c c' \<and> c_state c' = c_state c) \<or>
      (\<exists>err. r = Some err \<and> sendNextRoundChange e c = Some c') \<or>
      (\<exists>pp vs. Decode_Preprepare msg = Some (Inr pp) \<and> r = None \<and> c_valSet c = Some vs \<and>
        checkMessage msgPreprepare (Some (pp_View pp)) c = Some None \<and> IsProposer vs (v_address src) \<and>
        snd (e_Verify e (pp_Proposal pp)) = None \<and> handleVerifiedPreprepare e pp c = Some c')"
    using assms q unfolding handlePreprepare_def Let_def
    by (auto split: bind_split_asm sum.split_asm option.split_asm if_split_asm prod.split_asm simp: stopTimer_quiet)
  then show thesis
    using reject old future bad accept by blast
qed

lemma handlePreprepare_inv:
  assumes "handlePreprepare e msg src c = Some (r, c')" and "core_inv (e_kec e) (e_HasBadProposal e) c"
  shows "core_inv (e_kec e) (e_HasBadProposal e) c'"
  using assms(1)
proof (cases rule: handlePreprepare_cases)
  case (old pp)
  then show ?thesis
    using handleOldPreprepare_cases [OF old(3)] broadcastCommit_frame core_inv_same assms(2) by metis
next
  case (future err)
  then show ?thesis
    using assms(2) quiet_same core_inv_same by metis
next
  case (bad err)
  then show ?thesis
    using sendNextRoundChange_inv assms(2) by blast
next
  case (accept pp vs)
  then show ?thesis
    using handleVerifiedPreprepare_inv assms(2) by blast
qed (use assms in simp)

lemma handleRoundChange_cases:
  assumes "handleRoundChange e msg src c = Some (r, c')"
  obtains (reject) err where "r = Some err" "c' = c"
  | (added) rc rcs res rcs' d where "Decode_Subject msg = Some (Inr rc)"
    "checkMessage msgRoundChange (Some (sub_View rc)) c = Some None" "c_roundChangeSet c = Some rcs"
    "rc_Add (vw_Round (sub_View rc)) msg rcs = (res, rcs')" "d = c\<lparr>c_roundChangeSet := Some rcs'\<rparr>"
    "c' = d \<or> (r = None \<and> (sendRoundChange e (vw_Round (sub_View rc)) d = Some c' \<or>
       startNewRound e (vw_Round (sub_View rc)) d = Some c'))"
proof -
  have "(\<exists>err. r = Some err \<and> c' = c) \<or> (\<exists>rc rcs res rcs'. Decode_Subject msg = Some (Inr rc) \<and>
      checkMessage msgRoundChange (Some (sub_View rc)) c = Some None \<and> c_roundChangeSet c = Some rcs \<and>
      rc_Add (vw_Round (sub_View rc)) msg rcs = (res, rcs') \<and>
      (let d = c\<lparr>c_roundChangeSet := Some rcs'\<rparr> in c' = d \<or> (r = None \<and>
        (sendRoundChange e (vw_Round (sub_View rc)) d = Some c' \<or> startNewRound e (vw_Round (sub_View rc)) d = Some c'))))"
    using assms unfolding handleRoundChange_def Let_def by (auto split: op_splits)
  then show thesis
    using reject added by (auto simp: Let_def)
qed

lemma roundChangeSet_inv:
  assumes "core_inv kec bad c" and "c_roundChangeSet c = Some rcs" and "rc_Add r msg rcs = (res, rcs')"
  shows "core_inv kec bad (c\<lparr>c_roundChangeSet := Some rcs'\<rparr>)"
  using assms(1,2) rc_Add_wf [OF _ assms(3)] by (auto simp: core_inv_def)

lemma handleRoundChange_inv:
  assumes "handleRoundChange e msg src c = Some (r, c')" and "core_inv kec (e_HasBadProposal e) c"
  shows "core_inv kec (e_HasBadProposal e) c'"
  using assms(1)
proof (cases rule: handleRoundChange_cases)
  case (added rc rcs res rcs' d)
  have "core_inv kec (e_HasBadProposal e) d"
    unfolding added(5) using added(3,4) by (rule roundChangeSet_inv [OF assms(2)])
  then show ?thesis
    using added(6) sendRoundChange_inv startNewRound_inv by blast
qed (use assms in simp)

lemma testBacklog_same:
  assumes "testBacklog msg src (r, c) = Some (r', c')"
  shows "r' = r" and "quiet c c'" and "c_state c' = c_state c"
  using assms storeBacklog_quiet by (auto simp: testBacklog_def split: if_split_asm)

lemma handleCheckedMsg_cases:
  assumes "handleCheckedMsg e msg src c = Some (r, c')"
  obtains (invalid) "r = Some errInvalidMessage" "c' = c"
  | (handled) d where "quiet d c'" "c_state c' = c_state d"
    "msg_Code msg = msgPreprepare \<and> handlePreprepare e msg src c = Some (r, d) \<or>
     msg_Code msg = msgPrepare \<and> handlePrepare e msg src c = Some (r, d) \<or>
     msg_Code msg = msgCommit \<and> handleCommit e msg src c = Some (r, d) \<or>
     msg_Code msg = msgRoundChange \<and> handleRoundChange e msg src c = Some (r, d)"
proof -
  have "(r = Some errInvalidMessage \<and> c' = c) \<or> (\<exists>d. testBacklog msg src (r, d) = Some (r, c') \<and>
      (msg_Code msg = msgPreprepare \<and> handlePreprepare e msg src c = Some (r, d) \<or>
       msg_Code msg = msgPrepare \<and> handlePrepare e msg src c = Some (r, d) \<or>
       msg_Code msg = msgCommit \<and> handleCommit e msg src c = Some (r, d) \<or>
       msg_Code msg = msgRoundChange \<and> handleRoundChange e msg src c = Some (r, d)))"
    using assms unfolding handleCheckedMsg_def
    by (auto split: bind_split_asm if_split_asm dest: testBacklog_same(1) simp: bind_eq_Some_conv)
  then show thesis
    using invalid handled testBacklog_same by blast
qed

lemma handleCheckedMsg_inv:
  assumes "handleCheckedMsg e msg src c = Some (r, c')" and "core_inv (e_kec e) (e_HasBadProposal e) c"
  shows "core_inv (e_kec e) (e_HasBadProposal e) c'"
  using assms(1)
proof (cases rule: handleCheckedMsg_cases)
  case (handled d)
  have "core_inv (e_kec e) (e_HasBadProposal e) d"
    using handled(3) handlePreprepare_inv handlePrepare_inv handleCommit_inv handleRoundChange_inv assms(2) by metis
  then show ?thesis
    using core_inv_same [OF quiet_same [OF handled(1)] handled(2)] by simp
qed (use assms in simp)

lemma handleMsg_cases:
  assumes "handleMsg e payload c = Some (r, c')"
  obtains (reject) err where "r = Some err" "c' = c"
  | (checked) vs msg src where "c_valSet c = Some vs"
    "FromPayload payload (Some (checkValidatorSignature e vs)) = Some (Inr msg)"
    "snd (GetByAddress vs (msg_Address msg)) = Some src" "handleCheckedMsg e msg src c = Some (r, c')"
  using assms that by (auto simp: handleMsg_def split: op_splits)

lemma handleRequest_cases:
  assumes "handleRequest e req c = Some (r, c')"
  obtains (reject) err where "r = Some err" "c' = c"
  | (accept) cur d where "r = None" "c_current c = Some cur" "checkRequestMsg req c = Some None"
    "d = c\<lparr>c_current := Some (cur\<lparr>rs_pendingRequest := Some req\<rparr>)\<rparr>"
    "c' = d \<or> (c_state c = StateAcceptRequest \<and> sendPreprepare e req d = Some c')"
  using assms that by (auto simp: handleRequest_def Let_def split: op_splits)

lemma pendingRequest_inv: "rs_inv kec bad vs st cur \<Longrightarrow> rs_inv kec bad vs st (cur\<lparr>rs_pendingRequest := r\<rparr>)"
  using rs_Subject_cong [of "cur\<lparr>rs_pendingRequest := r\<rparr>" cur kec]
  by (simp add: rs_inv_def votes_def IsHashLocked_def GetLockedHash_def locked_on_def)

lemma handleRequest_inv:
  assumes "handleRequest e req c = Some (r, c')" and "core_inv kec bad c"
  shows "core_inv kec bad c'"
  using assms(1)
proof (cases rule: handleRequest_cases)
  case (accept cur d)
  have "core_inv kec bad d"
    by (rule core_inv_current [OF assms(2) accept(2), of "cur\<lparr>rs_pendingRequest := Some req\<rparr>"])
      (simp_all add: accept(4) pendingRequest_inv)
  then show ?thesis
    using accept(5) sendPreprepare_frame core_inv_same by metis
qed (use assms in simp)

lemma handleTimeoutMsg_cases:
  assumes "handleTimeoutMsg e c = Some c'"
  obtains (roundChange) r where "sendRoundChange e r c = Some c'"
  | (nextRound) "sendNextRoundChange e c = Some c'"
  | (sequence) "startNewRound e 0 c = Some c'"
  using assms that by (auto simp: handleTimeoutMsg_def split: op_splits)

lemma handleTimeoutMsg_inv:
  assumes "handleTimeoutMsg e c = Some c'" and "core_inv kec (e_HasBadProposal e) c"
  shows "core_inv kec (e_HasBadProposal e) c'"
  using handleTimeoutMsg_cases [OF assms(1)] sendRoundChange_inv sendNextRoundChange_inv startNewRound_inv assms(2)
  by metis

lemma handleEvent_inv:
  assumes "handleEvent e ev c = Some c'" and "core_inv (e_kec e) (e_HasBadProposal e) c"
  shows "core_inv (e_kec e) (e_HasBadProposal e) c'"
proof (cases ev)
  case (RequestEvent p)
  with assms(1) obtain r d where d: "handleRequest e \<lparr>req_Proposal = p\<rparr> c = Some (r, d)"
    "c' = d \<or> storeRequestMsg \<lparr>req_Proposal = p\<rparr> d = Some c'"
    by (auto split: op_splits)
  have "core_inv (e_kec e) (e_HasBadProposal e) d"
    by (rule handleRequest_inv [OF d(1) assms(2)])
  then show ?thesis
    using d(2) storeRequestMsg_quiet [of "\<lparr>req_Proposal = p\<rparr>" d c'] core_inv_same [OF quiet_same, of d c'] by auto
next
  case (MessageEvent payload)
  with assms(1) obtain r d where d: "handleMsg e payload c = Some (r, d)" "same d c'" "c_state c' = c_state d"
    by (auto split: op_splits)
  from d(1) have "core_inv (e_kec e) (e_HasBadProposal e) d"
    using handleCheckedMsg_inv assms(2) by (cases rule: handleMsg_cases) simp_all
  then show ?thesis
    using core_inv_same [OF d(2,3)] by simp
next
  case (backlogEvent src msg)
  with assms(1) obtain r d where d: "handleCheckedMsg e msg src c = Some (r, d)" "same d c'" "c_state c' = c_state d"
    by (auto split: op_splits)
  then show ?thesis
    using handleCheckedMsg_inv [OF d(1) assms(2)] core_inv_same [OF d(2,3)] by simp
next
  case timeoutEvent
  then show ?thesis
    using assms handleTimeoutMsg_inv by simp
next
  case FinalCommittedEvent
  then show ?thesis
    using assms startNewRound_inv by (simp add: handleFinalCommitted_def)
qed

section \<open>Runs\<close>

text \<open>
  The states that a node reaches from its start by handling events, in any order and with any
  answers of the backend, as long as the hash function and the set of bad blocks stay the same.
\<close>

inductive reachable :: "keccak \<Rightarrow> (hash \<Rightarrow> bool) \<Rightarrow> core \<Rightarrow> bool" for kec bad where
  start: "e_kec e = kec \<Longrightarrow> e_HasBadProposal e = bad \<Longrightarrow> Start e (New e config) = Some c \<Longrightarrow> reachable kec bad c"
| step: "reachable kec bad c \<Longrightarrow> e_kec e = kec \<Longrightarrow> e_HasBadProposal e = bad \<Longrightarrow>
    handleEvent e ev c = Some c' \<Longrightarrow> reachable kec bad c'"

lemma reachable_inv: "reachable kec bad c \<Longrightarrow> core_inv kec bad c"
proof (induction rule: reachable.induct)
  case (start e config c)
  have "core_inv kec bad (New e config)"
    by (simp add: core_inv_def New_def)
  then show ?case
    using start startNewRound_inv by (auto simp: Start_def)
next
  case (step c e ev c')
  then show ?case
    using handleEvent_inv by blast
qed

end
