(* ===== verification/BFT_Effects.thy ===== *)
theory BFT_Effects
  imports BFT_Invariant
begin

text \<open>
  What a node sends.  Every effect that handling an event appends is internal, a gossip, a proposal, a
  request for a round change, or a vote that the state justifies: a PREPARE only from an unlocked node
  that waits for a proposal, a COMMIT only for its locked block, for a block that a quorum prepared, or
  for a block that is already in the chain, and a commit to the backend only with a quorum of COMMIT
  votes for the current proposal.
\<close>

definition rs_view :: "roundState \<Rightarrow> View" where
  "rs_view cur = \<lparr>vw_Round = rs_round cur, vw_Sequence = rs_sequence cur\<rparr>"

definition quorum_votes :: "defaultSet \<Rightarrow> message list \<Rightarrow> bool" where
  "quorum_votes vs ms \<longleftrightarrow> distinct (map msg_Address ms) \<and> msg_Address ` set ms \<subseteq> valset_addrs vs \<and>
     2 * valset_F vs < int (length ms)"

definition prepare_ok :: "env \<Rightarrow> core \<Rightarrow> Subject \<Rightarrow> bool" where
  "prepare_ok e c sub \<longleftrightarrow> (\<exists>cur. c_current c = Some cur \<and> c_state c = StateAcceptRequest \<and>
     \<not> c_waitingForRoundChange c \<and> \<not> IsHashLocked (e_HasBadProposal e) cur \<and> sub_View sub = rs_view cur)"

text \<open>The votes that a node holds in its round state, together with the message it is handling.\<close>

definition held :: "(message \<Rightarrow> bool) \<Rightarrow> roundState \<Rightarrow> message \<Rightarrow> bool" where
  "held inc cur m \<longleftrightarrow> m \<in> snd ` set (ms_messages (rs_Prepares cur)) \<or>
     m \<in> snd ` set (ms_messages (rs_Commits cur)) \<or> inc m"

definition commit_ok :: "env \<Rightarrow> (message \<Rightarrow> bool) \<Rightarrow> core \<Rightarrow> Subject \<Rightarrow> bool" where
  "commit_ok e inc c sub \<longleftrightarrow> (\<exists>cur vs. c_current c = Some cur \<and> c_valSet c = Some vs \<and>
     (View_Cmp (sub_View sub) (rs_view cur) < 0 \<and> (\<exists>n. e_HasPropsal e (sub_Digest sub) n) \<or>
      sub_View sub = rs_view cur \<and> IsHashLocked (e_HasBadProposal e) cur \<and> sub_Digest sub = rs_lockedHash cur \<or>
      rs_Subject (e_kec e) cur = Some (Some sub) \<and> (\<exists>ms. quorum_votes vs ms \<and>
        (\<forall>m \<in> set ms. Decode_Subject m = Some (Inr sub) \<and> held inc cur m))))"

definition certificate :: "env \<Rightarrow> (message \<Rightarrow> bool) \<Rightarrow> core \<Rightarrow> Block \<Rightarrow> bytes list \<Rightarrow> bool" where
  "certificate e inc c p seals \<longleftrightarrow> (\<exists>cur vs h ms. c_current c = Some cur \<and> c_valSet c = Some vs \<and>
     rs_Proposal cur = Some p \<and> Block_Hash (e_kec e) p = Some h \<and> quorum_votes vs ms \<and>
     (\<forall>m \<in> set ms. msg_Code m = msgCommit \<and>
        Decode_Subject m = Some (Inr \<lparr>sub_View = rs_view cur, sub_Digest = h\<rparr>) \<and> held inc cur m) \<and>
     seals = map (copySeal \<circ> msg_CommittedSeal) ms)"

definition effect_ok :: "env \<Rightarrow> (message \<Rightarrow> bool) \<Rightarrow> core \<Rightarrow> effect \<Rightarrow> bool" where
  "effect_ok e inc c x \<longleftrightarrow> internal x \<or> (\<exists>vs p. x = Gossip vs p) \<or> (\<exists>m. sent msgPreprepare m x) \<or>
     (\<exists>view. sent_subject msgRoundChange \<lparr>sub_View = view, sub_Digest = 0\<rparr> x) \<or>
     (\<exists>sub. prepare_ok e c sub \<and> sent_subject msgPrepare sub x) \<or>
     (\<exists>sub. commit_ok e inc c sub \<and> sent_subject msgCommit sub x) \<or>
     (\<exists>p seals. certificate e inc c p seals \<and> x = Commit p seals)"

lemma sendRoundChange_effects:
  assumes "sendRoundChange e round c = Some c'"
  shows "ext (effect_ok e inc c0) c c'"
  using assms
proof (cases rule: sendRoundChange_cases)
  case (change cur vs rcs view)
  show ?thesis
    by (rule ext_mono [OF change(13)]) (auto simp: effect_ok_def)
qed simp

lemma sendNextRoundChange_effects:
  "sendNextRoundChange e c = Some c' \<Longrightarrow> ext (effect_ok e inc c0) c c'"
  by (erule sendNextRoundChange_cases) (rule sendRoundChange_effects)

lemma startNewRound_effects:
  assumes "startNewRound e round c = Some c'"
  shows "ext (effect_ok e inc c0) c c'"
  using assms
proof (cases rule: startNewRound_cases)
  case (start roundChange view d vs)
  show ?thesis
    by (rule ext_mono [OF start(11)]) (auto simp: effect_ok_def)
qed simp

lemma quiet_effects: "quiet c c' \<Longrightarrow> ext (effect_ok e inc c0) c c'"
  by (rule ext_mono [OF quiet_ext]) (auto simp: effect_ok_def)

lemma handleRoundChange_effects:
  assumes "handleRoundChange e msg src c = Some (r, c')"
  shows "ext (effect_ok e inc c0) c c'"
  using assms
proof (cases rule: handleRoundChange_cases)
  case (added rc rcs res rcs' d)
  have "c_out d = c_out c"
    by (simp add: added(5))
  moreover have "ext (effect_ok e inc c0) d c'"
    using added(6) sendRoundChange_effects startNewRound_effects by auto
  ultimately show ?thesis
    by (simp add: ext_def)
qed simp

lemma handleRequest_effects:
  assumes "handleRequest e req c = Some (r, c')"
  shows "ext (effect_ok e inc c0) c c'"
  using assms
proof (cases rule: handleRequest_cases)
  case (accept cur d)
  have "c_out d = c_out c"
    by (simp add: accept(4))
  moreover have "ext (effect_ok e inc c0) d c'" if "sendPreprepare e req d = Some c'"
    by (rule ext_mono [OF sendPreprepare_frame(3) [OF that]]) (auto simp: effect_ok_def)
  then have "ext (effect_ok e inc c0) d c'"
    using accept(5) by auto
  ultimately show ?thesis
    by (simp add: ext_def)
qed simp

lemma handleTimeoutMsg_effects:
  assumes "handleTimeoutMsg e c = Some c'"
  shows "ext (effect_ok e inc c0) c c'"
  using assms
proof (cases rule: handleTimeoutMsg_cases)
  case (roundChange r)
  then show ?thesis
    by (rule sendRoundChange_effects)
next
  case nextRound
  then show ?thesis
    by (rule sendNextRoundChange_effects)
next
  case sequence
  then show ?thesis
    by (rule startNewRound_effects)
qed

section \<open>Proposals\<close>

lemma rs_Subject_Some:
  "rs_Subject kec cur = Some (Some sub) \<longleftrightarrow>
     (\<exists>pp. rs_Preprepare cur = Some pp \<and> Block_Hash kec (pp_Proposal pp) = Some (sub_Digest sub) \<and>
        sub_View sub = rs_view cur)"
  by (cases sub) (auto simp: rs_Subject_def rs_view_def split: option.split bind_splits)

lemma quiet_current: "quiet c c' \<Longrightarrow> c_current c' = c_current c"
  by (simp add: quiet_def same_def)

lemma handleVerifiedPreprepare_effects:
  assumes "handleVerifiedPreprepare e pp c = Some c'" and "core_inv (e_kec e) (e_HasBadProposal e) c"
    and "\<not> c_waitingForRoundChange c"
  shows "ext (effect_ok e inc c) c c'"
  using assms(1)
proof (cases rule: handleVerifiedPreprepare_cases)
  case (locked cur c1 c2)
  have c1: "c1 = c\<lparr>c_current := Some (cur\<lparr>rs_Preprepare := Some pp\<rparr>)\<rparr>"
    using locked(2,5) by (auto elim!: acceptPreprepare_cases)
  have q: "quiet c1 c2"
    by (rule setState_quiet(1) [OF locked(6)])
  obtain vs where vs: "c_valSet c = Some vs"
    using assms(2) locked(2) by (auto simp: core_inv_def)
  from locked(7) show ?thesis
  proof (rule sendCommit_frame)
    fix cur' sub
    assume *: "c_current c2 = Some cur'" "rs_Subject (e_kec e) cur' = Some (Some sub)"
      "ext (sent_subject msgCommit sub) c2 c'"
    have cur': "cur' = cur\<lparr>rs_Preprepare := Some pp\<rparr>"
      using *(1) quiet_current [OF q] by (simp add: c1)
    then have "sub_View sub = rs_view cur \<and> sub_Digest sub = rs_lockedHash cur"
      using *(2) locked(4) by (simp add: rs_Subject_Some rs_view_def)
    then have "commit_ok e inc c sub"
      using locked(2,3) vs by (auto simp: commit_ok_def)
    then have "ext (effect_ok e inc c) c2 c'"
      by (intro ext_mono [OF *(3)]) (auto simp: effect_ok_def)
    with quiet_effects [OF q] have "ext (effect_ok e inc c) c1 c'"
      by (rule ext_trans)
    then show ?thesis
      by (simp add: ext_def c1)
  qed
next
  case (free cur c1 c2)
  have c1: "c1 = c\<lparr>c_current := Some (cur\<lparr>rs_Preprepare := Some pp\<rparr>)\<rparr>"
    using free(2,4) by (auto elim!: acceptPreprepare_cases)
  have q: "quiet c1 c2"
    by (rule setState_quiet(1) [OF free(5)])
  from free(6) show ?thesis
  proof (rule sendPrepare_frame)
    fix cur' sub
    assume *: "c_current c2 = Some cur'" "rs_Subject (e_kec e) cur' = Some (Some sub)"
      "ext (sent_subject msgPrepare sub) c2 c'"
    have cur': "cur' = cur\<lparr>rs_Preprepare := Some pp\<rparr>"
      using *(1) quiet_current [OF q] by (simp add: c1)
    then have "prepare_ok e c sub"
      using *(2) free(1-3) assms(3) by (auto simp: prepare_ok_def rs_Subject_Some rs_view_def)
    then have "ext (effect_ok e inc c) c2 c'"
      by (intro ext_mono [OF *(3)]) (auto simp: effect_ok_def)
    with quiet_effects [OF q] have "ext (effect_ok e inc c) c1 c'"
      by (rule ext_trans)
    then show ?thesis
      by (simp add: ext_def c1)
  qed
qed (auto intro: sendNextRoundChange_effects)

lemma checkMessage_old:
  assumes "checkMessage msgPreprepare (Some view) c = Some (Some errOldMessage)"
  shows "\<exists>cur. c_current c = Some cur \<and> View_Cmp view (rs_view cur) < 0"
proof -
  have "msgPreprepare \<noteq> msgRoundChange"
    by (simp add: msg_codes)
  then show ?thesis
    using assms by (auto simp: checkMessage_def currentView_def rs_view_def split: bind_split_asm if_split_asm)
qed

lemma handlePreprepare_effects:
  assumes "handlePreprepare e msg src c = Some (r, c')" and "core_inv (e_kec e) (e_HasBadProposal e) c"
  shows "ext (effect_ok e inc c) c c'"
  using assms(1)
proof (cases rule: handlePreprepare_cases)
  case (old pp)
  obtain cur where cur: "c_current c = Some cur" "View_Cmp (pp_View pp) (rs_view cur) < 0"
    using checkMessage_old [OF old(2)] by blast
  then obtain vs where vs: "c_valSet c = Some vs"
    using assms(2) by (auto simp: core_inv_def)
  consider "c' = c" | h n where "e_HasPropsal e h n" "broadcastCommit e \<lparr>sub_View = pp_View pp, sub_Digest = h\<rparr> c = Some c'"
    using handleOldPreprepare_cases [OF old(3)] by blast
  then show ?thesis
  proof cases
    case (2 h n)
    have "commit_ok e inc c \<lparr>sub_View = pp_View pp, sub_Digest = h\<rparr>"
      using cur vs 2(1) by (auto simp: commit_ok_def simp del: View_Cmp_iff)
    then show ?thesis
      by (intro ext_mono [OF broadcastCommit_frame(3) [OF 2(2)]]) (auto simp: effect_ok_def)
  qed simp
next
  case (future err)
  then show ?thesis
    by (intro quiet_effects)
next
  case (bad err)
  then show ?thesis
    by (intro sendNextRoundChange_effects)
next
  case (accept pp vs)
  have "\<not> c_waitingForRoundChange c"
    using accept(4) by (rule checkMessage_preprepare)
  then show ?thesis
    by (rule handleVerifiedPreprepare_effects [OF accept(7) assms(2)])
qed simp

section \<open>Votes\<close>

lemma ms_Add_messages:
  "ms_wf ms \<Longrightarrow> m \<in> snd ` set (ms_messages (snd (ms_Add msg ms))) \<Longrightarrow> m = msg \<or> m \<in> snd ` set (ms_messages ms)"
  using ms_Add_cases [of msg ms "fst (ms_Add msg ms)" "snd (ms_Add msg ms)"]
  by (auto simp: addVerifiedMessage_def ms_wf_def set_AList_update)

lemma ms_wf_addresses: "ms_wf ms \<Longrightarrow> map msg_Address (map snd (ms_messages ms)) = map fst (ms_messages ms)"
  by (auto simp: ms_wf_def)

text \<open>The messages of two sets, one for each sender.\<close>

definition union_messages :: "messageSet \<Rightarrow> messageSet \<Rightarrow> message list" where
  "union_messages ps cs = map snd (ms_messages ps) @
     filter (\<lambda>m. msg_Address m \<notin> ms_senders ps) (map snd (ms_messages cs))"

lemma union_messages:
  assumes "ms_wf ps" and "ms_wf cs"
  shows "distinct (map msg_Address (union_messages ps cs))"
    and "msg_Address ` set (union_messages ps cs) = ms_senders ps \<union> ms_senders cs"
    and "length (union_messages ps cs) = card (ms_senders ps \<union> ms_senders cs)"
proof -
  have addrs: "map msg_Address (map snd (ms_messages ps)) = map fst (ms_messages ps)"
    "map msg_Address (map snd (ms_messages cs)) = map fst (ms_messages cs)"
    using assms by (simp_all only: ms_wf_addresses)
  have f: "map msg_Address (filter (\<lambda>m. msg_Address m \<notin> ms_senders ps) (map snd (ms_messages cs))) =
      filter (\<lambda>a. a \<notin> ms_senders ps) (map fst (ms_messages cs))"
    unfolding addrs(2) [symmetric] by (simp add: filter_map comp_def)
  have map: "map msg_Address (union_messages ps cs) =
      map fst (ms_messages ps) @ filter (\<lambda>a. a \<notin> ms_senders ps) (map fst (ms_messages cs))"
    unfolding union_messages_def map_append f addrs(1) ..
  then show dist: "distinct (map msg_Address (union_messages ps cs))"
    using assms by (auto simp: ms_wf_def ms_senders_def)
  have "set (map msg_Address (union_messages ps cs)) = ms_senders ps \<union> ms_senders cs"
    unfolding map by (auto simp: ms_senders_def)
  then show "msg_Address ` set (union_messages ps cs) = ms_senders ps \<union> ms_senders cs"
    by simp
  then show "length (union_messages ps cs) = card (ms_senders ps \<union> ms_senders cs)"
    using distinct_card [OF dist] by simp
qed

lemma core_inv_votes:
  assumes "core_inv kec bad c" and "c_current c = Some cur" and "c_valSet c = Some vs" and "rs_Subject kec cur = Some (Some sub)"
  shows "ms_wf (rs_Prepares cur)" and "ms_wf (rs_Commits cur)"
    and "ms_senders (rs_Prepares cur) \<union> ms_senders (rs_Commits cur) \<subseteq> valset_addrs vs"
    and "m \<in> snd ` set (ms_messages (rs_Prepares cur)) \<Longrightarrow> msg_Code m = msgPrepare \<and> Decode_Subject m = Some (Inr sub)"
    and "m \<in> snd ` set (ms_messages (rs_Commits cur)) \<Longrightarrow> msg_Code m = msgCommit \<and> Decode_Subject m = Some (Inr sub)"
proof -
  have inv: "rs_inv kec bad vs (c_state c) cur"
    using assms(1-3) by (auto simp: core_inv_def)
  then show wf: "ms_wf (rs_Prepares cur)" "ms_wf (rs_Commits cur)"
    by (simp_all add: rs_inv_def)
  then show "ms_senders (rs_Prepares cur) \<union> ms_senders (rs_Commits cur) \<subseteq> valset_addrs vs"
    using inv ms_senders_valset vs_same_addrs by (fastforce simp: rs_inv_def)
  show "msg_Code m = msgPrepare \<and> Decode_Subject m = Some (Inr sub)" if "m \<in> snd ` set (ms_messages (rs_Prepares cur))"
    using inv that assms(4) by (fastforce simp: rs_inv_def votes_def)
  show "msg_Code m = msgCommit \<and> Decode_Subject m = Some (Inr sub)" if "m \<in> snd ` set (ms_messages (rs_Commits cur))"
    using inv that assms(4) by (fastforce simp: rs_inv_def votes_def)
qed

lemma LockHash_fields:
  assumes "LockHash kec cur = Some cur'"
  shows "rs_Subject k cur' = rs_Subject k cur" and "rs_Commits cur' = rs_Commits cur"
    and "rs_Preprepare cur' = rs_Preprepare cur" and "rs_view cur' = rs_view cur"
  using assms by (auto simp: LockHash_def rs_Subject_def rs_view_def split: option.split_asm bind_split_asm)

lemma handlePrepare_effects:
  assumes "handlePrepare e msg src c = Some (r, c')" and inv: "core_inv (e_kec e) (e_HasBadProposal e) c"
    and "msg_Code msg = msgPrepare" and "iter_ok (e_iter e)"
  shows "ext (effect_ok e (\<lambda>m. m = msg) c) c c'"
  using assms(1)
proof (cases rule: handlePrepare_cases)
  case (accept sub cur cur1 c1)
  have "c_state c \<noteq> StateAcceptRequest"
    using accept(3) by (rule checkMessage_vote) simp_all
  then have c1: "core_inv (e_kec e) (e_HasBadProposal e) c1"
    using vote_inv(1) [OF inv accept(4,5,2)] assms(3) accept(6,7) by simp
  obtain vs where vs: "c_valSet c = Some vs"
    using inv accept(4) by (auto simp: core_inv_def)
  have sub1: "rs_Subject (e_kec e) cur1 = Some (Some sub)"
    using accept(5) rs_Subject_cong [of cur1 cur] by (simp add: accept(6))
  have cur1: "c_current c1 = Some cur1" "c_valSet c1 = Some vs" "c_out c1 = c_out c"
    using vs by (simp_all add: accept(7))
  note V = core_inv_votes [OF c1 cur1(1,2) sub1]
  have view: "sub_View sub = rs_view cur"
    using accept(5) by (auto simp: rs_Subject_Some)
  have held: "held (\<lambda>m. m = msg) cur m" if "m \<in> set (union_messages (rs_Prepares cur1) (rs_Commits cur1))" for m
    using that ms_Add_messages [of "rs_Prepares cur" m msg] core_inv_votes(1) [OF inv accept(4) vs accept(5)]
    by (auto simp: union_messages_def held_def accept(6))
  have ok: "commit_ok e (\<lambda>m. m = msg) c sub" if "preparedQuorum e sub c1 = Some True"
  proof (cases "IsHashLocked (e_HasBadProposal e) cur \<and> sub_Digest sub = rs_lockedHash cur")
    case True
    then show ?thesis
      using accept(4) vs view by (auto simp: commit_ok_def)
  next
    case False
    moreover have "IsHashLocked (e_HasBadProposal e) cur1 = IsHashLocked (e_HasBadProposal e) cur"
      "GetLockedHash cur1 = rs_lockedHash cur"
      by (simp_all add: IsHashLocked_def GetLockedHash_def accept(6))
    ultimately have "2 * valset_F vs < GetPrepareOrCommitSize (e_iter e) cur1"
      using that cur1 by (auto simp: preparedQuorum_def)
    then have "quorum_votes vs (union_messages (rs_Prepares cur1) (rs_Commits cur1))"
      using PrepareOrCommitSize_union [OF assms(4) V(1,2)] union_messages [OF V(1,2)] V(3) by (simp add: quorum_votes_def)
    moreover have "Decode_Subject m = Some (Inr sub)" if "m \<in> set (union_messages (rs_Prepares cur1) (rs_Commits cur1))" for m
    proof -
      have "m \<in> snd ` set (ms_messages (rs_Prepares cur1)) \<or> m \<in> snd ` set (ms_messages (rs_Commits cur1))"
        using that by (auto simp: union_messages_def)
      then show ?thesis
        using V(4) [of m] V(5) [of m] by blast
    qed
    ultimately show ?thesis
      using accept(4,5) vs held unfolding commit_ok_def
      by (intro exI [of _ cur] exI [of _ vs]) auto
  qed
  from accept(8) show ?thesis
  proof (elim disjE conjE exE)
    fix c2 c3
    assume *: "preparedQuorum e sub c1 = Some True" "lockCurrent e c1 = Some c2" "setState StatePrepared c2 = Some c3"
      "sendCommit e c3 = Some c'"
    obtain cur2 where c2: "LockHash (e_kec e) cur1 = Some cur2" "c2 = c1\<lparr>c_current := Some cur2\<rparr>"
      using *(2) cur1(1) by (auto elim!: lockCurrent_cases)
    have "rs_Subject (e_kec e) cur2 = Some (Some sub)"
      using sub1 LockHash_fields(1) [OF c2(1)] by simp
    moreover have q: "quiet c2 c3"
      by (rule setState_quiet(1) [OF *(3)])
    then have "c_current c3 = Some cur2"
      using quiet_current c2(2) by simp
    ultimately have "ext (sent_subject msgCommit sub) c3 c'"
      by - (rule sendCommit_frame [OF *(4)], simp)
    then have "ext (effect_ok e (\<lambda>m. m = msg) c) c3 c'"
      by (rule ext_mono) (use ok [OF *(1)] in \<open>auto simp: effect_ok_def\<close>)
    with quiet_effects [OF q] have "ext (effect_ok e (\<lambda>m. m = msg) c) c2 c'"
      by (rule ext_trans)
    then show ?thesis
      using cur1(3) c2(2) by (simp add: ext_def)
  qed (simp add: ext_def cur1)
qed simp

lemma handleCommit_effects:
  assumes "handleCommit e msg src c = Some (r, c')" and inv: "core_inv (e_kec e) (e_HasBadProposal e) c"
    and "msg_Code msg = msgCommit" and "iter_ok (e_iter e)"
  shows "ext (effect_ok e (\<lambda>m. m = msg) c) c c'"
  using assms(1)
proof (cases rule: handleCommit_cases)
  case (accept sub cur cur1 c1)
  let ?ok = "effect_ok e (\<lambda>m. m = msg) c"
  have "c_state c \<noteq> StateAcceptRequest"
    using accept(3) by (rule checkMessage_vote) simp_all
  then have c1: "core_inv (e_kec e) (e_HasBadProposal e) c1"
    using vote_inv(2) [OF inv accept(4,5,2)] assms(3) accept(6,7) by simp
  obtain vs where vs: "c_valSet c = Some vs"
    using inv accept(4) by (auto simp: core_inv_def)
  have sub1: "rs_Subject (e_kec e) cur1 = Some (Some sub)"
    using accept(5) rs_Subject_cong [of cur1 cur] by (simp add: accept(6))
  have cur1: "c_current c1 = Some cur1" "c_valSet c1 = Some vs" "c_out c1 = c_out c"
    using vs by (simp_all add: accept(7))
  note V = core_inv_votes [OF c1 cur1(1,2) sub1]
  obtain pp where pp: "rs_Preprepare cur = Some pp" "Block_Hash (e_kec e) (pp_Proposal pp) = Some (sub_Digest sub)"
    "sub = \<lparr>sub_View = rs_view cur, sub_Digest = sub_Digest sub\<rparr>"
    using accept(5) by (cases sub) (auto simp: rs_Subject_Some)
  let ?ms = "ms_Values (e_iter e) (rs_Commits cur1)"
  have mset: "mset ?ms = mset (map snd (ms_messages (rs_Commits cur1)))"
    using assms(4) unfolding ms_Values_def iter_ok_def by blast
  then have set: "set ?ms = snd ` set (ms_messages (rs_Commits cur1))"
    by (metis list.set_map set_mset_mset)
  have held: "held (\<lambda>m. m = msg) cur m" if "m \<in> set ?ms" for m
    using that ms_Add_messages [of "rs_Commits cur" m msg] core_inv_votes(2) [OF inv accept(4) vs accept(5)]
    unfolding set by (auto simp: held_def accept(6))
  have cert: "certificate e (\<lambda>m. m = msg) c (pp_Proposal pp) (map (copySeal \<circ> msg_CommittedSeal) ?ms)"
    if "committedQuorum c1 = Some True"
  proof -
    have m: "mset (map msg_Address ?ms) = mset (map fst (ms_messages (rs_Commits cur1)))"
      by (simp only: mset_map [of msg_Address ?ms] mset mset_map [symmetric] ms_wf_addresses [OF V(2)])
    have "distinct (map msg_Address ?ms)"
      using distinct_mset_set_eq [OF m] V(2) by (simp add: ms_wf_def)
    moreover have "msg_Address ` set ?ms = ms_senders (rs_Commits cur1)"
      using mset_eq_setD [OF m] by (simp add: ms_senders_def)
    moreover have "2 * valset_F vs < int (length ?ms)"
      using that cur1 mset_eq_length [OF mset] by (simp add: committedQuorum_def ms_Size_def)
    ultimately have "quorum_votes vs ?ms"
      using V(3) by (auto simp: quorum_votes_def)
    moreover have "msg_Code m = msgCommit \<and> Decode_Subject m = Some (Inr \<lparr>sub_View = rs_view cur, sub_Digest = sub_Digest sub\<rparr>)"
      if "m \<in> set ?ms" for m
      using V(5) [OF that [unfolded set]] pp(3) by simp
    ultimately show ?thesis
      using accept(4) vs pp(1,2) held unfolding certificate_def
      by (intro exI [of _ cur] exI [of _ vs] exI [of _ "sub_Digest sub"] exI [of _ ?ms]) (auto simp: rs_Proposal_def)
  qed
  from accept(8) show ?thesis
  proof (elim disjE conjE exE)
    fix c2
    assume *: "committedQuorum c1 = Some True" "lockCurrent e c1 = Some c2" "commit e c2 = Some c'"
    obtain cur2 where c2: "LockHash (e_kec e) cur1 = Some cur2" "c2 = c1\<lparr>c_current := Some cur2\<rparr>"
      using *(2) cur1(1) by (auto elim!: lockCurrent_cases)
    have cur2: "c_current c2 = Some cur2" "rs_Commits cur2 = rs_Commits cur1" "rs_Preprepare cur2 = Some pp"
      using c2 LockHash_fields [OF c2(1)] pp(1) by (simp_all add: accept(6))
    from *(3) have "ext ?ok c2 c'"
    proof (cases rule: commit_cases)
      case (none cur')
      then show ?thesis
        by (intro quiet_effects)
    next
      case (commit cur' pp' d seals)
      then have eq: "pp' = pp" "seals = map (copySeal \<circ> msg_CommittedSeal) ?ms"
        using cur2 by simp_all
      let ?d = "emit (Commit (pp_Proposal pp) seals) d"
      have "?ok (Commit (pp_Proposal pp) seals)"
        using cert [OF *(1)] eq(2) by (auto simp: effect_ok_def)
      then have d: "ext ?ok c2 ?d"
        by (intro ext_trans [OF quiet_effects [OF commit(3)]]) simp
      have "c' = ?d \<or> ext ?ok (?d\<lparr>c_current := Some (UnlockHash cur')\<rparr>) c'"
        using commit(6) sendNextRoundChange_effects unfolding eq(1) by blast
      then show ?thesis
        using d ext_trans [OF d] by (auto simp: ext_def)
    qed
    then show ?thesis
      using cur1(3) c2(2) by (simp add: ext_def)
  qed (simp add: ext_def cur1)
qed simp

section \<open>Events\<close>

definition incoming :: "env \<Rightarrow> core \<Rightarrow> event \<Rightarrow> message \<Rightarrow> bool" where
  "incoming e c ev m \<longleftrightarrow> (\<exists>src. ev = backlogEvent src m) \<or>
     (\<exists>payload vs. ev = MessageEvent payload \<and> c_valSet c = Some vs \<and>
        FromPayload payload (Some (checkValidatorSignature e vs)) = Some (Inr m))"

lemma held_mono: "held inc cur m \<Longrightarrow> (\<And>m. inc m \<Longrightarrow> inc' m) \<Longrightarrow> held inc' cur m"
  by (auto simp: held_def)

lemma commit_ok_mono:
  assumes "commit_ok e inc c sub" and inc: "\<And>m. inc m \<Longrightarrow> inc' m"
  shows "commit_ok e inc' c sub"
  using assms(1) held_mono [of inc _ _ inc', OF _ inc] unfolding commit_ok_def by (elim exE) blast

lemma certificate_mono:
  assumes "certificate e inc c p s" and inc: "\<And>m. inc m \<Longrightarrow> inc' m"
  shows "certificate e inc' c p s"
  using assms(1) held_mono [of inc _ _ inc', OF _ inc] unfolding certificate_def by (elim exE) blast

lemma effect_ok_mono:
  assumes "effect_ok e inc c x" and inc: "\<And>m. inc m \<Longrightarrow> inc' m"
  shows "effect_ok e inc' c x"
proof -
  have "commit_ok e inc c sub \<Longrightarrow> commit_ok e inc' c sub" for sub
    by (rule commit_ok_mono [OF _ inc])
  moreover have "certificate e inc c p s \<Longrightarrow> certificate e inc' c p s" for p s
    by (rule certificate_mono [OF _ inc])
  ultimately show ?thesis
    using assms(1) unfolding effect_ok_def by blast
qed

lemma handleCheckedMsg_effects:
  assumes "handleCheckedMsg e msg src c = Some (r, c')" and "core_inv (e_kec e) (e_HasBadProposal e) c"
    and "iter_ok (e_iter e)" and "inc msg"
  shows "ext (effect_ok e inc c) c c'"
  using assms(1)
proof (cases rule: handleCheckedMsg_cases)
  case (handled d)
  have "ext (effect_ok e (\<lambda>m. m = msg) c) c d"
    using handled(3) handlePreprepare_effects [OF _ assms(2)] handlePrepare_effects [OF _ assms(2) _ assms(3)]
      handleCommit_effects [OF _ assms(2) _ assms(3)] handleRoundChange_effects by metis
  then have "ext (effect_ok e inc c) c d"
    by (rule ext_mono) (erule effect_ok_mono, simp add: assms(4))
  then show ?thesis
    using quiet_effects [OF handled(1)] by (rule ext_trans)
qed simp

lemma effect_ok_Gossip [simp]: "effect_ok e inc c (Gossip vs p)"
  by (auto simp: effect_ok_def)

lemma handleEvent_effects:
  assumes "handleEvent e ev c = Some c'" and "core_inv (e_kec e) (e_HasBadProposal e) c" and "iter_ok (e_iter e)"
  shows "ext (effect_ok e (incoming e c ev) c) c c'"
proof (cases ev)
  case (RequestEvent p)
  with assms(1) obtain r d where d: "handleRequest e \<lparr>req_Proposal = p\<rparr> c = Some (r, d)"
    "c' = d \<or> storeRequestMsg \<lparr>req_Proposal = p\<rparr> d = Some c'"
    by (auto split: op_splits)
  have "c_out c' = c_out d"
    using d(2) storeRequestMsg_quiet by auto
  then show ?thesis
    using handleRequest_effects [OF d(1)] by (simp add: ext_def)
next
  case (MessageEvent payload)
  let ?ok = "effect_ok e (incoming e c ev) c"
  from MessageEvent assms(1) obtain r d where d: "handleMsg e payload c = Some (r, d)"
    "c' = d \<or> (\<exists>vs p. c' = emit (Gossip vs p) d)"
    by (auto split: op_splits)
  from d(1) have "ext ?ok c d"
  proof (cases rule: handleMsg_cases)
    case (checked vs msg src)
    then show ?thesis
      by (intro handleCheckedMsg_effects [OF checked(4) assms(2,3)]) (auto simp: incoming_def MessageEvent)
  qed simp
  then show ?thesis
    using d(2) ext_trans [OF _ ext_emit, of ?ok c d] by auto
next
  case (backlogEvent src msg)
  let ?ok = "effect_ok e (incoming e c ev) c"
  from backlogEvent assms(1) obtain r d where d: "handleCheckedMsg e msg src c = Some (r, d)"
    "c' = d \<or> (\<exists>vs p. c' = emit (Gossip vs p) d)"
    by (auto split: op_splits)
  have "ext ?ok c d"
    by (intro handleCheckedMsg_effects [OF d(1) assms(2,3)]) (auto simp: incoming_def backlogEvent)
  then show ?thesis
    using d(2) ext_trans [OF _ ext_emit, of ?ok c d] by auto
next
  case timeoutEvent
  then show ?thesis
    using assms handleTimeoutMsg_effects by simp
next
  case FinalCommittedEvent
  then show ?thesis
    using assms startNewRound_effects by (simp add: handleFinalCommitted_def)
qed

text \<open>The effects that a step appended.\<close>

definition new_effects :: "core \<Rightarrow> core \<Rightarrow> effect set" where
  "new_effects c c' = set (drop (length (c_out c)) (c_out c'))"

lemma new_effects_ext: "ext P c c' \<Longrightarrow> x \<in> new_effects c c' \<Longrightarrow> P x"
  by (auto simp: ext_def new_effects_def)

lemma not_internal [simp]: "\<not> internal (Commit p s)" "\<not> internal (Broadcast vs m)"
  by simp_all

lemma sent_not_Commit [simp]: "\<not> sent code m (Commit p s)" "\<not> sent_subject code sub (Commit p s)"
  by (simp_all add: sent_def sent_subject_def)

lemma commit_has_certificate:
  assumes "handleEvent e ev c = Some c'" and "core_inv (e_kec e) (e_HasBadProposal e) c" and "iter_ok (e_iter e)"
    and "Commit p seals \<in> new_effects c c'"
  shows "certificate e (incoming e c ev) c p seals"
  using new_effects_ext [OF handleEvent_effects [OF assms(1-3)] assms(4)] by (auto simp: effect_ok_def)

end
