(* ===== verification/BFT_Sample.thy ===== *)
theory BFT_Sample
  imports BFT_Effects
begin

text \<open>
  A network of one validator, whose every answer is fixed, and a run of its core: the start, a
  proposal, a PREPARE and a COMMIT.  The properties of the core are instantiated on its states.
\<close>

definition sample_block :: "int \<Rightarrow> Block" where
  "sample_block n = NewBlockWithHeader (sample_header\<lparr>Number := Some n, MixDigest := 0, Extra := []\<rparr>)"

definition sample_validators :: defaultSet where
  "sample_validators = sample_set 1"

definition sample_env :: env where
  "sample_env =
     \<lparr>e_kec = \<lambda>_. 7, e_rcv = \<lambda>_ _. Inr 1, e_iter = rev, e_ref = 0, e_Address = 1,
      e_Validators = \<lambda>_. sample_validators, e_ParentValidators = \<lambda>_. sample_validators,
      e_LastProposal = (Some (sample_block 0), 0), e_Verify = \<lambda>_. (0, None), e_Sign = \<lambda>_. Inr [1],
      e_Commit = \<lambda>_ _. None, e_HasPropsal = \<lambda>_ _. False, e_GetProposer = \<lambda>_. 0,
      e_HasBadProposal = \<lambda>_. False\<rparr>"

definition sample_view :: View where
  "sample_view = \<lparr>vw_Round = 0, vw_Sequence = 1\<rparr>"

definition sample_subject :: Subject where
  "sample_subject = \<lparr>sub_View = sample_view, sub_Digest = 7\<rparr>"

definition sample_preprepare :: Preprepare where
  "sample_preprepare = \<lparr>pp_View = sample_view, pp_Proposal = sample_block 1\<rparr>"

definition sample_message :: "u64 \<Rightarrow> message" where
  "sample_message code =
     \<lparr>msg_Code = code,
      msg_Msg = (if code = msgPreprepare then rlp_spec (Preprepare_rval sample_preprepare)
                 else rlp_spec (Subject_rval sample_subject)),
      msg_Address = 1, msg_Signature = [1], msg_CommittedSeal = [1]\<rparr>"

definition sample_validator :: validator where
  "sample_validator = validator_New 0 1"

lemma sample_block_simps [simp]:
  "Block_Number (sample_block n) = Some n" "Block_Hash (\<lambda>_. 7) (sample_block n) = Some 7"
  "block_decoded (sample_block n) = sample_block n"
  by (simp_all add: sample_block_def sample_header_def NewBlockWithHeader_def CopyHeader_def Block_Number_def
      Block_Hash_def Header_Hash_def rlpHash_def BFTDigest_def block_decoded_def)

lemma sample_block_wf [simp]: "0 \<le> n \<Longrightarrow> block_wf (sample_block n)"
  by (simp add: sample_block_def sample_header_def NewBlockWithHeader_def CopyHeader_def block_wf_def header_wf_def)

lemma sample_decode [simp]:
  "Decode_Preprepare (sample_message msgPreprepare) = Some (Inr sample_preprepare)"
  "code \<noteq> msgPreprepare \<Longrightarrow> Decode_Subject (sample_message code) = Some (Inr sample_subject)"
proof -
  have "length (rlp_spec (Preprepare_rval sample_preprepare)) < 2 ^ 64"
    by (simp add: Preprepare_rval_def sample_preprepare_def View_rval_def sample_view_def Block_rval_def
        sample_block_def NewBlockWithHeader_def CopyHeader_def Header_rval_def sample_header_def
        DposContextProto_rval_def rlp_length)
  then show "Decode_Preprepare (sample_message msgPreprepare) = Some (Inr sample_preprepare)"
    by (subst Decode_Preprepare_spec(2) [of sample_preprepare])
      (simp_all add: sample_message_def sample_preprepare_def sample_view_def view_wf_def)
  have "length (rlp_spec (Subject_rval sample_subject)) < 2 ^ 64"
    by (simp add: Subject_rval_def sample_subject_def View_rval_def sample_view_def rlp_length)
  then show "Decode_Subject (sample_message code) = Some (Inr sample_subject)" if "code \<noteq> msgPreprepare"
    using that by (intro Decode_Subject_spec(2)) (simp_all add: sample_message_def sample_subject_def sample_view_def view_wf_def)
qed

definition sample_vs :: defaultSet where
  "sample_vs = CalcProposer sample_validators 0 0"

definition sample_at :: "State \<Rightarrow> roundState \<Rightarrow> effect list \<Rightarrow> core" where
  "sample_at st cur out =
     \<lparr>c_config = DefaultConfig, c_address = 1, c_state = st, c_futurePreprepareTimer = False,
      c_valSet = Some sample_vs, c_waitingForRoundChange = False, c_backlogs = [], c_current = Some cur,
      c_roundChangeSet = Some (newRoundChangeSet sample_validators), c_roundChangeTimer = True,
      c_pendingRequests = [], c_out = out\<rparr>"

definition sample_cur :: "roundState" where
  "sample_cur = newRoundState sample_view sample_validators 0 None None"

lemma sample_vs_simps [simp]:
  "IsProposer sample_vs 1" "valset_F sample_vs = 0" "valset_addrs sample_vs = {1}"
  "IsProposer sample_vs (v_address sample_validator)"
  by (simp_all add: sample_vs_def, code_simp+)

lemma msg_Code_sample [simp]: "msg_Code (sample_message code) = code"
  by (simp add: sample_message_def)

lemma sample_messages_simps [simp]:
  "ms_Add (sample_message code) (newMessageSet sample_validators) =
     (None, (newMessageSet sample_validators)\<lparr>ms_messages := [(1, sample_message code)]\<rparr>)"
proof -
  have "snd (GetByAddress sample_validators 1) = Some sample_validator"
    by code_simp
  then show ?thesis
    by (simp add: ms_Add_def ms_verify_def addVerifiedMessage_def sample_message_def)
qed

lemma sample_fields [simp]:
  "c_state (sample_at st cur out) = st" "c_current (sample_at st cur out) = Some cur"
  "c_out (sample_at st cur out) = out" "c_valSet (sample_at st cur out) = Some sample_vs"
  "c_address (sample_at st cur out) = 1" "c_waitingForRoundChange (sample_at st cur out) = False"
  "c_config (sample_at st cur out) = DefaultConfig" "c_roundChangeTimer (sample_at st cur out)"
  "c_futurePreprepareTimer (sample_at st cur out) = False"
  "c_roundChangeSet (sample_at st cur out) = Some (newRoundChangeSet sample_validators)"
  "(sample_at st cur out)\<lparr>c_current := Some cur'\<rparr> = sample_at st cur' out"
  "emit x (sample_at st cur out) = sample_at st cur (out @ [x])"
  "sample_at st cur out = sample_at st cur out' \<longleftrightarrow> out = out'"
  by (simp_all add: sample_at_def emit_def)

lemma loop_empty [simp]:
  "processPendingRequests_loop c [] out = Some ([], out)" "processBacklog_loop c src [] out = Some ([], out)"
  by ((subst processPendingRequests_loop.simps | subst processBacklog_loop.simps), simp add: prque_Pop_def heap_Pop_def)+

lemma sample_setState [simp]: "setState st' (sample_at st cur out) = Some (sample_at st' cur out)"
  by (simp add: setState_def processPendingRequests_def processBacklog_def prque_Pop_def sample_at_def Let_def)

lemma sample_Start: "Start sample_env (New sample_env DefaultConfig) =
    Some (sample_at StateAcceptRequest sample_cur [RoundChangeTimer (roundTimeout 10000 0)])"
  by (simp add: Start_def startNewRound_def startNewRound_guard_def startNewRound_view_def New_def sample_env_def
     setState_def updateRoundState_def Let_def processPendingRequests_def processBacklog_def prque_New_def prque_Pop_def isProposer_def
      newRoundChangeTimer_def stopTimer_def stopFuturePreprepareTimer_def sample_at_def sample_vs_def sample_cur_def
      sample_view_def emit_def DefaultConfig_def big_Uint64_def)

lemma sample_env_simps [simp]:
  "e_kec sample_env = (\<lambda>_. 7)" "e_iter sample_env = rev" "e_HasBadProposal sample_env = (\<lambda>_. False)"
  "e_Verify sample_env p = (0, None)" "e_Sign sample_env d = Inr [1]" "e_Commit sample_env p s = None"
  "e_LastProposal sample_env = (Some (sample_block 0), 0)"
  by (simp_all add: sample_env_def)

lemma length_nat_be_le8: "n < 2 ^ 64 \<Longrightarrow> length (nat_be n) \<le> 8"
  using length_nat_be_u64 [of "of_nat n"] by (simp add: unsigned_of_nat take_bit_nat_eq_self)

lemma length_rlp_le:
  "length b < 2 ^ 64 \<Longrightarrow> length (rlp_string b) \<le> length b + 9"
  "length b < 2 ^ 64 \<Longrightarrow> length (rlp_list b) \<le> length b + 9"
  by (simp_all add: length_rlp_string_eq length_rlp_list_eq length_nat_be_le8)

lemma Payload_short:
  assumes "length (msg_Msg m) < 2 ^ 32" and "length (msg_Signature m) < 66" and "length (msg_CommittedSeal m) < 66"
  shows "Payload m = Some (Inr (rlp_spec (message_rval m)))"
proof (rule Payload_spec)
  define p where "p = rlp_string (nat_be (unat (msg_Code m))) @ rlp_string (msg_Msg m) @
    rlp_string (Address_Bytes (msg_Address m)) @ rlp_string (msg_Signature m) @ rlp_string (msg_CommittedSeal m)"
  have "length p < 2 ^ 33"
    using assms length_nat_be_u64 [of "msg_Code m"] length_rlp_le(1) [of "nat_be (unat (msg_Code m))"]
      length_rlp_le(1) [of "msg_Msg m"] length_rlp_le(1) [of "msg_Signature m"]
      length_rlp_le(1) [of "msg_CommittedSeal m"] length_rlp_le(1) [of "Address_Bytes (msg_Address m)"]
    by (simp add: p_def)
  then have "length (rlp_list p) < 2 ^ 64"
    using length_rlp_le(2) [of p] by simp
  then show "length (rlp_spec (message_rval m)) < 2 ^ 64"
    by (simp add: message_rval_def p_def)
qed

lemma sample_broadcast:
  assumes "length m < 2 ^ 32" and "c_current c = Some cur"
    and "rs_Preprepare cur = None \<or> rs_Preprepare cur = Some sample_preprepare"
  obtains payload where "broadcast sample_env code m c = Some (emit (Broadcast (c_valSet c) payload) c)"
proof -
  have "\<exists>payload. finalizeMessage sample_env \<lparr>msg_Code = code, msg_Msg = m, msg_Address = 0, msg_Signature = [],
      msg_CommittedSeal = []\<rparr> c = Some (Inr payload)"
    using assms by (cases "code = msgCommit") (auto simp: finalizeMessage_def Let_def PayloadNoSig_Payload unsigned_message_def Payload_short
        rs_Proposal_def sample_preprepare_def)
  then show thesis
    using that by (auto simp: broadcast_def)
qed

lemma sample_encode:
  "bft_Encode (Subject_EncodeRLP sample_subject) = Some (Inr (rlp_spec (Subject_rval sample_subject)))"
  "length (rlp_spec (Subject_rval sample_subject)) < 2 ^ 32"
proof -
  show *: "length (rlp_spec (Subject_rval sample_subject)) < 2 ^ 32"
    by (simp add: Subject_rval_def sample_subject_def View_rval_def sample_view_def rlp_length)
  then show "bft_Encode (Subject_EncodeRLP sample_subject) = Some (Inr (rlp_spec (Subject_rval sample_subject)))"
    by (intro Decode_Subject_spec(1)) (simp_all add: sample_subject_def sample_view_def view_wf_def)
qed

lemma sample_Payload: "\<exists>p. Payload (sample_message code) = Some (Inr p)"
proof -
  have "length (rlp_spec (Preprepare_rval sample_preprepare)) < 2 ^ 32"
    by (simp add: Preprepare_rval_def sample_preprepare_def View_rval_def sample_view_def Block_rval_def
        sample_block_def NewBlockWithHeader_def CopyHeader_def Header_rval_def sample_header_def
        DposContextProto_rval_def rlp_length)
  then have "Payload (sample_message code) = Some (Inr (rlp_spec (message_rval (sample_message code))))"
    using sample_encode(2) by (intro Payload_short) (simp_all add: sample_message_def)
  then show ?thesis ..
qed

text \<open>The round state of the sample run: with a proposal, locked, and with the given votes.\<close>

definition sample_round_pp :: "hash \<Rightarrow> message list \<Rightarrow> message list \<Rightarrow> roundState" where
  "sample_round_pp lock ps cs =
     (SetPreprepare sample_preprepare sample_cur)\<lparr>rs_lockedHash := lock,
       rs_Prepares := (newMessageSet sample_validators)\<lparr>ms_messages := map (Pair 1) ps\<rparr>,
       rs_Commits := (newMessageSet sample_validators)\<lparr>ms_messages := map (Pair 1) cs\<rparr>\<rparr>"

lemma sample_round_pp_simps [simp]:
  "rs_Preprepare (sample_round_pp l ps cs) = Some sample_preprepare"
  "rs_view (sample_round_pp l ps cs) = sample_view" "rs_lockedHash (sample_round_pp l ps cs) = l"
  "rs_sequence (sample_round_pp l ps cs) = 1" "rs_round (sample_round_pp l ps cs) = 0"
  "rs_Subject (\<lambda>_. 7) (sample_round_pp l ps cs) = Some (Some sample_subject)"
  "rs_Proposal (sample_round_pp l ps cs) = Some (sample_block 1)"
  "ms_messages (rs_Prepares (sample_round_pp l ps cs)) = map (Pair 1) ps"
  "ms_messages (rs_Commits (sample_round_pp l ps cs)) = map (Pair 1) cs"
  by (simp_all add: sample_round_pp_def SetPreprepare_def rs_Subject_def rs_view_def sample_cur_def sample_view_def
      sample_preprepare_def sample_subject_def rs_Proposal_def)

lemma sample_vote:
  obtains x y where "sendPrepare sample_env (sample_at st (sample_round_pp l ps cs) out) =
      Some (sample_at st (sample_round_pp l ps cs) (out @ [x]))"
    and "sendCommit sample_env (sample_at st (sample_round_pp l ps cs) out) =
      Some (sample_at st (sample_round_pp l ps cs) (out @ [y]))"
proof -
  let ?c = "sample_at st (sample_round_pp l ps cs) out"
  obtain p where "broadcast sample_env msgPrepare (rlp_spec (Subject_rval sample_subject)) ?c =
      Some (emit (Broadcast (c_valSet ?c) p) ?c)"
    by (rule sample_broadcast [OF sample_encode(2), of ?c "sample_round_pp l ps cs"]) simp_all
  moreover obtain q where "broadcast sample_env msgCommit (rlp_spec (Subject_rval sample_subject)) ?c =
      Some (emit (Broadcast (c_valSet ?c) q) ?c)"
    by (rule sample_broadcast [OF sample_encode(2), of ?c "sample_round_pp l ps cs"]) simp_all
  ultimately show thesis
    using that by (simp add: sendPrepare_def sendCommit_def broadcastCommit_def sample_encode)
qed

lemma sample_check [simp]:
  "checkMessage msgPreprepare (Some sample_view) (sample_at StateAcceptRequest sample_cur out) = Some None"
  "st \<noteq> StateAcceptRequest \<Longrightarrow> code \<noteq> msgRoundChange \<Longrightarrow>
     checkMessage code (Some sample_view) (sample_at st (sample_round_pp l ps cs) out) = Some None"
  by (simp_all add: checkMessage_def currentView_def sample_cur_def sample_view_def View_Cmp_def msgPreprepare_def
      msgRoundChange_def)

lemma sample_cur_free: "\<not> IsHashLocked bad sample_cur"
  by (simp add: IsHashLocked_def EmptyHash_def sample_cur_def)

lemma sample_Preprepare:
  "\<exists>out'. handleEvent sample_env (backlogEvent sample_validator (sample_message msgPreprepare))
      (sample_at StateAcceptRequest sample_cur out) = Some (sample_at StatePreprepared (sample_round_pp 0 [] []) out')"
proof -
  have "SetPreprepare sample_preprepare sample_cur = sample_round_pp 0 [] []"
    by (simp add: sample_round_pp_def sample_cur_def SetPreprepare_def newRoundState_def newMessageSet_def)
  moreover obtain x where "sendPrepare sample_env (sample_at StatePreprepared (sample_round_pp 0 [] []) out) =
      Some (sample_at StatePreprepared (sample_round_pp 0 [] []) (out @ [x]))"
    by (rule sample_vote)
  moreover have "pp_View sample_preprepare = sample_view"
    by (simp add: sample_preprepare_def)
  moreover obtain p where "Payload (sample_message msgPreprepare) = Some (Inr p)"
    using sample_Payload by blast
  ultimately show ?thesis
    by (simp add: handleCheckedMsg_def handlePreprepare_def handleVerifiedPreprepare_def testBacklog_def
        acceptPreprepare_def sample_cur_free)
qed

lemma sample_add:
  "snd (ms_Add (sample_message code) (rs_Prepares (sample_round_pp l [] cs))) =
     rs_Prepares (sample_round_pp l [sample_message code] cs)"
  "snd (ms_Add (sample_message code) (rs_Commits (sample_round_pp l ps []))) =
     rs_Commits (sample_round_pp l ps [sample_message code])"
  using sample_messages_simps [of code] by (simp_all add: sample_round_pp_def newMessageSet_def)

lemma sample_Prepare:
  "\<exists>out'. handleEvent sample_env (backlogEvent sample_validator (sample_message msgPrepare))
      (sample_at StatePreprepared (sample_round_pp 0 [] []) out) =
    Some (sample_at StatePrepared (sample_round_pp 7 [sample_message msgPrepare] []) out')"
proof -
  let ?m = "sample_message msgPrepare"
  obtain y where "sendCommit sample_env (sample_at StatePrepared (sample_round_pp 7 [?m] []) out) =
      Some (sample_at StatePrepared (sample_round_pp 7 [?m] []) (out @ [y]))"
    by (rule sample_vote)
  moreover have "sub_View sample_subject = sample_view"
    by (simp add: sample_subject_def)
  moreover obtain p where "Payload ?m = Some (Inr p)"
    using sample_Payload by blast
  moreover have "(sample_round_pp 0 [] [])\<lparr>rs_Prepares := rs_Prepares (sample_round_pp 0 [?m] [])\<rparr> = sample_round_pp 0 [?m] []"
    by (simp add: sample_round_pp_def)
  moreover have "LockHash (\<lambda>_. 7) (sample_round_pp 0 [?m] []) = Some (sample_round_pp 7 [?m] [])"
    by (simp add: LockHash_def sample_preprepare_def) (simp add: sample_round_pp_def)
  moreover have "GetPrepareOrCommitSize rev (sample_round_pp 0 [?m] []) = 1"
    by (simp add: GetPrepareOrCommitSize_def ms_Size_def ms_Values_def ms_Get_def)
  ultimately show ?thesis
    by (simp add: handleCheckedMsg_def handlePrepare_def verifyPrepare_def acceptPrepare_def preparedQuorum_def
        lockCurrent_def testBacklog_def sample_add msgPrepare_def msgPreprepare_def msgRoundChange_def State_Cmp_def)
qed

lemma sample_Commit:
  "\<exists>out'. handleEvent sample_env (backlogEvent sample_validator (sample_message msgCommit))
      (sample_at StatePrepared (sample_round_pp 7 [sample_message msgPrepare] []) out) =
    Some (sample_at StateCommitted (sample_round_pp 7 [sample_message msgPrepare] [sample_message msgCommit])
      (out @ Commit (sample_block 1) [copySeal [1]] # out'))"
proof -
  let ?p = "sample_message msgPrepare" and ?m = "sample_message msgCommit"
  have "sub_View sample_subject = sample_view"
    by (simp add: sample_subject_def)
  moreover obtain p where "Payload ?m = Some (Inr p)"
    using sample_Payload by blast
  moreover have "(sample_round_pp 7 [?p] [])\<lparr>rs_Commits := rs_Commits (sample_round_pp 7 [?p] [?m])\<rparr> = sample_round_pp 7 [?p] [?m]"
    by (simp add: sample_round_pp_def)
  moreover have "LockHash (\<lambda>_. 7) (sample_round_pp 7 [?p] [?m]) = Some (sample_round_pp 7 [?p] [?m])"
    by (simp add: LockHash_def sample_round_pp_def SetPreprepare_def sample_preprepare_def)
  moreover have "map (copySeal \<circ> msg_CommittedSeal) (ms_Values rev (rs_Commits (sample_round_pp 7 [?p] [?m]))) =
      [copySeal [1]]"
    by (simp add: ms_Values_def sample_message_def)
  ultimately show ?thesis
    by (simp add: handleCheckedMsg_def handleCommit_def verifyCommit_def acceptCommit_def committedQuorum_def
        lockCurrent_def testBacklog_def sample_add msgPrepare_def msgPreprepare_def msgCommit_def msgRoundChange_def
        State_Cmp_def ms_Size_def commit_def Let_def)
qed

lemma sample_timeout:
  "\<exists>c' payload. handleEvent sample_env timeoutEvent (sample_at st (sample_round_pp l ps cs) out) = Some c' \<and>
     Broadcast (Some sample_vs) payload \<in> new_effects (sample_at st (sample_round_pp l ps cs) out) c'"
proof -
  let ?cur = "sample_round_pp l ps cs" and ?view = "\<lparr>vw_Round = 1, vw_Sequence = 1\<rparr>"
  let ?sub = "\<lparr>sub_View = ?view, sub_Digest = 0\<rparr>"
  have len: "length (rlp_spec (Subject_rval ?sub)) < 2 ^ 32"
    by (simp add: Subject_rval_def View_rval_def rlp_length)
  then have enc: "bft_Encode (Subject_EncodeRLP ?sub) = Some (Inr (rlp_spec (Subject_rval ?sub)))"
    by (intro Decode_Subject_spec(1)) (simp_all add: view_wf_def)
  obtain d where d: "catchUpRound sample_env ?view (sample_at st ?cur out) = Some d"
    "c_valSet d = Some sample_vs" "\<exists>out'. c_out d = out @ out'"
    "\<exists>cur'. c_current d = Some cur' \<and> rs_view cur' = ?view \<and>
       (rs_Preprepare cur' = None \<or> rs_Preprepare cur' = Some sample_preprepare)"
    by (simp add: catchUpRound_def updateRoundState_def newRoundChangeTimer_def stopTimer_def Let_def
        stopFuturePreprepareTimer_def rs_view_def)
  then obtain payload where "broadcast sample_env msgRoundChange (rlp_spec (Subject_rval ?sub)) d =
      Some (emit (Broadcast (c_valSet d) payload) d)"
    using sample_broadcast [OF len] by blast
  then have "handleEvent sample_env timeoutEvent (sample_at st ?cur out) = Some (emit (Broadcast (c_valSet d) payload) d)"
    using d enc by (auto simp: handleTimeoutMsg_def sendNextRoundChange_def sendRoundChange_def currentView_def
        rc_MaxRound_def newRoundChangeSet_def rs_view_def)
  then show ?thesis
    using d(2,3) by (auto simp: new_effects_def)
qed

section \<open>Reachable states\<close>

lemma sample_reachable:
  "\<exists>out. reachable (\<lambda>_. 7) (\<lambda>_. False) (sample_at StateAcceptRequest sample_cur out)"
  "\<exists>out. reachable (\<lambda>_. 7) (\<lambda>_. False) (sample_at StatePreprepared (sample_round_pp 0 [] []) out)"
  "\<exists>out. reachable (\<lambda>_. 7) (\<lambda>_. False) (sample_at StatePrepared (sample_round_pp 7 [sample_message msgPrepare] []) out)"
proof -
  show accept: "\<exists>out. reachable (\<lambda>_. 7) (\<lambda>_. False) (sample_at StateAcceptRequest sample_cur out)"
    using reachable.start [OF _ _ sample_Start] by auto
  then show preprepared: "\<exists>out. reachable (\<lambda>_. 7) (\<lambda>_. False) (sample_at StatePreprepared (sample_round_pp 0 [] []) out)"
    using reachable.step [OF _ sample_env_simps(1,3)] sample_Preprepare by metis
  then show "\<exists>out. reachable (\<lambda>_. 7) (\<lambda>_. False)
      (sample_at StatePrepared (sample_round_pp 7 [sample_message msgPrepare] []) out)"
    using reachable.step [OF _ sample_env_simps(1,3)] sample_Prepare by metis
qed

end
