(* ===== verification/BFT_Limits.thy ===== *)
theory BFT_Limits
  imports BFT_Safety
begin

text \<open>
  Arithmetic and authentication of the consensus core: the priority of a backlog message and the round
  timeout inside and outside the range where they are exact, the conservation of backlog messages, and
  what the signature and the committed seal of a message do and do not cover.
\<close>

section \<open>Priorities\<close>

lemma float32_nat_exact: "n < 2 ^ 24 \<Longrightarrow> float32_nat n = n"
proof -
  assume "n < 2 ^ 24"
  then have "nat_bitlen n - 24 = 0"
    using nat_bitlen_le [of n 24] by simp
  then show ?thesis
    by (simp add: float32_nat_def)
qed

lemma float32_nat_eighth:
  assumes "2 ^ 26 \<le> 8 * a" "8 * a + 8 \<le> 2 ^ 27" and "p < 4"
  shows "float32_nat (8 * a + p) = 8 * a"
proof -
  have "nat_bitlen (8 * a + p) = 27"
    using nat_bitlen_le [of "8 * a + p" 27] nat_bitlen_le [of "8 * a + p" 26] assms by simp
  moreover have "(8 * a + p) div 8 = a" "(8 * a + p) mod 8 = p"
    using assms(3) by simp_all
  ultimately show ?thesis
    using assms(3) by (simp add: float32_nat_def)
qed

definition priority_nat :: "u64 \<Rightarrow> View \<Rightarrow> nat" where
  "priority_nat code v = nat (vw_Sequence v) * 1000 + nat (vw_Round v) * 10 + unat (msgPriority code)"

lemma msgPriority_less: "unat (msgPriority code) < 4"
  by (simp add: msgPriority_def)

lemma toPriority_nat:
  assumes "code \<noteq> msgRoundChange" and "0 \<le> vw_Sequence v" and "vw_Sequence v < 2 ^ 32"
    and "0 \<le> vw_Round v" and "vw_Round v < 100"
  shows "toPriority code v = - int (float32_nat (priority_nat code v))"
proof -
  have u: "big_Uint64 x = of_nat (nat x)" if "0 \<le> x" for x
    using that by (simp add: big_Uint64_def)
  let ?w = "big_Uint64 (vw_Sequence v) * 1000 + big_Uint64 (vw_Round v) * 10 + msgPriority code"
  have "priority_nat code v < 2 ^ 64"
    using assms msgPriority_less [of code] by (simp add: priority_nat_def)
  moreover have "?w = of_nat (priority_nat code v)"
    by (simp add: priority_nat_def u assms)
  ultimately have "unat ?w = priority_nat code v"
    by (simp add: unsigned_of_nat take_bit_nat_eq_self)
  then show ?thesis
    using assms(1) by (simp add: toPriority_def)
qed

lemma priority_lex:
  fixes s r p :: nat
  assumes "r < 100" "r' < 100" "p < 4" "p' < 4"
  shows "s * 1000 + r * 10 + p < s' * 1000 + r' * 10 + p' \<longleftrightarrow> s < s' \<or> s = s' \<and> (r < r' \<or> r = r' \<and> p < p')"
  using assms by (cases s s' rule: linorder_cases; cases r r' rule: linorder_cases) auto

lemma toPriority_order:
  assumes "code \<in> {msgPreprepare, msgCommit, msgPrepare}" and "code' \<in> {msgPreprepare, msgCommit, msgPrepare}"
    and "0 \<le> vw_Sequence v" and "vw_Sequence v \<le> 16776" and "0 \<le> vw_Round v" and "vw_Round v < 100"
    and "0 \<le> vw_Sequence w" and "vw_Sequence w \<le> 16776" and "0 \<le> vw_Round w" and "vw_Round w < 100"
  shows "toPriority code v > toPriority code' w \<longleftrightarrow>
    vw_Sequence v < vw_Sequence w \<or> vw_Sequence v = vw_Sequence w \<and>
      (vw_Round v < vw_Round w \<or> vw_Round v = vw_Round w \<and> msgPriority code < msgPriority code')"
proof -
  have codes: "code \<noteq> msgRoundChange" "code' \<noteq> msgRoundChange"
    using assms(1,2) by (auto simp: msgPreprepare_def msgCommit_def msgPrepare_def msgRoundChange_def)
  have eq: "toPriority code v = - int (priority_nat code v)" "toPriority code' w = - int (priority_nat code' w)"
    using assms codes msgPriority_less [of code] msgPriority_less [of code']
    by (simp_all add: toPriority_nat float32_nat_exact priority_nat_def)
  obtain s r s' r' where v: "vw_Sequence v = int s" "vw_Round v = int r" "vw_Sequence w = int s'" "vw_Round w = int r'"
    using assms(3,5,7,9) by (metis nonneg_int_cases)
  show ?thesis
    unfolding eq priority_nat_def v word_less_nat_alt nat_int neg_less_iff_less of_nat_less_iff of_nat_eq_iff
    using assms(6,10) by (intro priority_lex msgPriority_less) (simp_all add: v)
qed

lemma toPriority_collision:
  assumes "67109 \<le> vw_Sequence v" and "vw_Sequence v \<le> 134216" and "vw_Round v = 0"
  shows "toPriority msgPreprepare v = toPriority msgCommit v \<and> toPriority msgCommit v = toPriority msgPrepare v"
proof -
  have "toPriority code v = - int (8 * (nat (vw_Sequence v) * 125))" if "code \<noteq> msgRoundChange" for code
  proof -
    have "priority_nat code v = 8 * (nat (vw_Sequence v) * 125) + unat (msgPriority code)"
      by (simp add: priority_nat_def assms(3))
    moreover have "float32_nat (8 * (nat (vw_Sequence v) * 125) + unat (msgPriority code)) = 8 * (nat (vw_Sequence v) * 125)"
      using assms(1,2) msgPriority_less [of code] by (intro float32_nat_eighth) simp_all
    ultimately show ?thesis
      using toPriority_nat [OF that] assms by simp
  qed
  then show ?thesis
    by (simp add: msgPreprepare_def msgCommit_def msgPrepare_def msgRoundChange_def)
qed


section \<open>Timeouts\<close>

lemma sint_of_int: "- (2 ^ 63) \<le> x \<Longrightarrow> x < 2 ^ 63 \<Longrightarrow> sint (word_of_int x :: u64) = x"
  unfolding signed_of_int of_int_eq_id id_apply by (rule signed_take_bit_int_eq_self) simp_all

lemma roundTimeout_int:
  assumes "r < 63"
  shows "roundTimeout (of_nat t) (of_nat r) =
    word_of_int (int t * 1000000 + (if r = 0 then 0 else 2 ^ r * 1000000000))"
proof -
  have r: "unat (of_nat r :: u64) = r"
    using assms by (simp add: unsigned_of_nat take_bit_nat_eq_self)
  then have "(of_nat r :: u64) > 0 \<longleftrightarrow> r \<noteq> 0" "(of_nat r :: u64) < 63"
    using assms by (simp_all add: word_less_nat_alt)
  then show ?thesis
    using r by (simp add: roundTimeout_def)
qed

lemma roundTimeout_exact:
  assumes "t \<le> 600000" and "r \<le> 33"
  shows "sint (roundTimeout (of_nat t) (of_nat r)) = int t * 1000000 + (if r = 0 then 0 else 2 ^ r * 1000000000)"
proof -
  have "(2 :: int) ^ r \<le> 2 ^ 33"
    using assms(2) by (intro power_increasing) simp_all
  moreover have "0 \<le> int t * 1000000 + (if r = 0 then 0 else 2 ^ r * 1000000000)"
    by simp
  moreover from calculation(1) have "int t * 1000000 + (if r = 0 then 0 else 2 ^ r * 1000000000) < 2 ^ 63"
    using assms(1) by simp
  ultimately have "sint (word_of_int (int t * 1000000 + (if r = 0 then 0 else 2 ^ r * 1000000000)) :: u64) =
      int t * 1000000 + (if r = 0 then 0 else 2 ^ r * 1000000000)"
    by (intro sint_of_int) linarith+
  then show ?thesis
    using assms(2) by (subst roundTimeout_int) simp_all
qed

lemma roundTimeout_overflow:
  assumes "t \<le> 600000"
  shows "sint (roundTimeout (of_nat t) 34) < 0"
proof -
  let ?x = "int t * 1000000 + 2 ^ 34 * 1000000000 - 2 ^ 64"
  have "roundTimeout (of_nat t) 34 = word_of_int ?x"
    using roundTimeout_int [of 34 t] by simp
  moreover have "sint (word_of_int ?x :: u64) = ?x"
    using assms by (intro sint_of_int) simp_all
  ultimately have "sint (roundTimeout (of_nat t) 34) = ?x"
    by metis
  then show ?thesis
    using assms by simp
qed

text \<open>
  C24: the round timeout is exact and grows with the round up to round 33, for every request timeout of at
  most ten minutes.  In round 34 the product overflows: the timeout is negative, and the timer fires at once.
\<close>

theorem roundTimeout_range:
  assumes "t \<le> 600000"
  shows "(r \<le> 33 \<longrightarrow> sint (roundTimeout (of_nat t) (of_nat r)) = int t * 1000000 + (if r = 0 then 0 else 2 ^ r * 1000000000)) \<and>
    sint (roundTimeout (of_nat t) 34) < 0"
  using roundTimeout_exact [OF assms] roundTimeout_overflow [OF assms] by blast

section \<open>Authentication\<close>

text \<open>
  C21: the sender of a message is not authenticated.  The signature must recover to some validator, but not
  to the validator named in the message: a payload signed by validator \<open>s\<close> in the name of validator
  \<open>msg_Address m\<close> is handled as a message of the latter.
\<close>

theorem forged_sender:
  assumes "c_valSet c = Some vs" and "length (rlp_spec (message_rval m)) < 2 ^ 64"
    and "length (rlp_spec (message_rval (unsigned_message m))) < 2 ^ 64"
    and "e_rcv e (e_kec e (rlp_spec (message_rval (unsigned_message m)))) (msg_Signature m) = Inr s"
    and "s \<in> valset_addrs vs" and "snd (GetByAddress vs (msg_Address m)) = Some src"
  shows "Payload m = Some (Inr (rlp_spec (message_rval m))) \<and>
    handleMsg e (rlp_spec (message_rval m)) c = handleCheckedMsg e m src c"
proof -
  obtain v where "snd (GetByAddress vs s) = Some v"
    using GetByAddress_mem [OF assms(5)] by blast
  then have "checkValidatorSignature e vs (rlp_spec (message_rval (unsigned_message m))) (msg_Signature m) = Inr (v_address v)"
    using assms(4) by (simp add: checkValidatorSignature_def CheckValidatorSignature_def GetSignatureAddress_def)
  then have "FromPayload (rlp_spec (message_rval m)) (Some (checkValidatorSignature e vs)) = Some (Inr m)"
    using Payload_spec [OF assms(2)] Payload_spec(1) [OF assms(3)]
    by (simp add: FromPayload_def PayloadNoSig_Payload)
  then show ?thesis
    using assms(1,6) Payload_spec(1) [OF assms(2)] by (simp add: handleMsg_def)
qed

text \<open>
  C22: the seal of a COMMIT for an old block is not a seal of that block.  It signs the hash of the proposal
  of the current round, or is empty when there is none, whatever block the COMMIT names.
\<close>

theorem old_commit_seal:
  assumes "sendCommitForOldBlock e view digest c = Some c'" and "c_current c = Some cur"
    and "Broadcast vs payload \<in> new_effects c c'"
  shows "\<exists>m. Payload m = Some (Inr payload) \<and>
    bft_Encode (Subject_EncodeRLP \<lparr>sub_View = view, sub_Digest = digest\<rparr>) = Some (Inr (msg_Msg m)) \<and>
    (case rs_Proposal cur of
       None \<Rightarrow> msg_CommittedSeal m = []
     | Some p \<Rightarrow> \<exists>h. Block_Hash (e_kec e) p = Some h \<and> e_Sign e (PrepareCommittedSeal h) = Inr (msg_CommittedSeal m))"
proof -
  obtain m where m: "bft_Encode (Subject_EncodeRLP \<lparr>sub_View = view, sub_Digest = digest\<rparr>) = Some (Inr m)"
    "broadcast e msgCommit m c = Some c'"
    using assms(1,3) by (auto simp: sendCommitForOldBlock_def broadcastCommit_def new_effects_def split: op_splits)
  then have "finalizeMessage e \<lparr>msg_Code = msgCommit, msg_Msg = m, msg_Address = 0, msg_Signature = [],
       msg_CommittedSeal = []\<rparr> c = Some (Inr payload)"
    using assms(3) by (auto simp: broadcast_def new_effects_def split: op_splits)
  then have "\<exists>m'. Payload m' = Some (Inr payload) \<and> msg_Msg m' = m \<and>
    (case rs_Proposal cur of
       None \<Rightarrow> msg_CommittedSeal m' = []
     | Some p \<Rightarrow> \<exists>h. Block_Hash (e_kec e) p = Some h \<and> e_Sign e (PrepareCommittedSeal h) = Inr (msg_CommittedSeal m'))"
    using assms(2) by (cases "rs_Proposal cur") (fastforce simp: finalizeMessage_def Let_def map_sum_eq_Inr split: op_splits)+
  then show ?thesis
    using m(1) by blast
qed

section \<open>Backlog\<close>

lemma prque_PopD:
  "prque_Pop q = Some (x, q') \<Longrightarrow> set q = insert x (set q')"
  unfolding prque_Pop_def by (metis heap_Pop_contents(1) set_mset_add_mset_insert set_mset_mset)

text \<open>A backlog message may be dropped when it does not decode or is not of the future.\<close>

definition obsolete :: "core \<Rightarrow> message \<Rightarrow> bool" where
  "obsolete c m \<longleftrightarrow> backlogView m = Some None \<or>
     (\<exists>v err. backlogView m = Some (Some v) \<and> checkMessage (msg_Code m) (Some v) c = Some (Some err) \<and>
        err \<noteq> errFutureMessage)"

definition deliverable :: "core \<Rightarrow> message \<Rightarrow> bool" where
  "deliverable c m \<longleftrightarrow> (\<exists>v. backlogView m = Some (Some v) \<and> checkMessage (msg_Code m) (Some v) c = Some None)"

lemma processBacklog_loop_keeps:
  assumes "processBacklog_loop c src q out = Some (q', out')"
  shows "\<exists>ms. out' = out @ map (\<lambda>m. SendEvent (backlogEvent src m)) ms \<and> (\<forall>m \<in> set ms. deliverable c m) \<and>
    set ms \<subseteq> fst ` set q \<and> set q' \<subseteq> set q \<and> (\<forall>x \<in> set q. x \<in> set q' \<or> fst x \<in> set ms \<or> obsolete c (fst x))"
  using assms
proof (induction q arbitrary: out rule: measure_induct_rule [where f = length])
  case (less q)
  show ?case
  proof (cases "prque_Pop q")
    case None
    then show ?thesis
      using less.prems by (subst (asm) processBacklog_loop.simps) auto
  next
    case (Some p)
    obtain m prio q1 where p: "p = ((m, prio), q1)"
      by (metis prod.exhaust)
    have q: "set q = insert (m, prio) (set q1)" "length q1 < length q"
      using Some prque_PopD [of q "(m, prio)" q1] p by (auto simp: prque_Pop_def dest: heap_Pop_contents(3))
    have IH: "\<exists>ms. out' = o1 @ map (\<lambda>m. SendEvent (backlogEvent src m)) ms \<and> (\<forall>m \<in> set ms. deliverable c m) \<and>
        set ms \<subseteq> fst ` set q1 \<and> set q' \<subseteq> set q1 \<and> (\<forall>x \<in> set q1. x \<in> set q' \<or> fst x \<in> set ms \<or> obsolete c (fst x))"
      if "processBacklog_loop c src q1 o1 = Some (q', out')" for o1
      using less.IH [OF q(2) that] .
    from less.prems Some p consider
        (skip) "obsolete c m" "processBacklog_loop c src q1 out = Some (q', out')"
      | (stop) "q' = prque_Push m prio q1" "out' = out"
      | (post) "deliverable c m" "processBacklog_loop c src q1 (out @ [SendEvent (backlogEvent src m)]) = Some (q', out')"
      by (subst (asm) processBacklog_loop.simps) (auto simp: obsolete_def deliverable_def split: op_splits)
    then show ?thesis
    proof cases
      case skip
      with IH [OF skip(2)] q(1) show ?thesis
        by auto
    next
      case stop
      have "set q' = set q"
        using mset_prque_Push [of m prio q1] stop(1) q(1) by (metis set_mset_add_mset_insert set_mset_mset)
      then show ?thesis
        using stop(2) by (intro exI [of _ "[]"]) simp
    next
      case post
      from IH [OF post(2)] obtain ms where ms: "out' = (out @ [SendEvent (backlogEvent src m)]) @ map (\<lambda>m. SendEvent (backlogEvent src m)) ms"
        "\<forall>m \<in> set ms. deliverable c m" "set ms \<subseteq> fst ` set q1" "set q' \<subseteq> set q1"
        "\<forall>x \<in> set q1. x \<in> set q' \<or> fst x \<in> set ms \<or> obsolete c (fst x)"
        by blast
      with post(1) q(1) show ?thesis
        by (intro exI [of _ "m # ms"]) auto
    qed
  qed
qed

lemma processBacklog_all_keeps:
  assumes "processBacklog_all c bs out = Some (bs', out')"
  shows "\<exists>xs. out' = out @ xs \<and>
    (\<forall>x \<in> set xs. \<exists>src m q. x = SendEvent (backlogEvent src m) \<and> (src, q) \<in> set bs \<and> m \<in> fst ` set q \<and> deliverable c m) \<and>
    (\<forall>(src, q) \<in> set bs. \<exists>q'. (src, q') \<in> set bs' \<and> set q' \<subseteq> set q \<and>
       (\<forall>x \<in> set q. x \<in> set q' \<or> SendEvent (backlogEvent src (fst x)) \<in> set xs \<or> obsolete c (fst x)))"
  using assms
proof (induction bs arbitrary: out bs')
  case (Cons b bs)
  obtain src q where b: "b = (src, q)"
    by (cases b)
  with Cons.prems obtain q1 o1 bs1 where *: "processBacklog_loop c src q out = Some (q1, o1)"
    "processBacklog_all c bs o1 = Some (bs1, out')" "bs' = (src, q1) # bs1"
    by (auto split: op_splits)
  from processBacklog_loop_keeps [OF *(1)] obtain ms where ms: "o1 = out @ map (\<lambda>m. SendEvent (backlogEvent src m)) ms"
    "\<forall>m \<in> set ms. deliverable c m" "set ms \<subseteq> fst ` set q" "set q1 \<subseteq> set q"
    "\<forall>x \<in> set q. x \<in> set q1 \<or> fst x \<in> set ms \<or> obsolete c (fst x)"
    by blast
  from Cons.IH [OF *(2)] obtain xs where xs: "out' = o1 @ xs"
    "\<forall>x \<in> set xs. \<exists>src m q. x = SendEvent (backlogEvent src m) \<and> (src, q) \<in> set bs \<and> m \<in> fst ` set q \<and> deliverable c m"
    "\<forall>(src, q) \<in> set bs. \<exists>q'. (src, q') \<in> set bs1 \<and> set q' \<subseteq> set q \<and>
       (\<forall>x \<in> set q. x \<in> set q' \<or> SendEvent (backlogEvent src (fst x)) \<in> set xs \<or> obsolete c (fst x))"
    by blast
  let ?ys = "map (\<lambda>m. SendEvent (backlogEvent src m)) ms @ xs"
  have "\<exists>src' m q'. x = SendEvent (backlogEvent src' m) \<and> (src', q') \<in> set (b # bs) \<and> m \<in> fst ` set q' \<and> deliverable c m"
    if "x \<in> set ?ys" for x
  proof (cases "x \<in> set xs")
    case True
    with xs(2) show ?thesis
      by fastforce
  next
    case False
    with that obtain m where "x = SendEvent (backlogEvent src m)" "m \<in> set ms"
      by auto
    then show ?thesis
      using ms(2,3) b by (intro exI [of _ src] exI [of _ m] exI [of _ q]) auto
  qed
  moreover have "\<exists>q'. (src', q') \<in> set bs' \<and> set q' \<subseteq> set p \<and>
      (\<forall>x \<in> set p. x \<in> set q' \<or> SendEvent (backlogEvent src' (fst x)) \<in> set ?ys \<or> obsolete c (fst x))"
    if "(src', p) \<in> set (b # bs)" for src' p
  proof (cases "(src', p) \<in> set bs")
    case True
    with xs(3) obtain q' where "(src', q') \<in> set bs1" "set q' \<subseteq> set p"
      "\<forall>x \<in> set p. x \<in> set q' \<or> SendEvent (backlogEvent src' (fst x)) \<in> set xs \<or> obsolete c (fst x)"
      by blast
    then show ?thesis
      using *(3) by (intro exI [of _ q']) auto
  next
    case False
    then show ?thesis
      using that b ms(4,5) *(3) by (intro exI [of _ q1]) auto
  qed
  ultimately show ?case
    using xs(1) ms(1) by (intro exI [of _ ?ys]) auto
qed simp

text \<open>
  C20: no backlog message is lost.  Processing the backlog posts only stored messages that are due; every stored
  message stays in the backlog of its sender, is posted, or is one that does not decode or belongs to the
  past.
\<close>

theorem processBacklog_keeps:
  assumes "processBacklog c = Some c'"
  shows "(\<forall>x \<in> new_effects c c'. \<exists>src m q. x = SendEvent (backlogEvent src m) \<and> (src, q) \<in> set (c_backlogs c) \<and>
      m \<in> fst ` set q \<and> deliverable c m) \<and>
    (\<forall>(src, q) \<in> set (c_backlogs c). \<exists>q'. (src, q') \<in> set (c_backlogs c') \<and> set q' \<subseteq> set q \<and>
      (\<forall>(m, prio) \<in> set q. (m, prio) \<in> set q' \<or> SendEvent (backlogEvent src m) \<in> new_effects c c' \<or> obsolete c m))"
proof -
  obtain bs out where *: "processBacklog_all c (c_backlogs c) (c_out c) = Some (bs, out)"
    "c' = c\<lparr>c_backlogs := bs, c_out := out\<rparr>"
    using assms by (auto simp: processBacklog_def split: op_splits)
  from processBacklog_all_keeps [OF *(1)] show ?thesis
    unfolding new_effects_def *(2) by fastforce
qed

section \<open>Instances\<close>


theorem roundTimeout_range_witness:
  "sint (roundTimeout (of_nat 10000) (of_nat 33)) = 8589934602000000000 \<and> sint (roundTimeout (of_nat 10000) 34) < 0"
  using roundTimeout_range [of 10000 33] by simp

theorem forged_sender_witness:
  "snd (GetByAddress (sample_set 2) 2) = Some (validator_New 1 2) \<and> e_rcv sample_env 7 [] = Inr 1 \<and>
   handleMsg sample_env (rlp_spec (message_rval (sample_msg msgCommit 2)))
     ((sample_at StateAcceptRequest sample_cur [])\<lparr>c_valSet := Some (sample_set 2)\<rparr>) =
   handleCheckedMsg sample_env (sample_msg msgCommit 2) (validator_New 1 2)
     ((sample_at StateAcceptRequest sample_cur [])\<lparr>c_valSet := Some (sample_set 2)\<rparr>)"
proof -
  let ?m = "sample_msg msgCommit 2" and ?c = "(sample_at StateAcceptRequest sample_cur [])\<lparr>c_valSet := Some (sample_set 2)\<rparr>"
  have src: "snd (GetByAddress (sample_set 2) 2) = Some (validator_New 1 2)"
    by code_simp
  have one: "1 \<in> valset_addrs (sample_set 2)"
    by code_simp
  have rcv: "e_rcv sample_env h s = Inr 1" for h s
    by (simp add: sample_env_def)
  have len: "length (rlp_spec (message_rval ?m)) < 2 ^ 64" "length (rlp_spec (message_rval (unsigned_message ?m))) < 2 ^ 64"
    by (simp_all add: message_rval_def unsigned_message_def sample_msg_def msgCommit_def rlp_length)
  have "handleMsg sample_env (rlp_spec (message_rval ?m)) ?c = handleCheckedMsg sample_env ?m (validator_New 1 2) ?c"
    using forged_sender [OF _ len rcv one, of ?c "validator_New 1 2"] src by (simp add: sample_msg_def)
  then show ?thesis
    using src rcv by simp
qed

theorem old_commit_seal_witness:
  "\<exists>c' vs payload m. sendCommitForOldBlock sample_env sample_view 7 (sample_at StateAcceptRequest sample_cur []) = Some c' \<and>
     Broadcast vs payload \<in> new_effects (sample_at StateAcceptRequest sample_cur []) c' \<and>
     Payload m = Some (Inr payload) \<and> msg_CommittedSeal m = []"
proof -
  let ?c = "sample_at StateAcceptRequest sample_cur []"
  obtain payload where "broadcast sample_env msgCommit (rlp_spec (Subject_rval sample_subject)) ?c =
      Some (emit (Broadcast (c_valSet ?c) payload) ?c)"
    by (rule sample_broadcast [OF sample_encode(2), of ?c sample_cur]) (simp_all add: sample_cur_def)
  then have *: "sendCommitForOldBlock sample_env sample_view 7 ?c = Some (emit (Broadcast (c_valSet ?c) payload) ?c)"
    using sample_encode(1) by (simp add: sendCommitForOldBlock_def broadcastCommit_def flip: sample_subject_def)
  have new: "Broadcast (c_valSet ?c) payload \<in> new_effects ?c (emit (Broadcast (c_valSet ?c) payload) ?c)"
    by (simp add: new_effects_def)
  show ?thesis
    using old_commit_seal [OF * _ new] * new by (fastforce simp: sample_cur_def rs_Proposal_def)
qed

theorem processBacklog_keeps_witness:
  "\<exists>c c'. processBacklog c = Some c' \<and> c_backlogs c = [(sample_validator, [(sample_message msgPrepare, -1003)])] \<and>
     SendEvent (backlogEvent sample_validator (sample_message msgPrepare)) \<in> new_effects c c' \<and>
     deliverable c (sample_message msgPrepare)"
proof -
  let ?m = "sample_message msgPrepare"
  let ?c = "(sample_at StatePreprepared (sample_round_pp 0 [] []) [])\<lparr>c_backlogs := [(sample_validator, [(?m, -1003)])]\<rparr>"
  have view: "backlogView ?m = Some (Some sample_view)" "checkMessage msgPrepare (Some sample_view) ?c = Some None"
    by (simp_all add: backlogView_def msgPrepare_def msgPreprepare_def msgRoundChange_def sample_subject_def checkMessage_def
        currentView_def View_Cmp_def sample_view_def)
  have "prque_Pop [(?m, -1003)] = Some ((?m, -1003), [])"
    by (simp add: prque_Pop_def heap_Pop_def heap_swap_def, subst heap_down.simps, simp)
  then have "processBacklog ?c = Some (?c\<lparr>c_backlogs := [(sample_validator, [])],
      c_out := [SendEvent (backlogEvent sample_validator ?m)]\<rparr>)" (is "_ = Some ?c'")
    using view by (simp add: processBacklog_def, subst processBacklog_loop.simps) simp
  moreover from this have "SendEvent (backlogEvent sample_validator ?m) \<in> new_effects ?c ?c'"
    by (simp add: new_effects_def)
  ultimately show ?thesis
    using processBacklog_keeps [of ?c ?c'] by (intro exI [of _ ?c] exI [of _ ?c']) auto
qed

end
