(* ===== verification/Poa_Snapshot.thy ===== *)
theory Poa_Snapshot
  imports BFT_Types "HOL-Library.AList"
begin

text \<open>
  \<^verbatim>\<open>consensus/poa\<close>: the proof-of-authority engine.  A snapshot holds the authorised signers, the
  recent ones, and the pending votes to change the set together with a cached tally.  Go maps are
  association lists with distinct keys; an iteration over a map is the argument \<open>iter\<close>.  The recovery of
  a signer is the argument \<open>rcv\<close>, and \<open>cache\<close> is what the signature cache answers.  A result of
  \<open>None\<close> is a panic: a header without a number, or an epoch length of zero.
\<close>

datatype poa_error =
    errUnknownBlock | errInvalidCheckpointBeneficiary | errInvalidVote | errInvalidCheckpointVote
  | errMissingVanity | errMissingSignature | errExtraSigners | errInvalidCheckpointSigners
  | errInvalidMixDigest | errInvalidUncleHash | errInvalidDifficulty | errInvalidVotingChain
  | errUnauthorized | ErrInvalidTimestamp | errWaitTransactions | poa_ErrFutureBlock
  | poa_ErrUnknownAncestor | poa_ErrMining | err_fork | err_uncles | err_db string | err_crypto string

record Vote =
  vt_Signer :: address
  vt_Block :: u64
  vt_Address :: address
  vt_Authorize :: bool

record Tally =
  ty_Authorize :: bool
  ty_Votes :: int

record Snapshot =
  sn_Epoch :: u64
  sn_Number :: u64
  sn_Hash :: hash
  sn_Signers :: "address list"
  sn_Recents :: "(u64 \<times> address) list"
  sn_Votes :: "Vote list"
  sn_Tally :: "(address \<times> Tally) list"

definition newSnapshot :: "u64 \<Rightarrow> u64 \<Rightarrow> hash \<Rightarrow> address list \<Rightarrow> Snapshot" where
  "newSnapshot epoch number hsh signers =
     \<lparr>sn_Epoch = epoch, sn_Number = number, sn_Hash = hsh, sn_Signers = remdups signers, sn_Recents = [],
      sn_Votes = [], sn_Tally = []\<rparr>"

section \<open>Signatures\<close>

definition nonceAuthVote :: u64 where
  "nonceAuthVote = 0xffffffffffffffff"

definition nonceDropVote :: u64 where
  "nonceDropVote = 0"

definition extraVanity :: nat where
  "extraVanity = 32"

definition extraSeal :: nat where
  "extraSeal = 65"

definition sigHash :: "keccak \<Rightarrow> Header \<Rightarrow> hash" where
  "sigHash kec header = rlpHash kec (VSlice False (map rv_any
     [rv_hash (ParentHash header), rv_hash (UncleHash header), rv_address (Coinbase header),
      rv_hash (Root header), rv_hash (TxHash header), rv_hash (ReceiptHash header),
      VByteArray (be_bytes 256 (Bloom header)), VBigIntPtr (Difficulty header), VBigIntPtr (Number header),
      VUint (GasLimit header), VUint (GasUsed header), VBigIntPtr (Time header),
      VBytes (take (length (Extra header) - extraSeal) (Extra header)), rv_hash (MixDigest header),
      VByteArray (be_bytes 8 (Nonce header))]))"

definition ecrecover ::
  "keccak \<Rightarrow> sig_recover \<Rightarrow> (hash \<Rightarrow> address option) \<Rightarrow> Header \<Rightarrow> (poa_error + address) option" where
  "ecrecover kec rcv cache header = do {
     hsh \<leftarrow> Header_Hash kec header;
     Some (case cache hsh of
        Some addr \<Rightarrow> Inr addr
      | None \<Rightarrow>
          if length (Extra header) < extraSeal then Inl errMissingSignature
          else map_sum err_crypto id
                 (rcv (sigHash kec header) (drop (length (Extra header) - extraSeal) (Extra header))))
   }"

section \<open>Votes\<close>

definition validVote :: "Snapshot \<Rightarrow> address \<Rightarrow> bool \<Rightarrow> bool" where
  "validVote s addr authorize =
     (let signer = addr \<in> set (sn_Signers s) in (signer \<and> \<not> authorize) \<or> (\<not> signer \<and> authorize))"

definition cast :: "address \<Rightarrow> bool \<Rightarrow> Snapshot \<Rightarrow> bool \<times> Snapshot" where
  "cast addr authorize s =
     (if \<not> validVote s addr authorize then (False, s)
      else (case map_of (sn_Tally s) addr of
          Some old \<Rightarrow> (True, s\<lparr>sn_Tally := AList.update addr (old\<lparr>ty_Votes := ty_Votes old + 1\<rparr>) (sn_Tally s)\<rparr>)
        | None \<Rightarrow> (True, s\<lparr>sn_Tally := AList.update addr \<lparr>ty_Authorize = authorize, ty_Votes = 1\<rparr> (sn_Tally s)\<rparr>)))"

definition uncast :: "address \<Rightarrow> bool \<Rightarrow> Snapshot \<Rightarrow> bool \<times> Snapshot" where
  "uncast addr authorize s =
     (case map_of (sn_Tally s) addr of
        None \<Rightarrow> (False, s)
      | Some tally \<Rightarrow>
          if ty_Authorize tally \<noteq> authorize then (False, s)
          else if ty_Votes tally > 1
            then (True, s\<lparr>sn_Tally := AList.update addr (tally\<lparr>ty_Votes := ty_Votes tally - 1\<rparr>) (sn_Tally s)\<rparr>)
          else (True, s\<lparr>sn_Tally := AList.delete addr (sn_Tally s)\<rparr>))"

section \<open>Applying headers\<close>

text \<open>Checkpoint: the votes are cleared; then the oldest recent signer is released.\<close>

definition limit :: "Snapshot \<Rightarrow> u64" where
  "limit s = of_nat (length (sn_Signers s) div 2 + 1)"

definition clearVotes :: "u64 \<Rightarrow> Snapshot \<Rightarrow> Snapshot" where
  "clearVotes number s =
     (if number mod sn_Epoch s = 0 then s\<lparr>sn_Votes := [], sn_Tally := []\<rparr> else s)"

definition dropRecent :: "u64 \<Rightarrow> Snapshot \<Rightarrow> Snapshot" where
  "dropRecent number s =
     (if number \<ge> limit s then s\<lparr>sn_Recents := AList.delete (number - limit s) (sn_Recents s)\<rparr> else s)"

text \<open>The previous vote of a signer on an account is discarded.\<close>

definition discardVote :: "address \<Rightarrow> address \<Rightarrow> Snapshot \<Rightarrow> Snapshot" where
  "discardVote signer addr s =
     (case find (\<lambda>v. vt_Signer v = signer \<and> vt_Address v = addr) (sn_Votes s) of
        None \<Rightarrow> s
      | Some v \<Rightarrow> (snd (uncast (vt_Address v) (vt_Authorize v) s))\<lparr>sn_Votes := remove1 v (sn_Votes s)\<rparr>)"

text \<open>The votes of a signer that lost its authorisation are discarded.\<close>

definition discardSigner :: "address \<Rightarrow> Snapshot \<Rightarrow> Snapshot" where
  "discardSigner addr s =
     (fold (\<lambda>v s. snd (uncast (vt_Address v) (vt_Authorize v) s))
        (filter (\<lambda>v. vt_Signer v = addr) (sn_Votes s)) s)
     \<lparr>sn_Votes := filter (\<lambda>v. vt_Signer v \<noteq> addr) (sn_Votes s)\<rparr>"

definition tallyUp :: "address \<Rightarrow> u64 \<Rightarrow> address \<Rightarrow> bool \<Rightarrow> Snapshot \<Rightarrow> Snapshot" where
  "tallyUp signer number addr authorize s =
     (case cast addr authorize s of
        (False, s) \<Rightarrow> s
      | (True, s) \<Rightarrow> s\<lparr>sn_Votes := sn_Votes s @
          [\<lparr>vt_Signer = signer, vt_Block = number, vt_Address = addr, vt_Authorize = authorize\<rparr>]\<rparr>)"

definition passVote :: "u64 \<Rightarrow> address \<Rightarrow> Snapshot \<Rightarrow> Snapshot" where
  "passVote number addr s =
     (case map_of (sn_Tally s) addr of
        None \<Rightarrow> s
      | Some tally \<Rightarrow>
          if ty_Votes tally > int (length (sn_Signers s) div 2) then
            let s = (if ty_Authorize tally then s\<lparr>sn_Signers := List.insert addr (sn_Signers s)\<rparr>
                     else discardSigner addr (dropRecent number (s\<lparr>sn_Signers := removeAll addr (sn_Signers s)\<rparr>)));
                s = s\<lparr>sn_Votes := filter (\<lambda>v. vt_Address v \<noteq> addr) (sn_Votes s)\<rparr>
            in s\<lparr>sn_Tally := AList.delete addr (sn_Tally s)\<rparr>
          else s)"

definition applyHeader ::
  "keccak \<Rightarrow> sig_recover \<Rightarrow> (hash \<Rightarrow> address option) \<Rightarrow> Header \<Rightarrow> Snapshot \<Rightarrow> (poa_error + Snapshot) option" where
  "applyHeader kec rcv cache header s = do {
     n \<leftarrow> Number header;
     let number = big_Uint64 n;
     _ \<leftarrow> (if sn_Epoch s = 0 then None else Some ());
     let s = dropRecent number (clearVotes number s);
     r \<leftarrow> ecrecover kec rcv cache header;
     Some (case r of
        Inl err \<Rightarrow> Inl err
      | Inr signer \<Rightarrow>
          if signer \<notin> set (sn_Signers s) then Inl errUnauthorized
          else if signer \<in> snd ` set (sn_Recents s) then Inl errUnauthorized
          else
            let s = s\<lparr>sn_Recents := AList.update number signer (sn_Recents s)\<rparr>;
                s = discardVote signer (Coinbase header) s
            in if Nonce header = nonceAuthVote then
                 Inr (passVote number (Coinbase header) (tallyUp signer number (Coinbase header) True s))
               else if Nonce header = nonceDropVote then
                 Inr (passVote number (Coinbase header) (tallyUp signer number (Coinbase header) False s))
               else Inl errInvalidVote)
   }"

fun applyHeaders ::
  "keccak \<Rightarrow> sig_recover \<Rightarrow> (hash \<Rightarrow> address option) \<Rightarrow> Header list \<Rightarrow> Snapshot \<Rightarrow> (poa_error + Snapshot) option" where
  "applyHeaders kec rcv cache [] s = Some (Inr s)"
| "applyHeaders kec rcv cache (h # hs) s = do {
     r \<leftarrow> applyHeader kec rcv cache h s;
     (case r of
        Inl err \<Rightarrow> Some (Inl err)
      | Inr s \<Rightarrow> applyHeaders kec rcv cache hs s)
   }"

fun contiguous :: "Header list \<Rightarrow> bool option" where
  "contiguous (h # h' # hs) = do {
     n' \<leftarrow> Number h';
     n \<leftarrow> Number h;
     if big_Uint64 n' \<noteq> big_Uint64 n + 1 then Some False else contiguous (h' # hs)
   }"
| "contiguous _ = Some True"

definition Snapshot_apply ::
  "keccak \<Rightarrow> sig_recover \<Rightarrow> (hash \<Rightarrow> address option) \<Rightarrow> Snapshot \<Rightarrow> Header list \<Rightarrow> (poa_error + Snapshot) option" where
  "Snapshot_apply kec rcv cache s headers =
     (if headers = [] then Some (Inr s)
      else do {
        ok \<leftarrow> contiguous headers;
        if \<not> ok then Some (Inl errInvalidVotingChain)
        else do {
          n \<leftarrow> Number (hd headers);
          if big_Uint64 n \<noteq> sn_Number s + 1 then Some (Inl errInvalidVotingChain)
          else do {
            r \<leftarrow> applyHeaders kec rcv cache headers s;
            (case r of
               Inl err \<Rightarrow> Some (Inl err)
             | Inr snap \<Rightarrow> do {
                 hsh \<leftarrow> Header_Hash kec (last headers);
                 Some (Inr (snap\<lparr>sn_Number := sn_Number snap + of_nat (length headers), sn_Hash := hsh\<rparr>))
               })
          }
        }
      })"

section \<open>Turns\<close>

text \<open>The exchange sort of \<^verbatim>\<open>signers\<close>: row \<open>i\<close> swaps in every smaller element behind it.\<close>

fun exchange :: "nat \<Rightarrow> nat list \<Rightarrow> address list \<Rightarrow> address list" where
  "exchange i [] xs = xs"
| "exchange i (j # js) xs = exchange i js (if xs ! i > xs ! j then xs[i := xs ! j, j := xs ! i] else xs)"

definition sortSigners :: "address list \<Rightarrow> address list" where
  "sortSigners xs = fold (\<lambda>i xs. exchange i [Suc i..<length xs] xs) [0..<length xs] xs"

definition signers :: "(address list \<Rightarrow> address list) \<Rightarrow> Snapshot \<Rightarrow> address list" where
  "signers iter s = sortSigners (iter (sn_Signers s))"

fun offset :: "address \<Rightarrow> address list \<Rightarrow> nat" where
  "offset signer [] = 0"
| "offset signer (a # as) = (if a = signer then 0 else Suc (offset signer as))"

definition signerIndex :: "(address list \<Rightarrow> address list) \<Rightarrow> address \<Rightarrow> Snapshot \<Rightarrow> u64" where
  "signerIndex iter signer s = of_nat (offset signer (signers iter s))"

text \<open>A snapshot without signers makes the division panic.\<close>

definition inturn :: "(address list \<Rightarrow> address list) \<Rightarrow> u64 \<Rightarrow> address \<Rightarrow> Snapshot \<Rightarrow> bool option" where
  "inturn iter number signer s =
     (if sn_Signers s = [] then None
      else Some (number mod of_nat (length (signers iter s)) = of_nat (offset signer (signers iter s))))"

definition diffMax :: int where
  "diffMax = 5"

definition CalcDifficulty :: "(address list \<Rightarrow> address list) \<Rightarrow> Snapshot \<Rightarrow> address \<Rightarrow> int" where
  "CalcDifficulty iter snap signer =
     (if length (sn_Signers snap) = 0 then 0
      else
        let soffset = signerIndex iter signer snap;
            noffset = (sn_Number snap + 1) mod of_nat (length (sn_Signers snap));
            index = (if noffset > soffset then noffset - soffset
                     else of_nat (length (sn_Signers snap)) - (soffset - noffset))
        in uint index * diffMax div int (length (sn_Signers snap)) + 1000)"

section \<open>Verification\<close>

text \<open>The checks of \<^verbatim>\<open>verifyHeader\<close> that need no snapshot; \<open>now\<close> is the time in seconds.\<close>

definition verifyHeader_static :: "keccak \<Rightarrow> u64 \<Rightarrow> int \<Rightarrow> Header \<Rightarrow> poa_error option option" where
  "verifyHeader_static kec epoch now header =
     (case Number header of
        None \<Rightarrow> Some (Some errUnknownBlock)
      | Some n \<Rightarrow> do {
          t \<leftarrow> Time header;
          if go_cmp t now > 0 then Some (Some poa_ErrFutureBlock)
          else if epoch = 0 then None
          else
            let checkpoint = big_Uint64 n mod epoch = 0;
                signersBytes = length (Extra header) - extraVanity - extraSeal
            in Some (
              if checkpoint \<and> Coinbase header \<noteq> 0 then Some errInvalidCheckpointBeneficiary
              else if Nonce header \<noteq> nonceAuthVote \<and> Nonce header \<noteq> nonceDropVote then Some errInvalidVote
              else if checkpoint \<and> Nonce header \<noteq> nonceDropVote then Some errInvalidCheckpointVote
              else if length (Extra header) < extraVanity then Some errMissingVanity
              else if length (Extra header) < extraVanity + extraSeal then Some errMissingSignature
              else if \<not> checkpoint \<and> signersBytes \<noteq> 0 then Some errExtraSigners
              else if checkpoint \<and> signersBytes mod AddressLength \<noteq> 0 then Some errInvalidCheckpointSigners
              else if MixDigest header \<noteq> 0 then Some errInvalidMixDigest
              else if UncleHash header \<noteq> CalcUncleHash kec [] then Some errInvalidUncleHash
              else None)
        })"

text \<open>The checks of \<^verbatim>\<open>verifySeal\<close> against the snapshot of the parent block.\<close>

definition checkSigner :: "Snapshot \<Rightarrow> u64 \<Rightarrow> address \<Rightarrow> poa_error option" where
  "checkSigner snap number signer =
     (if signer \<notin> set (sn_Signers snap) then Some errUnauthorized
      else if \<exists>(seen, recent) \<in> set (sn_Recents snap). recent = signer \<and> seen > number - limit snap
        then Some errUnauthorized
      else None)"

definition verifySeal ::
  "keccak \<Rightarrow> sig_recover \<Rightarrow> (hash \<Rightarrow> address option) \<Rightarrow> Snapshot \<Rightarrow> Header \<Rightarrow> poa_error option option" where
  "verifySeal kec rcv cache snap header = do {
     n \<leftarrow> Number header;
     if big_Uint64 n = 0 then Some (Some errUnknownBlock)
     else do {
       r \<leftarrow> ecrecover kec rcv cache header;
       (case r of
          Inl err \<Rightarrow> Some (Some err)
        | Inr signer \<Rightarrow>
            (case checkSigner snap (big_Uint64 n) signer of
               Some err \<Rightarrow> Some (Some err)
             | None \<Rightarrow> do {
                 d \<leftarrow> Difficulty header;
                 Some (if d \<le> 0 then Some errInvalidDifficulty else None)
               }))
     }
   }"

section \<open>The cached tally\<close>

text \<open>The tally that a recount of the votes gives, for the signers \<open>S\<close> and the votes \<open>M\<close>.\<close>

definition recount :: "address set \<Rightarrow> Vote multiset \<Rightarrow> address \<Rightarrow> Tally option" where
  "recount S M a =
     (let n = size {#v \<in># M. vt_Address v = a#}
      in if n = 0 then None else Some \<lparr>ty_Authorize = (a \<notin> S), ty_Votes = int n\<rparr>)"

lemma recount_add:
  "recount S (add_mset v M) a =
     (if vt_Address v = a then Some \<lparr>ty_Authorize = (a \<notin> S), ty_Votes = (case recount S M a of None \<Rightarrow> 1 | Some t \<Rightarrow> ty_Votes t + 1)\<rparr>
      else recount S M a)"
  by (auto simp: recount_def Let_def)

lemma recount_SomeE:
  assumes "recount S M a = Some t"
  obtains n where "t = \<lparr>ty_Authorize = (a \<notin> S), ty_Votes = n\<rparr>" "0 < n"
  using assms by (auto simp: recount_def Let_def simp del: size_eq_0_iff_empty split: if_split_asm)

lemma recount_filter: "recount S (filter_mset (\<lambda>v. vt_Address v \<noteq> b) M) a = (if a = b then None else recount S M a)"
proof -
  have "size {#v \<in># M. vt_Address v \<noteq> b \<and> vt_Address v = a#} = (if a = b then 0 else size {#v \<in># M. vt_Address v = a#})"
    by (auto intro!: arg_cong [where f = size] filter_mset_cong)
  then show ?thesis
    by (simp add: recount_def filter_filter_mset conj_commute)
qed

lemma recount_signers: "(a \<in> S \<longleftrightarrow> a \<in> S') \<Longrightarrow> recount S M a = recount S' M a"
  by (simp add: recount_def)

lemma cast_tally:
  assumes "map_of (sn_Tally s) = recount (set (sn_Signers s)) M" and "cast (vt_Address v) authorize s = (True, s')"
  shows "map_of (sn_Tally s') = recount (set (sn_Signers s)) (add_mset v M)"
    and "\<exists>T. s' = s\<lparr>sn_Tally := T\<rparr>" and "authorize = (vt_Address v \<notin> set (sn_Signers s))"
proof -
  show auth: "authorize = (vt_Address v \<notin> set (sn_Signers s))"
    using assms(2) by (auto simp: cast_def validVote_def Let_def split: if_splits)
  show "\<exists>T. s' = s\<lparr>sn_Tally := T\<rparr>"
    using assms(2) by (auto simp: cast_def split: if_splits option.splits)
  show "map_of (sn_Tally s') = recount (set (sn_Signers s)) (add_mset v M)"
  proof (cases "recount (set (sn_Signers s)) M (vt_Address v)")
    case None
    then show ?thesis
      using assms auth by (auto simp: cast_def fun_eq_iff recount_add update_conv' split: if_splits)
  next
    case (Some t)
    then obtain n where "t = \<lparr>ty_Authorize = authorize, ty_Votes = n\<rparr>"
      using auth by (auto elim: recount_SomeE)
    then show ?thesis
      using assms auth Some by (auto simp: cast_def fun_eq_iff recount_add update_conv' split: if_splits)
  qed
qed

lemma uncast_tally:
  assumes "map_of (sn_Tally s) = recount S (add_mset v M)" and "vt_Authorize v = (vt_Address v \<notin> S)"
  shows "map_of (sn_Tally (snd (uncast (vt_Address v) (vt_Authorize v) s))) = recount S M"
    and "\<exists>T. snd (uncast (vt_Address v) (vt_Authorize v) s) = s\<lparr>sn_Tally := T\<rparr>"
proof -
  have "map_of (sn_Tally s) (vt_Address v) = Some \<lparr>ty_Authorize = (vt_Address v \<notin> S),
      ty_Votes = (case recount S M (vt_Address v) of None \<Rightarrow> 1 | Some t \<Rightarrow> ty_Votes t + 1)\<rparr>"
    by (simp add: assms(1) recount_add)
  moreover have "recount S M (vt_Address v) = None \<or> (\<exists>n > 0. recount S M (vt_Address v) =
      Some \<lparr>ty_Authorize = (vt_Address v \<notin> S), ty_Votes = n\<rparr>)"
    by (cases "recount S M (vt_Address v)") (auto elim: recount_SomeE)
  ultimately show "map_of (sn_Tally (snd (uncast (vt_Address v) (vt_Authorize v) s))) = recount S M"
    "\<exists>T. snd (uncast (vt_Address v) (vt_Authorize v) s) = s\<lparr>sn_Tally := T\<rparr>"
    using assms by (auto simp: uncast_def fun_eq_iff update_conv' delete_conv' recount_add)
qed

section \<open>The invariant of a snapshot\<close>

definition votes_ok :: "address set \<Rightarrow> Vote list \<Rightarrow> bool" where
  "votes_ok S vs \<longleftrightarrow> distinct (map (\<lambda>v. (vt_Signer v, vt_Address v)) vs) \<and>
     (\<forall>v \<in> set vs. vt_Signer v \<in> S \<and> vt_Authorize v = (vt_Address v \<notin> S))"

definition snap_inv :: "Snapshot \<Rightarrow> bool" where
  "snap_inv s \<longleftrightarrow> distinct (sn_Signers s) \<and> votes_ok (set (sn_Signers s)) (sn_Votes s) \<and>
     map_of (sn_Tally s) = recount (set (sn_Signers s)) (mset (sn_Votes s))"

lemma recount_empty [simp]: "recount S {#} = Map.empty"
  by (auto simp: recount_def)

lemma newSnapshot_inv: "snap_inv (newSnapshot epoch number hsh ss)"
  by (simp add: snap_inv_def newSnapshot_def votes_ok_def)

lemma votes_ok_filter: "votes_ok S vs \<Longrightarrow> votes_ok S (filter P vs)"
  by (auto simp: votes_ok_def distinct_map_filter)

lemma clearVotes_fields [simp]:
  "sn_Signers (clearVotes n s) = sn_Signers s" "sn_Recents (clearVotes n s) = sn_Recents s"
  "sn_Epoch (clearVotes n s) = sn_Epoch s" "sn_Number (clearVotes n s) = sn_Number s"
  by (simp_all add: clearVotes_def)

lemma dropRecent_fields [simp]:
  "sn_Signers (dropRecent n s) = sn_Signers s" "sn_Votes (dropRecent n s) = sn_Votes s"
  "sn_Tally (dropRecent n s) = sn_Tally s" "sn_Epoch (dropRecent n s) = sn_Epoch s"
  "sn_Number (dropRecent n s) = sn_Number s"
  by (simp_all add: dropRecent_def)

lemma clearVotes_inv: "snap_inv s \<Longrightarrow> snap_inv (clearVotes n s)"
  by (auto simp: snap_inv_def clearVotes_def votes_ok_def)

lemma dropRecent_inv [simp]: "snap_inv (dropRecent n s) = snap_inv s"
  by (simp add: snap_inv_def)

lemma recents_inv [simp]: "snap_inv (s\<lparr>sn_Recents := r\<rparr>) = snap_inv s"
  by (simp add: snap_inv_def)

lemma uncast_fields [simp]:
  "sn_Signers (snd (uncast a b s)) = sn_Signers s" "sn_Votes (snd (uncast a b s)) = sn_Votes s"
  "sn_Recents (snd (uncast a b s)) = sn_Recents s" "sn_Epoch (snd (uncast a b s)) = sn_Epoch s"
  "sn_Number (snd (uncast a b s)) = sn_Number s"
  by (auto simp: uncast_def split: option.split)

lemma discardVote_fields [simp]:
  "sn_Signers (discardVote a b s) = sn_Signers s" "sn_Recents (discardVote a b s) = sn_Recents s"
  "sn_Epoch (discardVote a b s) = sn_Epoch s" "sn_Number (discardVote a b s) = sn_Number s"
  by (auto simp: discardVote_def split: option.split)

lemma discardVote_inv:
  assumes "snap_inv s"
  shows "snap_inv (discardVote signer addr s)"
    and "v \<in> set (sn_Votes (discardVote signer addr s)) \<Longrightarrow> \<not> (vt_Signer v = signer \<and> vt_Address v = addr)"
    and "set (sn_Votes (discardVote signer addr s)) \<subseteq> set (sn_Votes s)"
proof -
  let ?P = "\<lambda>v. vt_Signer v = signer \<and> vt_Address v = addr" and ?S = "set (sn_Signers s)"
  have *: "snap_inv (discardVote signer addr s) \<and> (\<forall>v \<in> set (sn_Votes (discardVote signer addr s)). \<not> ?P v) \<and>
      set (sn_Votes (discardVote signer addr s)) \<subseteq> set (sn_Votes s)"
  proof (cases "find ?P (sn_Votes s)")
    case None
    then have "discardVote signer addr s = s"
      by (simp add: discardVote_def)
    then show ?thesis
      using assms None by (auto simp: find_None_iff)
  next
    case (Some w)
    then have w: "w \<in> set (sn_Votes s)" "?P w"
      by (auto simp: find_Some_iff)
    have ok: "votes_ok ?S (sn_Votes s)" and tally: "map_of (sn_Tally s) = recount ?S (mset (sn_Votes s))"
      using assms by (simp_all add: snap_inv_def)
    have dist: "distinct (sn_Votes s)"
      using ok by (auto simp: votes_ok_def distinct_map)
    have "v = w" if "v \<in> set (sn_Votes s)" "?P v" for v
      using ok w that by (auto simp: votes_ok_def distinct_map dest: inj_onD)
    then have none: "\<forall>v \<in> set (remove1 w (sn_Votes s)). \<not> ?P v"
      using dist by auto
    have "votes_ok ?S (remove1 w (sn_Votes s))"
      using ok dist votes_ok_filter [of ?S "sn_Votes s" "\<lambda>v. v \<noteq> w"] by (simp add: distinct_remove1_removeAll removeAll_filter_not_eq)
        (metis (mono_tags, lifting) filter_cong)
    moreover have "map_of (sn_Tally (snd (uncast (vt_Address w) (vt_Authorize w) s))) = recount ?S (mset (remove1 w (sn_Votes s)))"
    proof (rule uncast_tally)
      show "map_of (sn_Tally s) = recount ?S (add_mset w (mset (remove1 w (sn_Votes s))))"
        using tally w(1) by simp
      show "vt_Authorize w = (vt_Address w \<notin> ?S)"
        using ok w(1) by (simp add: votes_ok_def)
    qed
    ultimately show ?thesis
      using Some none assms set_remove1_subset [of w "sn_Votes s"] by (auto simp: discardVote_def snap_inv_def)
  qed
  then show "snap_inv (discardVote signer addr s)" "v \<in> set (sn_Votes (discardVote signer addr s)) \<Longrightarrow> \<not> ?P v"
    "set (sn_Votes (discardVote signer addr s)) \<subseteq> set (sn_Votes s)"
    by blast+
qed

lemma tallyUp_fields [simp]:
  "sn_Signers (tallyUp a n b c s) = sn_Signers s" "sn_Recents (tallyUp a n b c s) = sn_Recents s"
  "sn_Epoch (tallyUp a n b c s) = sn_Epoch s" "sn_Number (tallyUp a n b c s) = sn_Number s"
  by (auto simp: tallyUp_def cast_def split: option.split prod.split bool.split)

lemma tallyUp_inv:
  assumes "snap_inv s" and "signer \<in> set (sn_Signers s)"
    and "\<And>v. v \<in> set (sn_Votes s) \<Longrightarrow> \<not> (vt_Signer v = signer \<and> vt_Address v = addr)"
  shows "snap_inv (tallyUp signer number addr authorize s)"
proof -
  obtain ok s' where cast: "cast addr authorize s = (ok, s')"
    by fastforce
  let ?v = "\<lparr>vt_Signer = signer, vt_Block = number, vt_Address = addr, vt_Authorize = authorize\<rparr>"
  show ?thesis
  proof (cases ok)
    case True
    then have "cast (vt_Address ?v) authorize s = (True, s')"
      using cast by simp
    note * = cast_tally [OF _ this, of "mset (sn_Votes s)"]
    have tally: "map_of (sn_Tally s') = recount (set (sn_Signers s)) (add_mset ?v (mset (sn_Votes s)))"
      and auth: "authorize = (addr \<notin> set (sn_Signers s))"
      using *(1,3) assms(1) by (simp_all add: snap_inv_def)
    obtain T where s': "s' = s\<lparr>sn_Tally := T\<rparr>"
      using *(2) assms(1) by (auto simp: snap_inv_def)
    have "votes_ok (set (sn_Signers s)) (sn_Votes s @ [?v])"
      using assms auth by (auto simp: snap_inv_def votes_ok_def)
    then show ?thesis
      using assms(1) True cast tally by (simp add: tallyUp_def snap_inv_def s')
  next
    case False
    then show ?thesis
      using cast assms(1) by (auto simp: tallyUp_def cast_def split: if_splits option.splits)
  qed
qed

lemma fold_uncast:
  assumes "map_of (sn_Tally s) = recount S (mset ws + M)" and "\<forall>v \<in> set ws. vt_Authorize v = (vt_Address v \<notin> S)"
  shows "map_of (sn_Tally (fold (\<lambda>v s. snd (uncast (vt_Address v) (vt_Authorize v) s)) ws s)) = recount S M"
    and "\<exists>T. fold (\<lambda>v s. snd (uncast (vt_Address v) (vt_Authorize v) s)) ws s = s\<lparr>sn_Tally := T\<rparr>"
  using assms
proof (induction ws arbitrary: s)
  case Nil
  {
    case 1
    then show ?case by simp
  next
    case 2
    then show ?case by (metis Snapshot.surjective Snapshot.update_convs(7) fold_simps(1))
  }
next
  case (Cons w ws)
  {
    case 1
    then show ?case
      using Cons.IH(1) [OF uncast_tally(1)] by simp
  next
    case 2
    then show ?case
      using Cons.IH(2) [OF uncast_tally(1), of s w] uncast_tally(2) [of s S w "mset ws + M"] by auto
  }
qed

lemma discardSigner_tally:
  assumes "map_of (sn_Tally s) = recount S (mset (sn_Votes s))" and "\<forall>v \<in> set (sn_Votes s). vt_Authorize v = (vt_Address v \<notin> S)"
  obtains T where "discardSigner a s = s\<lparr>sn_Tally := T, sn_Votes := filter (\<lambda>v. vt_Signer v \<noteq> a) (sn_Votes s)\<rparr>"
    "map_of T = recount S (mset (filter (\<lambda>v. vt_Signer v \<noteq> a) (sn_Votes s)))"
proof -
  let ?ws = "filter (\<lambda>v. vt_Signer v = a) (sn_Votes s)" and ?rs = "filter (\<lambda>v. vt_Signer v \<noteq> a) (sn_Votes s)"
  have "mset (sn_Votes s) = mset ?ws + mset ?rs"
    by (simp add: multiset_partition)
  then have "map_of (sn_Tally s) = recount S (mset ?ws + mset ?rs)"
    using assms(1) by simp
  from fold_uncast [OF this] assms(2) show thesis
    using that by (fastforce simp: discardSigner_def)
qed

text \<open>The effect of a vote on the set of signers: nothing, or the change that a majority asks for.\<close>

lemma passVote_cases:
  assumes "snap_inv s"
  obtains (idle) "passVote number addr s = s"
    "\<not> length (sn_Signers s) div 2 < size {#v \<in># mset (sn_Votes s). vt_Address v = addr#}"
  | (add) T where "length (sn_Signers s) div 2 < size {#v \<in># mset (sn_Votes s). vt_Address v = addr#}"
    "addr \<notin> set (sn_Signers s)"
    "passVote number addr s = s\<lparr>sn_Signers := addr # sn_Signers s, sn_Votes := filter (\<lambda>v. vt_Address v \<noteq> addr) (sn_Votes s), sn_Tally := T\<rparr>"
    "map_of T = recount (set (sn_Signers s)) (mset (filter (\<lambda>v. vt_Address v \<noteq> addr) (sn_Votes s)))"
  | (drop) T where "length (sn_Signers s) div 2 < size {#v \<in># mset (sn_Votes s). vt_Address v = addr#}"
    "addr \<in> set (sn_Signers s)"
    "passVote number addr s = (dropRecent number (s\<lparr>sn_Signers := removeAll addr (sn_Signers s)\<rparr>))
       \<lparr>sn_Votes := filter (\<lambda>v. vt_Signer v \<noteq> addr \<and> vt_Address v \<noteq> addr) (sn_Votes s), sn_Tally := T\<rparr>"
    "map_of T = recount (set (sn_Signers s)) (mset (filter (\<lambda>v. vt_Signer v \<noteq> addr \<and> vt_Address v \<noteq> addr) (sn_Votes s)))"
proof (cases "length (sn_Signers s) div 2 < size {#v \<in># mset (sn_Votes s). vt_Address v = addr#}")
  case False
  let ?n = "size {#v \<in># mset (sn_Votes s). vt_Address v = addr#}"
  have "map_of (sn_Tally s) addr = recount (set (sn_Signers s)) (mset (sn_Votes s)) addr"
    using assms by (simp add: snap_inv_def)
  then have "passVote number addr s = s"
    using False by (simp add: passVote_def recount_def Let_def)
  then show thesis
    using False by (rule idle)
next
  case True
  let ?S = "set (sn_Signers s)"
  have inv: "map_of (sn_Tally s) = recount ?S (mset (sn_Votes s))" "votes_ok ?S (sn_Votes s)"
    using assms by (simp_all add: snap_inv_def)
  have tally: "map_of (sn_Tally s) addr = Some \<lparr>ty_Authorize = (addr \<notin> ?S),
      ty_Votes = int (size {#v \<in># mset (sn_Votes s). vt_Address v = addr#})\<rparr>"
    using True by (simp add: inv(1) recount_def Let_def del: size_eq_0_iff_empty)
  have del: "map_of (AList.delete addr T) = recount ?S (mset (filter (\<lambda>v. vt_Address v \<noteq> addr) vs))"
    if "map_of T = recount ?S (mset vs)" for T vs
    using that by (auto simp: fun_eq_iff delete_conv' recount_filter)
  show thesis
  proof (cases "addr \<in> ?S")
    case False
    then have "passVote number addr s = s\<lparr>sn_Signers := addr # sn_Signers s,
        sn_Votes := filter (\<lambda>v. vt_Address v \<noteq> addr) (sn_Votes s), sn_Tally := AList.delete addr (sn_Tally s)\<rparr>"
      using True tally by (simp add: passVote_def Let_def List.insert_def del: size_eq_0_iff_empty)
    then show thesis
      using add True False del [OF inv(1)] by blast
  next
    case mem: True
    let ?s = "dropRecent number (s\<lparr>sn_Signers := removeAll addr (sn_Signers s)\<rparr>)"
    obtain T where T: "discardSigner addr ?s = ?s\<lparr>sn_Tally := T, sn_Votes := filter (\<lambda>v. vt_Signer v \<noteq> addr) (sn_Votes s)\<rparr>"
      "map_of T = recount ?S (mset (filter (\<lambda>v. vt_Signer v \<noteq> addr) (sn_Votes s)))"
      using discardSigner_tally [of ?s ?S addr] inv by (auto simp: votes_ok_def)
    have "passVote number addr s = ?s\<lparr>sn_Votes := filter (\<lambda>v. vt_Signer v \<noteq> addr \<and> vt_Address v \<noteq> addr) (sn_Votes s),
        sn_Tally := AList.delete addr T\<rparr>"
      using True tally mem T(1) by (simp add: passVote_def Let_def del: size_eq_0_iff_empty)
    then show thesis
      using drop True mem del [OF T(2)] by simp
  qed
qed

lemma passVote_inv:
  assumes "snap_inv s"
  shows "snap_inv (passVote number addr s)"
  using assms
proof (cases rule: passVote_cases [where number = number and addr = addr])
  case (add T)
  have "recount (set (sn_Signers s)) (mset (filter (\<lambda>v. vt_Address v \<noteq> addr) (sn_Votes s))) a =
      recount (insert addr (set (sn_Signers s))) (mset (filter (\<lambda>v. vt_Address v \<noteq> addr) (sn_Votes s))) a" for a
    by (cases "a = addr") (auto simp: recount_filter intro: recount_signers)
  moreover have "votes_ok (insert addr (set (sn_Signers s))) (filter (\<lambda>v. vt_Address v \<noteq> addr) (sn_Votes s))"
    using assms by (auto simp: snap_inv_def votes_ok_def distinct_map_filter)
  ultimately show ?thesis
    using assms add(2,4) by (auto simp: snap_inv_def add(3))
next
  case (drop T)
  let ?S = "set (sn_Signers s)" and ?vs = "filter (\<lambda>v. vt_Signer v \<noteq> addr \<and> vt_Address v \<noteq> addr) (sn_Votes s)"
  have vs: "?vs = filter (\<lambda>v. vt_Address v \<noteq> addr) (filter (\<lambda>v. vt_Signer v \<noteq> addr) (sn_Votes s))"
    by simp
  have "recount ?S (mset ?vs) a = recount (?S - {addr}) (mset ?vs) a" for a
    unfolding vs mset_filter by (cases "a = addr") (auto simp: recount_filter intro: recount_signers)
  moreover have "votes_ok (?S - {addr}) ?vs"
    using assms by (auto simp: snap_inv_def votes_ok_def distinct_map_filter)
  ultimately show ?thesis
    using assms drop(4) by (auto simp: snap_inv_def drop(3) distinct_removeAll)
qed (simp add: assms)

lemma applyHeader_cases:
  assumes "applyHeader kec rcv cache h s = Some (Inr s')"
  obtains n signer authorize s1 s2 where "Number h = Some n" "sn_Epoch s \<noteq> 0"
    "s1 = dropRecent (big_Uint64 n) (clearVotes (big_Uint64 n) s)" "ecrecover kec rcv cache h = Some (Inr signer)"
    "signer \<in> set (sn_Signers s)" "signer \<notin> snd ` set (sn_Recents s1)"
    "s2 = discardVote signer (Coinbase h) (s1\<lparr>sn_Recents := AList.update (big_Uint64 n) signer (sn_Recents s1)\<rparr>)"
    "Nonce h = (if authorize then nonceAuthVote else nonceDropVote)"
    "s' = passVote (big_Uint64 n) (Coinbase h) (tallyUp signer (big_Uint64 n) (Coinbase h) authorize s2)"
proof -
  obtain n signer where n: "Number h = Some n" "sn_Epoch s \<noteq> 0" "ecrecover kec rcv cache h = Some (Inr signer)"
    using assms by (auto simp: applyHeader_def Let_def split: op_splits)
  define s1 where "s1 = dropRecent (big_Uint64 n) (clearVotes (big_Uint64 n) s)"
  define s2 where "s2 = discardVote signer (Coinbase h) (s1\<lparr>sn_Recents := AList.update (big_Uint64 n) signer (sn_Recents s1)\<rparr>)"
  have *: "signer \<in> set (sn_Signers s)" "signer \<notin> snd ` set (sn_Recents s1)"
    "\<exists>authorize. Nonce h = (if authorize then nonceAuthVote else nonceDropVote) \<and>
       s' = passVote (big_Uint64 n) (Coinbase h) (tallyUp signer (big_Uint64 n) (Coinbase h) authorize s2)"
    using assms n by (auto simp: applyHeader_def Let_def s1_def s2_def split: if_split_asm)
  then show thesis
    using that [OF n(1,2) s1_def n(3) *(1,2) s2_def] by blast
qed

lemma applyHeader_voted:
  assumes "applyHeader kec rcv cache h s = Some (Inr s')" and "snap_inv s"
  obtains number signer s3 where "ecrecover kec rcv cache h = Some (Inr signer)" "snap_inv s3" "sn_Signers s3 = sn_Signers s"
    "\<And>v. v \<in> set (sn_Votes s3) \<Longrightarrow> v \<in> set (sn_Votes s) \<or> vt_Signer v = signer" "s' = passVote number (Coinbase h) s3"
  using assms(1)
proof (cases rule: applyHeader_cases)
  case (1 n signer authorize s1 s2)
  let ?s3 = "tallyUp signer (big_Uint64 n) (Coinbase h) authorize s2"
  have "snap_inv (s1\<lparr>sn_Recents := AList.update (big_Uint64 n) signer (sn_Recents s1)\<rparr>)"
    using assms(2) by (simp add: 1(3) clearVotes_inv)
  note s2 = discardVote_inv [OF this, where signer = signer and addr = "Coinbase h", folded 1(7)]
  have "snap_inv ?s3"
    by (rule tallyUp_inv [OF s2(1)]) (use s2(2) 1(3,5,7) in auto)
  moreover have "sn_Signers ?s3 = sn_Signers s"
    by (simp add: 1(3,7))
  moreover have "v \<in> set (sn_Votes s) \<or> vt_Signer v = signer" if "v \<in> set (sn_Votes ?s3)" for v
  proof -
    have "set (sn_Votes s2) \<subseteq> set (sn_Votes s)"
      using s2(3) by (auto simp: 1(3) clearVotes_def split: if_splits)
    moreover have "set (sn_Votes ?s3) \<subseteq> insert \<lparr>vt_Signer = signer, vt_Block = big_Uint64 n, vt_Address = Coinbase h,
        vt_Authorize = authorize\<rparr> (set (sn_Votes s2))"
      by (auto simp: tallyUp_def cast_def split: option.splits prod.splits bool.splits if_splits)
    ultimately show ?thesis
      using that by auto
  qed
  ultimately show thesis
    by (rule that [OF 1(4) _ _ _ 1(9)])
qed

lemma applyHeader_inv:
  assumes "applyHeader kec rcv cache h s = Some (Inr s')" and "snap_inv s"
  shows "snap_inv s'"
  using assms by (rule applyHeader_voted) (simp add: passVote_inv)

text \<open>The signers that have a pending vote on an account.\<close>

lemma voters:
  assumes "snap_inv s"
  shows "card {vt_Signer v | v. v \<in> set (sn_Votes s) \<and> vt_Address v = a} = size {#v \<in># mset (sn_Votes s). vt_Address v = a#}"
    and "{vt_Signer v | v. v \<in> set (sn_Votes s) \<and> vt_Address v = a} \<subseteq> set (sn_Signers s)"
proof -
  let ?vs = "filter (\<lambda>v. vt_Address v = a) (sn_Votes s)"
  have ok: "votes_ok (set (sn_Signers s)) (sn_Votes s)"
    using assms by (simp add: snap_inv_def)
  then have "distinct (map (\<lambda>v. (vt_Signer v, vt_Address v)) ?vs)"
    by (simp add: votes_ok_def distinct_map_filter)
  then have "distinct (map vt_Signer ?vs)"
    by (auto simp: distinct_map inj_on_def)
  moreover have "{vt_Signer v | v. v \<in> set (sn_Votes s) \<and> vt_Address v = a} = set (map vt_Signer ?vs)"
    by auto
  ultimately show "card {vt_Signer v | v. v \<in> set (sn_Votes s) \<and> vt_Address v = a} = size {#v \<in># mset (sn_Votes s). vt_Address v = a#}"
    using distinct_card [of "map vt_Signer ?vs"] by (simp flip: mset_filter)
  show "{vt_Signer v | v. v \<in> set (sn_Votes s) \<and> vt_Address v = a} \<subseteq> set (sn_Signers s)"
    using ok by (auto simp: votes_ok_def)
qed

lemma passVote_change:
  assumes "snap_inv s" and "a \<in> set (sn_Signers s) \<longleftrightarrow> a \<notin> set (sn_Signers (passVote number addr s))"
  shows "a = addr" and "length (sn_Signers s) div 2 < size {#v \<in># mset (sn_Votes s). vt_Address v = a#}"
proof -
  have "a = addr \<and> length (sn_Signers s) div 2 < size {#v \<in># mset (sn_Votes s). vt_Address v = a#}"
    using assms(1)
  proof (cases rule: passVote_cases [where number = number and addr = addr])
    case idle
    then show ?thesis
      using assms(2) by simp
  next
    case (add T)
    then show ?thesis
      using assms(2) by (auto simp del: size_eq_0_iff_empty)
  next
    case (drop T)
    then show ?thesis
      using assms(2) by (auto simp del: size_eq_0_iff_empty)
  qed
  then show "a = addr" "length (sn_Signers s) div 2 < size {#v \<in># mset (sn_Votes s). vt_Address v = a#}"
    by blast+
qed

section \<open>The sorted list of signers\<close>

lemma length_exchange [simp]: "length (exchange i js xs) = length xs"
  by (induction i js xs rule: exchange.induct) auto

lemma exchange_props:
  assumes "i < length xs" and "distinct js" and "\<forall>j \<in> set js. i < j \<and> j < length xs"
  shows "mset (exchange i js xs) = mset xs" and "exchange i js xs ! i \<le> xs ! i"
    and "k \<noteq> i \<Longrightarrow> k \<notin> set js \<Longrightarrow> exchange i js xs ! k = xs ! k"
    and "j \<in> set js \<Longrightarrow> exchange i js xs ! i \<le> exchange i js xs ! j"
    and "(\<And>m. i \<le> m \<Longrightarrow> m < length xs \<Longrightarrow> c \<le> xs ! m) \<Longrightarrow> i \<le> m \<Longrightarrow> m < length xs \<Longrightarrow> c \<le> exchange i js xs ! m"
proof -
  have "mset (exchange i js xs) = mset xs \<and> exchange i js xs ! i \<le> xs ! i \<and>
      (\<forall>k. k \<noteq> i \<longrightarrow> k \<notin> set js \<longrightarrow> exchange i js xs ! k = xs ! k) \<and>
      (\<forall>j \<in> set js. exchange i js xs ! i \<le> exchange i js xs ! j) \<and>
      (\<forall>c. (\<forall>m. i \<le> m \<and> m < length xs \<longrightarrow> c \<le> xs ! m) \<longrightarrow>
         (\<forall>m. i \<le> m \<and> m < length xs \<longrightarrow> c \<le> exchange i js xs ! m))"
    using assms
  proof (induction i js xs rule: exchange.induct)
    case (2 i j js xs)
    let ?ys = "if xs ! i > xs ! j then xs[i := xs ! j, j := xs ! i] else xs"
    have ij: "i < j" "j < length xs" "i < length xs"
      using 2(2-4) by auto
    have ys: "length ?ys = length xs" "mset ?ys = mset xs" "?ys ! i \<le> xs ! i" "?ys ! i \<le> ?ys ! j"
      "\<And>k. k \<noteq> i \<Longrightarrow> k \<noteq> j \<Longrightarrow> ?ys ! k = xs ! k"
      using ij by (auto simp: mset_swap)
    have low: "(\<forall>m. i \<le> m \<and> m < length xs \<longrightarrow> c \<le> xs ! m) \<Longrightarrow> (\<forall>m. i \<le> m \<and> m < length xs \<longrightarrow> c \<le> ?ys ! m)" for c
      using ij by (auto simp: nth_list_update)
    note IH = 2(1) [unfolded ys(1)]
    have IH': "mset (exchange i js ?ys) = mset ?ys" "exchange i js ?ys ! i \<le> ?ys ! i"
      "\<forall>k. k \<noteq> i \<longrightarrow> k \<notin> set js \<longrightarrow> exchange i js ?ys ! k = ?ys ! k"
      "\<forall>j \<in> set js. exchange i js ?ys ! i \<le> exchange i js ?ys ! j"
      "\<forall>c. (\<forall>m. i \<le> m \<and> m < length xs \<longrightarrow> c \<le> ?ys ! m) \<longrightarrow>
         (\<forall>m. i \<le> m \<and> m < length xs \<longrightarrow> c \<le> exchange i js ?ys ! m)"
      using IH 2(2-4) by auto
    have j: "exchange i js ?ys ! j = ?ys ! j"
      using IH'(3) 2(3) ij by auto
    show ?case
      unfolding exchange.simps(2)
      using IH' ys low j order_trans [OF IH'(2) ys(3)] order_trans [OF IH'(2) ys(4)] by auto
  qed simp
  then show "mset (exchange i js xs) = mset xs" "exchange i js xs ! i \<le> xs ! i"
    "k \<noteq> i \<Longrightarrow> k \<notin> set js \<Longrightarrow> exchange i js xs ! k = xs ! k"
    "j \<in> set js \<Longrightarrow> exchange i js xs ! i \<le> exchange i js xs ! j"
    "(\<And>m. i \<le> m \<Longrightarrow> m < length xs \<Longrightarrow> c \<le> xs ! m) \<Longrightarrow> i \<le> m \<Longrightarrow> m < length xs \<Longrightarrow> c \<le> exchange i js xs ! m"
    by blast+
qed

lemma sortSigners_rows:
  assumes "m \<le> length xs"
  shows "length (fold (\<lambda>i xs. exchange i [Suc i..<length xs] xs) [0..<m] xs) = length xs \<and>
    mset (fold (\<lambda>i xs. exchange i [Suc i..<length xs] xs) [0..<m] xs) = mset xs \<and>
    (\<forall>k l. k < m \<and> k < l \<and> l < length xs \<longrightarrow>
       fold (\<lambda>i xs. exchange i [Suc i..<length xs] xs) [0..<m] xs ! k \<le> fold (\<lambda>i xs. exchange i [Suc i..<length xs] xs) [0..<m] xs ! l)"
  using assms
proof (induction m)
  case (Suc m)
  define ys where "ys = fold (\<lambda>i xs. exchange i [Suc i..<length xs] xs) [0..<m] xs"
  have ys: "length ys = length xs" "mset ys = mset xs" "\<And>k l. k < m \<Longrightarrow> k < l \<Longrightarrow> l < length xs \<Longrightarrow> ys ! k \<le> ys ! l"
    using Suc by (auto simp: ys_def)
  have m: "m < length ys"
    using Suc.prems ys(1) by simp
  let ?js = "[Suc m..<length ys]" and ?zs = "exchange m [Suc m..<length ys] ys"
  have js: "distinct ?js" "\<forall>j \<in> set ?js. m < j \<and> j < length ys"
    by auto
  note ex = exchange_props [OF m js]
  have "?zs ! k \<le> ?zs ! l" if "k < Suc m" "k < l" "l < length xs" for k l
  proof (cases "k = m")
    case True
    then show ?thesis
      using ex(4) [of l] that ys(1) by auto
  next
    case False
    then have k: "k < m" "?zs ! k = ys ! k"
      using that ex(3) [of k] by auto
    show ?thesis
    proof (cases "l < m")
      case True
      then show ?thesis
        using ex(3) [of l] k ys(3) that by auto
    next
      case False
      then show ?thesis
        using ex(5) [of "ys ! k" l] k ys(1,3) that by auto
    qed
  qed
  then show ?case
    using ex(1) ys(1,2) by (simp flip: ys_def)
qed simp

lemma sortSigners_sort: "sortSigners xs = sort xs"
proof -
  have "mset (sortSigners xs) = mset xs" "sorted (sortSigners xs)"
    using sortSigners_rows [of "length xs" xs] by (auto simp: sortSigners_def sorted_iff_nth_mono_less)
  then show ?thesis
    by (metis properties_for_sort)
qed

lemma signers_sorted:
  assumes "mset (iter (sn_Signers s)) = mset (sn_Signers s)" and "distinct (sn_Signers s)"
  shows "signers iter s = sorted_list_of_set (set (sn_Signers s))"
proof -
  have "sort (iter (sn_Signers s)) = sort (sn_Signers s)"
    using assms(1) by (simp add: properties_for_sort sort_key_id_if_sorted)
  then show ?thesis
    using assms(2) by (simp add: signers_def sortSigners_sort sorted_list_of_set_sort_remdups distinct_remdups_id)
qed

section \<open>Chains of snapshots\<close>

inductive poa_reachable :: "keccak \<Rightarrow> sig_recover \<Rightarrow> Snapshot \<Rightarrow> bool" for kec rcv where
  genesis: "poa_reachable kec rcv (newSnapshot epoch number hsh ss)"
| extend: "poa_reachable kec rcv s \<Longrightarrow> Snapshot_apply kec rcv cache s hs = Some (Inr s') \<Longrightarrow> poa_reachable kec rcv s'"

lemma applyHeaders_inv:
  "applyHeaders kec rcv cache hs s = Some (Inr s') \<Longrightarrow> snap_inv s \<Longrightarrow> snap_inv s'"
  by (induction kec rcv cache hs s rule: applyHeaders.induct) (auto split: op_splits intro: applyHeader_inv)

lemma Snapshot_apply_cases:
  assumes "Snapshot_apply kec rcv cache s hs = Some (Inr s')"
  obtains "hs = []" "s' = s"
  | n hsh snap where "hs \<noteq> []" "contiguous hs = Some True" "Number (hd hs) = Some n" "big_Uint64 n = sn_Number s + 1"
    "applyHeaders kec rcv cache hs s = Some (Inr snap)" "Header_Hash kec (last hs) = Some hsh"
    "s' = snap\<lparr>sn_Number := sn_Number snap + of_nat (length hs), sn_Hash := hsh\<rparr>"
  using assms that by (auto simp: Snapshot_apply_def split: op_splits)

lemma poa_reachable_inv: "poa_reachable kec rcv s \<Longrightarrow> snap_inv s"
proof (induction rule: poa_reachable.induct)
  case (extend s cache hs s')
  from extend(2) show ?case
    by (cases rule: Snapshot_apply_cases) (use extend(3) applyHeaders_inv in \<open>auto simp: snap_inv_def\<close>)
qed (rule newSnapshot_inv)

text \<open>
  C25: the cached tally is a recount of the votes.  In every snapshot reached from a genesis snapshot by
  applying headers, the tally of an account is what counting the pending votes on it gives; no signer has
  two pending votes on one account; every pending vote was cast by a current signer and asks to change the
  current authorisation of its account.
\<close>

theorem snapshot_recount:
  assumes "poa_reachable kec rcv s"
  shows "(\<forall>a. map_of (sn_Tally s) a = recount (set (sn_Signers s)) (mset (sn_Votes s)) a) \<and>
    distinct (map (\<lambda>v. (vt_Signer v, vt_Address v)) (sn_Votes s)) \<and>
    (\<forall>v \<in> set (sn_Votes s). vt_Signer v \<in> set (sn_Signers s) \<and> validVote s (vt_Address v) (vt_Authorize v))"
  using poa_reachable_inv [OF assms] by (auto simp: snap_inv_def votes_ok_def validVote_def)


section \<open>Cutting a chain\<close>

fun numbered :: "u64 \<Rightarrow> Header list \<Rightarrow> bool" where
  "numbered w [] = True"
| "numbered w (h # hs) = ((\<exists>n. Number h = Some n \<and> big_Uint64 n = w) \<and> numbered (w + 1) hs)"

lemma numbered_append: "numbered w (hs @ hs') \<longleftrightarrow> numbered w hs \<and> numbered (w + of_nat (length hs)) hs'"
  by (induction w hs rule: numbered.induct) (auto simp: add_ac)

lemma contiguous_numbered:
  "hs \<noteq> [] \<Longrightarrow> contiguous hs = Some True \<and> (\<exists>n. Number (hd hs) = Some n \<and> big_Uint64 n = w) \<longleftrightarrow> numbered w hs"
proof (induction hs arbitrary: w)
  case (Cons h hs)
  show ?case
  proof (cases hs)
    case (Cons h' hs')
    then show ?thesis
      using Cons.IH [of "w + 1"] by (cases "Number h"; cases "Number h'") auto
  qed auto
qed simp

lemma applyHeaders_append:
  "applyHeaders kec rcv cache (hs @ hs') s =
     (case applyHeaders kec rcv cache hs s of
        Some (Inr s') \<Rightarrow> applyHeaders kec rcv cache hs' s'
      | r \<Rightarrow> r)"
  by (induction kec rcv cache hs s rule: applyHeaders.induct) (auto split: option.split sum.split bind_split)

text \<open>The number and the hash of a snapshot are set at the end and not read while headers are applied.\<close>

definition relabel :: "u64 \<Rightarrow> hash \<Rightarrow> Snapshot \<Rightarrow> Snapshot" where
  "relabel n h s = s\<lparr>sn_Number := n, sn_Hash := h\<rparr>"

lemma relabel_fields [simp]:
  "sn_Signers (relabel n h s) = sn_Signers s" "sn_Votes (relabel n h s) = sn_Votes s"
  "sn_Tally (relabel n h s) = sn_Tally s" "sn_Epoch (relabel n h s) = sn_Epoch s"
  "sn_Recents (relabel n h s) = sn_Recents s" "limit (relabel n h s) = limit s"
  "sn_Number (relabel n h s) = n" "relabel n h (relabel n' h' s) = relabel n h s"
  "(relabel n h s)\<lparr>sn_Signers := x1\<rparr> = relabel n h (s\<lparr>sn_Signers := x1\<rparr>)"
  "(relabel n h s)\<lparr>sn_Votes := x2\<rparr> = relabel n h (s\<lparr>sn_Votes := x2\<rparr>)"
  "(relabel n h s)\<lparr>sn_Tally := x3\<rparr> = relabel n h (s\<lparr>sn_Tally := x3\<rparr>)"
  "(relabel n h s)\<lparr>sn_Recents := x4\<rparr> = relabel n h (s\<lparr>sn_Recents := x4\<rparr>)"
  by (simp_all add: relabel_def limit_def)

lemma relabel_ops:
  "clearVotes k (relabel n h s) = relabel n h (clearVotes k s)"
  "dropRecent k (relabel n h s) = relabel n h (dropRecent k s)"
  "snd (uncast a b (relabel n h s)) = relabel n h (snd (uncast a b s))"
  "discardVote a b' (relabel n h s) = relabel n h (discardVote a b' s)"
  "tallyUp a k c b (relabel n h s) = relabel n h (tallyUp a k c b s)"
proof -
  show uncast: "snd (uncast a b (relabel n h s)) = relabel n h (snd (uncast a b s))" for a b
    by (simp add: uncast_def split: option.split)
  show "discardVote a b' (relabel n h s) = relabel n h (discardVote a b' s)"
    by (simp add: discardVote_def uncast split: option.split)
qed (simp_all add: clearVotes_def dropRecent_def tallyUp_def cast_def validVote_def split: option.split)

lemma relabel_passVote: "passVote k a (relabel n h s) = relabel n h (passVote k a s)"
proof -
  have "fold (\<lambda>v s. snd (uncast (vt_Address v) (vt_Authorize v) s)) vs (relabel n h s) =
      relabel n h (fold (\<lambda>v s. snd (uncast (vt_Address v) (vt_Authorize v) s)) vs s)" for vs :: "Vote list" and s
    by (induction vs arbitrary: s) (simp_all add: relabel_ops(3))
  then have "discardSigner a (relabel n h s) = relabel n h (discardSigner a s)" for s
    by (simp add: discardSigner_def)
  then show ?thesis
    by (simp add: passVote_def Let_def relabel_ops split: option.split)
qed

lemma relabel_applyHeaders:
  "applyHeaders kec rcv cache hs (relabel n h s) = map_option (map_sum id (relabel n h)) (applyHeaders kec rcv cache hs s)"
proof (induction hs arbitrary: s)
  case (Cons g hs)
  have "applyHeader kec rcv cache g (relabel n h s) = map_option (map_sum id (relabel n h)) (applyHeader kec rcv cache g s)"
    by (simp add: applyHeader_def Let_def relabel_ops relabel_passVote split: option.split sum.split bind_split)
  then show ?case
    using Cons.IH by (cases "applyHeader kec rcv cache g s") (auto split: sum.split)
qed simp

lemma applyHeader_number: "applyHeader kec rcv cache h s = Some (Inr s') \<Longrightarrow> sn_Number s' = sn_Number s \<and> Header_Hash kec h \<noteq> None"
proof (erule applyHeader_cases)
  fix n signer authorize s1 s2
  assume *: "s1 = dropRecent (big_Uint64 n) (clearVotes (big_Uint64 n) s)" "ecrecover kec rcv cache h = Some (Inr signer)"
    "s2 = discardVote signer (Coinbase h) (s1\<lparr>sn_Recents := AList.update (big_Uint64 n) signer (sn_Recents s1)\<rparr>)"
    "s' = passVote (big_Uint64 n) (Coinbase h) (tallyUp signer (big_Uint64 n) (Coinbase h) authorize s2)"
  have "sn_Number (fold (\<lambda>v s. snd (uncast (vt_Address v) (vt_Authorize v) s)) vs t) = sn_Number t" for vs :: "Vote list" and t
    by (induction vs arbitrary: t) simp_all
  then have "sn_Number (passVote k a t) = sn_Number t" for k a t
    by (simp add: passVote_def discardSigner_def Let_def split: option.split)
  then show "sn_Number s' = sn_Number s \<and> Header_Hash kec h \<noteq> None"
    using *(2) by (auto simp: *(1,3,4) ecrecover_def split: bind_split_asm)
qed

lemma applyHeader_epoch:
  assumes "applyHeader kec rcv cache h s = Some (Inr s')"
  shows "sn_Epoch s' = sn_Epoch s"
  using assms
proof (cases rule: applyHeader_cases)
  case (1 n signer authorize s1 s2)
  have "sn_Epoch (fold (\<lambda>v s. snd (uncast (vt_Address v) (vt_Authorize v) s)) vs t) = sn_Epoch t" for vs :: "Vote list" and t
    by (induction vs arbitrary: t) simp_all
  then have "sn_Epoch (passVote k a t) = sn_Epoch t" for k a t
    by (simp add: passVote_def discardSigner_def Let_def split: option.split)
  then show ?thesis
    by (simp add: 1(3,7,9))
qed

lemma Snapshot_apply_epoch:
  assumes "Snapshot_apply kec rcv cache s hs = Some (Inr s')"
  shows "sn_Epoch s' = sn_Epoch s"
proof -
  have "applyHeaders kec rcv cache hs s = Some (Inr t) \<Longrightarrow> sn_Epoch t = sn_Epoch s" for t
    by (induction kec rcv cache hs s rule: applyHeaders.induct) (auto split: op_splits dest!: applyHeader_epoch)
  with assms show ?thesis
    by (auto elim!: Snapshot_apply_cases)
qed

lemma applyHeaders_number:
  "applyHeaders kec rcv cache hs s = Some (Inr s') \<Longrightarrow> sn_Number s' = sn_Number s \<and> (\<forall>h \<in> set hs. Header_Hash kec h \<noteq> None)"
  by (induction kec rcv cache hs s rule: applyHeaders.induct) (auto split: op_splits dest!: applyHeader_number)

lemma Snapshot_apply_iff:
  assumes "hs \<noteq> []"
  shows "Snapshot_apply kec rcv cache s hs = Some (Inr t) \<longleftrightarrow> numbered (sn_Number s + 1) hs \<and>
    (\<exists>snap h. applyHeaders kec rcv cache hs s = Some (Inr snap) \<and> Header_Hash kec (last hs) = Some h \<and>
       t = relabel (sn_Number s + of_nat (length hs)) h snap)" (is "?L \<longleftrightarrow> ?R")
proof
  assume ?L
  then show ?R
    by (cases rule: Snapshot_apply_cases)
      (use assms contiguous_numbered [OF assms, of "sn_Number s + 1"] in \<open>auto simp: relabel_def dest: applyHeaders_number\<close>)
next
  assume ?R
  then obtain snap h where *: "applyHeaders kec rcv cache hs s = Some (Inr snap)" "Header_Hash kec (last hs) = Some h"
    "t = relabel (sn_Number s + of_nat (length hs)) h snap" "numbered (sn_Number s + 1) hs"
    by blast
  moreover have "sn_Number snap = sn_Number s"
    using applyHeaders_number [OF *(1)] by simp
  ultimately show ?L
    using assms contiguous_numbered [OF assms, of "sn_Number s + 1"] by (auto simp: Snapshot_apply_def relabel_def)
qed

lemma Snapshot_apply_Nil: "Snapshot_apply kec rcv cache s [] = Some (Inr s)"
  by (simp add: Snapshot_apply_def)

lemma applyHeaders_append_iff:
  "applyHeaders kec rcv cache (hs @ hs') s = Some (Inr t) \<longleftrightarrow>
     (\<exists>u. applyHeaders kec rcv cache hs s = Some (Inr u) \<and> applyHeaders kec rcv cache hs' u = Some (Inr t))"
  by (auto simp: applyHeaders_append split: option.splits sum.splits)

lemma relabel_applyHeaders_iff:
  "applyHeaders kec rcv cache hs (relabel n h s) = Some (Inr t) \<longleftrightarrow>
     (\<exists>u. applyHeaders kec rcv cache hs s = Some (Inr u) \<and> t = relabel n h u)"
  by (auto simp: relabel_applyHeaders map_sum_eq_Inr)

lemma Snapshot_apply_batches:
  "Snapshot_apply kec rcv cache s (hs @ hs') = Some (Inr t) \<longleftrightarrow>
     (\<exists>s'. Snapshot_apply kec rcv cache s hs = Some (Inr s') \<and> Snapshot_apply kec rcv cache s' hs' = Some (Inr t))"
proof (cases "hs = [] \<or> hs' = []")
  case True
  then show ?thesis
    by (auto simp: Snapshot_apply_Nil)
next
  case False
  then have ne: "hs \<noteq> []" "hs' \<noteq> []" "hs @ hs' \<noteq> []"
    by auto
  have hash: "\<exists>h. Header_Hash kec (last hs) = Some h" if "applyHeaders kec rcv cache hs s = Some (Inr u)" for u
    using applyHeaders_number [OF that] ne(1) by (meson last_in_set not_Some_eq)
  let ?n = "sn_Number s + of_nat (length hs)"
  have "(\<exists>s'. Snapshot_apply kec rcv cache s hs = Some (Inr s') \<and> Snapshot_apply kec rcv cache s' hs' = Some (Inr t)) \<longleftrightarrow>
      numbered (sn_Number s + 1) hs \<and> numbered (?n + 1) hs' \<and>
      (\<exists>u v h h'. applyHeaders kec rcv cache hs s = Some (Inr u) \<and> Header_Hash kec (last hs) = Some h \<and>
         applyHeaders kec rcv cache hs' u = Some (Inr v) \<and> Header_Hash kec (last hs') = Some h' \<and>
         t = relabel (?n + of_nat (length hs')) h' v)"
    unfolding Snapshot_apply_iff [OF ne(1)] Snapshot_apply_iff [OF ne(2)]
    by (auto simp: relabel_applyHeaders_iff)
  also have "\<dots> \<longleftrightarrow> Snapshot_apply kec rcv cache s (hs @ hs') = Some (Inr t)"
    unfolding Snapshot_apply_iff [OF ne(3)] numbered_append applyHeaders_append_iff
    using ne(2) hash by (auto simp: add_ac)
  finally show ?thesis ..
qed

text \<open>
  C27: a snapshot does not depend on where the chain is cut.  Applying two batches of headers one after the
  other succeeds exactly when applying them together does, with the same snapshot; the engine relies on it
  whenever it starts from a stored checkpoint.
\<close>

theorem Snapshot_apply_append:
  "Snapshot_apply kec rcv cache s (hs @ hs') = Some (Inr t) \<longleftrightarrow>
     (\<exists>s'. Snapshot_apply kec rcv cache s hs = Some (Inr s') \<and> Snapshot_apply kec rcv cache s' hs' = Some (Inr t))"
  by (rule Snapshot_apply_batches)

section \<open>Turns\<close>

lemma offset_less: "a \<in> set xs \<Longrightarrow> offset a xs < length xs"
  by (induction xs) auto

text \<open>The distance of a signer from its turn, on words and on numbers.\<close>

definition turnIndex :: "nat \<Rightarrow> nat \<Rightarrow> nat \<Rightarrow> nat" where
  "turnIndex n so no = (if no > so then no - so else n - (so - no))"

lemma turnIndex_bounds:
  assumes "so < n" and "no < n"
  shows "0 < turnIndex n so no" and "turnIndex n so no \<le> n" and "turnIndex n so no = n \<longleftrightarrow> so = no"
  using assms by (auto simp: turnIndex_def)

lemma unat_turnIndex:
  fixes n so no :: u64
  assumes "so < n" and "no < n"
  shows "unat (if no > so then no - so else n - (so - no)) = turnIndex (unat n) (unat so) (unat no)"
proof (cases "no > so")
  case True
  then show ?thesis
    by (simp add: turnIndex_def unat_sub order_less_imp_le word_less_nat_alt)
next
  case False
  then have sub: "unat (so - no) = unat so - unat no"
    by (simp add: unat_sub)
  then have "so - no \<le> n"
    using assms(1) by (simp add: word_le_nat_alt word_less_nat_alt)
  then have "unat (n - (so - no)) = unat n - (unat so - unat no)"
    by (simp only: unat_sub sub)
  then show ?thesis
    using False by (simp add: turnIndex_def word_less_nat_alt)
qed

lemma turn_score:
  assumes "0 < i" and "i \<le> n"
  shows "0 \<le> int i * 5 div int n" and "int i * 5 div int n \<le> 5" and "int i * 5 div int n = 5 \<longleftrightarrow> i = n"
proof -
  have "i * 5 div n \<le> n * 5 div n"
    using assms(2) by (intro div_le_mono) simp
  moreover have "i * 5 div n < 5" if "i < n"
    using that by (simp add: less_mult_imp_div_less mult.commute)
  ultimately have "i * 5 div n \<le> 5" "i * 5 div n = 5 \<longleftrightarrow> i = n"
    using assms by (cases "i < n"; simp)+
  moreover have "int i * 5 div int n = int (i * 5 div n)"
    by (simp add: zdiv_int)
  ultimately show "0 \<le> int i * 5 div int n" "int i * 5 div int n \<le> 5" "int i * 5 div int n = 5 \<longleftrightarrow> i = n"
    by linarith+
qed


text \<open>
  C29: early blocks of a recent signer are accepted but cannot be built on.  While the block number is below
  half the number of signers, the subtraction in the check of \<^verbatim>\<open>verifySeal\<close> wraps around, so a block of
  a signer that signed recently passes the check; applying the same header to the snapshot fails, and with it
  the verification of every later block.
\<close>

theorem early_recent_signer:
  assumes "Number h = Some n" and "big_Uint64 n \<noteq> 0" and "Difficulty h = Some d" and "0 < d" and "sn_Epoch s \<noteq> 0"
    and "ecrecover kec rcv cache h = Some (Inr a)" and "a \<in> set (sn_Signers s)" and "a \<in> snd ` set (sn_Recents s)"
    and "\<And>k b. (k, b) \<in> set (sn_Recents s) \<Longrightarrow> k < big_Uint64 n" and "big_Uint64 n < limit s"
  shows "verifySeal kec rcv cache s h = Some None \<and> applyHeader kec rcv cache h s = Some (Inl errUnauthorized)"
proof -
  have "big_Uint64 n \<le> big_Uint64 n - limit s"
    using assms(10) unsigned_less [of "limit s", where 'a = nat] by (simp add: word_le_nat_alt word_less_nat_alt unat_sub_if')
  then have "checkSigner s (big_Uint64 n) a = None"
    using assms(7,9) by (fastforce simp: checkSigner_def)
  moreover have "sn_Recents (dropRecent (big_Uint64 n) (clearVotes (big_Uint64 n) s)) = sn_Recents s"
    using assms(10) by (auto simp: dropRecent_def limit_def)
  ultimately show ?thesis
    using assms by (simp add: verifySeal_def applyHeader_def Let_def)
qed

lemma sigHash_ignores: "sigHash kec (h\<lparr>DposContext := p, Signature := sig\<rparr>) = sigHash kec h"
  by (simp add: sigHash_def)

section \<open>Instances\<close>

definition poa_header :: "int \<Rightarrow> address \<Rightarrow> u64 \<Rightarrow> Header" where
  "poa_header n coinbase nonce = sample_header
     \<lparr>Number := Some n, MixDigest := 0, Extra := replicate 97 0, Coinbase := coinbase, Nonce := nonce\<rparr>"

lemma poa_header_simps [simp]:
  "Number (poa_header n c k) = Some n" "Coinbase (poa_header n c k) = c" "Nonce (poa_header n c k) = k"
  "Difficulty (poa_header n c k) = Some 1" "Header_Hash (\<lambda>_. 7) (poa_header n c k) = Some 7"
  "ecrecover (\<lambda>_. 7) (\<lambda>_ _. Inr a) (\<lambda>_. None) (poa_header n c k) = Some (Inr a)"
  by (simp_all add: poa_header_def sample_header_def ecrecover_def Header_Hash_def rlpHash_def BFTDigest_def extraSeal_def)

lemma poa_step:
  "applyHeader (\<lambda>_. 7) (\<lambda>_ _. Inr 1) (\<lambda>_. None) (poa_header 1 9 nonceAuthVote) (newSnapshot 100 0 0 [1]) =
     Some (Inr \<lparr>sn_Epoch = 100, sn_Number = 0, sn_Hash = 0, sn_Signers = [9, 1], sn_Recents = [(1, 1)],
       sn_Votes = [], sn_Tally = []\<rparr>)"
  by (simp add: applyHeader_def Let_def big_Uint64_def) code_simp

theorem snapshot_recount_witness:
  "\<exists>s. Snapshot_apply (\<lambda>_. 7) (\<lambda>_ _. Inr 1) (\<lambda>_. None) (newSnapshot 100 0 0 [1, 2, 3]) [poa_header 1 9 nonceAuthVote] =
     Some (Inr s) \<and> map_of (sn_Tally s) 9 = recount (set (sn_Signers s)) (mset (sn_Votes s)) 9 \<and>
     map (\<lambda>v. (vt_Signer v, vt_Address v)) (sn_Votes s) = [(1, 9)]"
proof -
  let ?s = "\<lparr>sn_Epoch = 100, sn_Number = 1, sn_Hash = 7, sn_Signers = [1, 2, 3], sn_Recents = [(1, 1)],
    sn_Votes = [\<lparr>vt_Signer = 1, vt_Block = 1, vt_Address = 9, vt_Authorize = True\<rparr>],
    sn_Tally = [(9, \<lparr>ty_Authorize = True, ty_Votes = 1\<rparr>)]\<rparr>"
  have *: "Snapshot_apply (\<lambda>_. 7) (\<lambda>_ _. Inr 1) (\<lambda>_. None) (newSnapshot 100 0 0 [1, 2, 3]) [poa_header 1 9 nonceAuthVote] =
     Some (Inr ?s)"
    by (simp add: Snapshot_apply_def applyHeader_def Let_def big_Uint64_def) code_simp
  have "poa_reachable (\<lambda>_. 7) (\<lambda>_ _. Inr 1) ?s"
    by (rule poa_reachable.extend [OF poa_reachable.genesis *])
  from snapshot_recount [OF this] have "map_of (sn_Tally ?s) 9 = recount (set (sn_Signers ?s)) (mset (sn_Votes ?s)) 9"
    by blast
  with * show ?thesis
    by (intro exI [of _ ?s] conjI) simp_all
qed



theorem early_recent_signer_witness:
  "verifySeal (\<lambda>_. 7) (\<lambda>_ _. Inr 1) (\<lambda>_. None) ((newSnapshot 100 1 0 [1, 2, 3, 4, 5])\<lparr>sn_Recents := [(1, 1)]\<rparr>)
     (poa_header 2 0 nonceDropVote) = Some None \<and>
   applyHeader (\<lambda>_. 7) (\<lambda>_ _. Inr 1) (\<lambda>_. None) (poa_header 2 0 nonceDropVote)
     ((newSnapshot 100 1 0 [1, 2, 3, 4, 5])\<lparr>sn_Recents := [(1, 1)]\<rparr>) = Some (Inl errUnauthorized)"
  by (rule early_recent_signer) (auto simp: newSnapshot_def big_Uint64_def limit_def)

end
