(* ===== verification/Poa_Engine.thy ===== *)
theory Poa_Engine
  imports Poa_Snapshot
begin

text \<open>
  \<^verbatim>\<open>consensus/poa/poa.go\<close>: the engine around the snapshots.  It finds the snapshot of a block from
  its caches, its database or the headers of the chain, verifies headers, and prepares and seals new ones.
  The chain reader, the signing key, the cache of the library and the failures of the database are arguments,
  collected in the record \<open>poa_env\<close>.  What the signature cache answers is a field of the engine; entries
  that a call adds to it are not modelled.  A stored snapshot is read back as it was written.
\<close>

record poa_env =
  pv_kec :: keccak
  pv_rcv :: sig_recover
  pv_iter :: "address list \<Rightarrow> address list"
  pv_arc :: "hash \<Rightarrow> Snapshot \<Rightarrow> (hash \<Rightarrow> Snapshot option) \<Rightarrow> hash \<Rightarrow> Snapshot option"
  pv_put :: "Snapshot \<Rightarrow> string option"
  pv_GetHeader :: "hash \<Rightarrow> u64 \<Rightarrow> Header option"
  pv_GetHeaderByNumber :: "u64 \<Rightarrow> Header option"
  pv_EIP150Block :: "int option"
  pv_EIP150Hash :: hash

record PoA =
  pe_Period :: u64
  pe_Epoch :: u64
  pe_db :: "hash \<Rightarrow> Snapshot option"
  pe_recents :: "hash \<Rightarrow> Snapshot option"
  pe_signatures :: "hash \<Rightarrow> address option"
  pe_proposals :: "(address \<times> bool) list"
  pe_signer :: address

definition checkpointInterval :: u64 where
  "checkpointInterval = 1024"

definition poa_epochLength :: u64 where
  "poa_epochLength = 30000"

definition PoA_New :: "u64 \<Rightarrow> u64 \<Rightarrow> (hash \<Rightarrow> Snapshot option) \<Rightarrow> PoA" where
  "PoA_New period epoch db =
     \<lparr>pe_Period = period, pe_Epoch = (if epoch = 0 then poa_epochLength else epoch), pe_db = db,
      pe_recents = Map.empty, pe_signatures = Map.empty, pe_proposals = [], pe_signer = 0\<rparr>"

definition Authorize :: "address \<Rightarrow> PoA \<Rightarrow> PoA" where
  "Authorize signer c = c\<lparr>pe_signer := signer\<rparr>"

definition Propose :: "address \<Rightarrow> bool \<Rightarrow> PoA \<Rightarrow> PoA" where
  "Propose addr auth c = c\<lparr>pe_proposals := AList.update addr auth (pe_proposals c)\<rparr>"

definition Discard :: "address \<Rightarrow> PoA \<Rightarrow> PoA" where
  "Discard addr c = c\<lparr>pe_proposals := AList.delete addr (pe_proposals c)\<rparr>"

section \<open>Finding a snapshot\<close>

text \<open>The signers listed in the genesis block; a list of negative length panics.\<close>

definition genesisSigners :: "Header \<Rightarrow> address list option" where
  "genesisSigners genesis =
     (if length (Extra genesis) + AddressLength \<le> extraVanity + extraSeal then None
      else Some (map (\<lambda>i. word_of_bytes (take AddressLength (drop (extraVanity + i * AddressLength) (Extra genesis))))
                   [0..<(length (Extra genesis) - extraVanity - extraSeal) div AddressLength]))"

definition store :: "poa_env \<Rightarrow> Snapshot \<Rightarrow> PoA \<Rightarrow> poa_error option \<times> PoA" where
  "store env s c =
     (case pv_put env s of
        Some err \<Rightarrow> (Some (err_db err), c)
      | None \<Rightarrow> (None, c\<lparr>pe_db := (pe_db c)(sn_Hash s \<mapsto> s)\<rparr>))"

definition storeSnapshot :: "poa_env \<Rightarrow> Snapshot \<Rightarrow> PoA \<Rightarrow> (poa_error + Snapshot) \<times> PoA" where
  "storeSnapshot env snap c =
     (case store env snap c of
        (Some err, c) \<Rightarrow> (Inl err, c)
      | (None, c) \<Rightarrow> (Inr snap, c))"

definition loadSnapshot :: "hash \<Rightarrow> PoA \<Rightarrow> Snapshot option" where
  "loadSnapshot hsh c = map_option (\<lambda>s. s\<lparr>sn_Epoch := pe_Epoch c\<rparr>) (pe_db c hsh)"

text \<open>The snapshot of block zero; \<open>vh\<close> verifies the genesis header.\<close>

type_synonym header_verifier = "Header \<Rightarrow> PoA \<Rightarrow> (poa_error option \<times> PoA) option"

definition genesisSnapshot ::
  "poa_env \<Rightarrow> header_verifier \<Rightarrow> PoA \<Rightarrow> ((poa_error + Snapshot) \<times> PoA) option" where
  "genesisSnapshot env vh c = do {
     genesis \<leftarrow> pv_GetHeaderByNumber env 0;
     (e, c) \<leftarrow> vh genesis c;
     (case e of
        Some err \<Rightarrow> Some (Inl err, c)
      | None \<Rightarrow> do {
          signers \<leftarrow> genesisSigners genesis;
          hsh \<leftarrow> Header_Hash (pv_kec env) genesis;
          Some (storeSnapshot env (newSnapshot (pe_Epoch c) 0 hsh signers) c)
        })
   }"

text \<open>The next header on the way back, from the explicit parents or from the chain.\<close>

definition pickHeader ::
  "poa_env \<Rightarrow> u64 \<Rightarrow> hash \<Rightarrow> Header list \<Rightarrow> (poa_error + Header \<times> Header list) option" where
  "pickHeader env number hsh parents =
     (if parents \<noteq> [] then do {
        let header = last parents;
        h \<leftarrow> Header_Hash (pv_kec env) header;
        if h \<noteq> hsh then Some (Inl poa_ErrUnknownAncestor)
        else do {
          n \<leftarrow> Number header;
          Some (if big_Uint64 n \<noteq> number then Inl poa_ErrUnknownAncestor else Inr (header, butlast parents))
        }
      } else Some (case pv_GetHeader env hsh number of
          None \<Rightarrow> Inl poa_ErrUnknownAncestor
        | Some header \<Rightarrow> Inr (header, [])))"

function gather ::
  "poa_env \<Rightarrow> header_verifier \<Rightarrow> u64 \<Rightarrow> hash \<Rightarrow> Header list \<Rightarrow> Header list \<Rightarrow> PoA \<Rightarrow>
     ((poa_error + Snapshot \<times> Header list) \<times> PoA) option" where
  "gather env vh number hsh parents headers c =
     (case pe_recents c hsh of
        Some s \<Rightarrow> Some (Inr (s, headers), c)
      | None \<Rightarrow>
          (case (if number mod checkpointInterval = 0 then loadSnapshot hsh c else None) of
             Some s \<Rightarrow> Some (Inr (s, headers), c)
           | None \<Rightarrow>
               if number = 0 then
                 map_option (map_prod (map_sum id (\<lambda>s. (s, headers))) id) (genesisSnapshot env vh c)
               else do {
                 r \<leftarrow> pickHeader env number hsh parents;
                 (case r of
                    Inl err \<Rightarrow> Some (Inl err, c)
                  | Inr (header, parents) \<Rightarrow>
                      gather env vh (number - 1) (ParentHash header) parents (headers @ [header]) c)
               }))"
  by pat_completeness auto

termination
  by (relation "measure (\<lambda>(env, vh, number, _). unat number)") (simp_all add: measure_unat)

declare gather.simps [simp del]

definition snapshot ::
  "poa_env \<Rightarrow> header_verifier \<Rightarrow> u64 \<Rightarrow> hash \<Rightarrow> Header list \<Rightarrow> PoA \<Rightarrow> ((poa_error + Snapshot) \<times> PoA) option" where
  "snapshot env vh number hsh parents c = do {
     (r, c) \<leftarrow> gather env vh number hsh parents [] c;
     (case r of
        Inl err \<Rightarrow> Some (Inl err, c)
      | Inr (snap, headers) \<Rightarrow> do {
          r \<leftarrow> Snapshot_apply (pv_kec env) (pv_rcv env) (pe_signatures c) snap (rev headers);
          (case r of
             Inl err \<Rightarrow> Some (Inl err, c)
           | Inr snap \<Rightarrow>
               let c = c\<lparr>pe_recents := pv_arc env (sn_Hash snap) snap (pe_recents c)\<rparr>
               in if sn_Number snap mod checkpointInterval = 0 \<and> headers \<noteq> [] then
                    Some (storeSnapshot env snap c)
                  else Some (Inr snap, c))
        })
   }"

section \<open>Verifying a header\<close>

type_synonym snapshot_fn = "u64 \<Rightarrow> hash \<Rightarrow> Header list \<Rightarrow> PoA \<Rightarrow> ((poa_error + Snapshot) \<times> PoA) option"

definition VerifyForkHashes :: "poa_env \<Rightarrow> Header \<Rightarrow> bool \<Rightarrow> poa_error option option" where
  "VerifyForkHashes env header uncle =
     (if uncle then Some None
      else case pv_EIP150Block env of
        None \<Rightarrow> Some None
      | Some b \<Rightarrow> do {
          n \<leftarrow> Number header;
          if b = n \<and> pv_EIP150Hash env \<noteq> 0 then do {
            h \<leftarrow> Header_Hash (pv_kec env) header;
            Some (if pv_EIP150Hash env \<noteq> h then Some err_fork else None)
          } else Some None
        })"

definition VerifyUncles :: "Block \<Rightarrow> poa_error option" where
  "VerifyUncles block = (if length (bl_uncles block) > 0 then Some err_uncles else None)"

definition PoA_verifySeal ::
  "poa_env \<Rightarrow> snapshot_fn \<Rightarrow> Header \<Rightarrow> Header list \<Rightarrow> PoA \<Rightarrow> (poa_error option \<times> PoA) option" where
  "PoA_verifySeal env snapf header parents c = do {
     n \<leftarrow> Number header;
     if big_Uint64 n = 0 then Some (Some errUnknownBlock, c)
     else do {
       (r, c) \<leftarrow> snapf (big_Uint64 n - 1) (ParentHash header) parents c;
       (case r of
          Inl err \<Rightarrow> Some (Some err, c)
        | Inr snap \<Rightarrow> do {
            e \<leftarrow> verifySeal (pv_kec env) (pv_rcv env) (pe_signatures c) snap header;
            Some (e, c)
          })
     }
   }"

definition headerParent :: "poa_env \<Rightarrow> u64 \<Rightarrow> Header \<Rightarrow> Header list \<Rightarrow> Header option" where
  "headerParent env number header parents =
     (if parents \<noteq> [] then Some (last parents) else pv_GetHeader env (ParentHash header) (number - 1))"

text \<open>The signers that a checkpoint block lists.\<close>

definition checkpointSigners :: "poa_env \<Rightarrow> Snapshot \<Rightarrow> bytes" where
  "checkpointSigners env snap = concat (map (be_bytes AddressLength) (signers (pv_iter env) snap))"

definition parentMismatch :: "poa_env \<Rightarrow> u64 \<Rightarrow> Header \<Rightarrow> Header \<Rightarrow> bool option" where
  "parentMismatch env number header parent = do {
     pn \<leftarrow> Number parent;
     if big_Uint64 pn \<noteq> number - 1 then Some True
     else do {
       ph \<leftarrow> Header_Hash (pv_kec env) parent;
       Some (ph \<noteq> ParentHash header)
     }
   }"

definition verifyCascadingFields ::
  "poa_env \<Rightarrow> snapshot_fn \<Rightarrow> Header \<Rightarrow> Header list \<Rightarrow> PoA \<Rightarrow> (poa_error option \<times> PoA) option" where
  "verifyCascadingFields env snapf header parents c = do {
     n \<leftarrow> Number header;
     let number = big_Uint64 n;
     if number = 0 then Some (None, c)
     else case headerParent env number header parents of
       None \<Rightarrow> Some (Some poa_ErrUnknownAncestor, c)
     | Some parent \<Rightarrow> do {
         bad \<leftarrow> parentMismatch env number header parent;
         if bad then Some (Some poa_ErrUnknownAncestor, c)
         else do {
           pt \<leftarrow> Time parent;
           t \<leftarrow> Time header;
           if big_Uint64 pt + pe_Period c > big_Uint64 t then Some (Some ErrInvalidTimestamp, c)
           else do {
             (r, c) \<leftarrow> snapf (number - 1) (ParentHash header) parents c;
             (case r of
                Inl err \<Rightarrow> Some (Some err, c)
              | Inr snap \<Rightarrow>
                  if number mod pe_Epoch c = 0 \<and>
                     take (length (Extra header) - extraSeal - extraVanity) (drop extraVanity (Extra header)) \<noteq>
                       checkpointSigners env snap
                  then Some (Some errInvalidCheckpointSigners, c)
                  else PoA_verifySeal env snapf header parents c)
           }
         }
       }
   }"

text \<open>The check of the signer and of the difficulty inside \<^verbatim>\<open>verifyHeader\<close>.\<close>

definition verifySigner ::
  "poa_env \<Rightarrow> snapshot_fn \<Rightarrow> u64 \<Rightarrow> Header \<Rightarrow> Header list \<Rightarrow> PoA \<Rightarrow> (poa_error option \<times> PoA) option" where
  "verifySigner env snapf number header parents c = do {
     (r, c) \<leftarrow> snapf (number - 1) (ParentHash header) parents c;
     (case r of
        Inl err \<Rightarrow> Some (Some err, c)
      | Inr snap \<Rightarrow> do {
          r \<leftarrow> ecrecover (pv_kec env) (pv_rcv env) (pe_signatures c) header;
          (case r of
             Inl err \<Rightarrow> Some (Some err, c)
           | Inr signer \<Rightarrow>
               (case checkSigner snap number signer of
                  Some err \<Rightarrow> Some (Some err, c)
                | None \<Rightarrow> do {
                    d \<leftarrow> Difficulty header;
                    Some (if CalcDifficulty (pv_iter env) snap signer \<noteq> d then Some errInvalidDifficulty else None, c)
                  }))
        })
   }"

text \<open>
  Verifying the genesis block inside \<open>snapshot\<close> calls \<open>verifyHeader\<close> again; the first argument bounds
  this nesting.  Two levels are enough when the genesis block has number zero.
\<close>

fun verifyHeader ::
  "nat \<Rightarrow> poa_env \<Rightarrow> int \<Rightarrow> Header \<Rightarrow> Header list \<Rightarrow> PoA \<Rightarrow> (poa_error option \<times> PoA) option" where
  "verifyHeader 0 env now header parents c = None"
| "verifyHeader (Suc k) env now header parents c = do {
     let snapf = snapshot env (\<lambda>g c. verifyHeader k env now g [] c);
     e \<leftarrow> verifyHeader_static (pv_kec env) (pe_Epoch c) now header;
     (case e of
        Some err \<Rightarrow> Some (Some err, c)
      | None \<Rightarrow> do {
          n \<leftarrow> Number header;
          (e, c) \<leftarrow> (if big_Uint64 n \<noteq> 0 then verifySigner env snapf (big_Uint64 n) header parents c
                    else Some (None, c));
          (case e of
             Some err \<Rightarrow> Some (Some err, c)
           | None \<Rightarrow> do {
               e \<leftarrow> VerifyForkHashes env header False;
               (case e of
                  Some err \<Rightarrow> Some (Some err, c)
                | None \<Rightarrow> verifyCascadingFields env snapf header parents c)
             })
        })
   }"

section \<open>Producing a block\<close>

text \<open>The vote of a new block; \<open>r\<close> is the random choice.\<close>

definition chooseVote :: "nat \<Rightarrow> Snapshot \<Rightarrow> PoA \<Rightarrow> Header \<Rightarrow> Header" where
  "chooseVote r snap c header =
     (let proposals = filter (\<lambda>(addr, authorize). validVote snap addr authorize) (pe_proposals c)
      in if proposals = [] then header
         else let (addr, authorize) = proposals ! (r mod length proposals)
              in header\<lparr>Coinbase := addr, Nonce := (if authorize then nonceAuthVote else nonceDropVote)\<rparr>)"

definition prepareExtra :: "poa_env \<Rightarrow> bool \<Rightarrow> Snapshot \<Rightarrow> bytes \<Rightarrow> bytes" where
  "prepareExtra env checkpoint snap extra =
     take extraVanity (extra @ replicate (extraVanity - length extra) 0) @
     (if checkpoint then checkpointSigners env snap else []) @ replicate extraSeal 0"

definition Prepare ::
  "poa_env \<Rightarrow> snapshot_fn \<Rightarrow> int \<Rightarrow> nat \<Rightarrow> Header \<Rightarrow> PoA \<Rightarrow> (poa_error option \<times> Header \<times> PoA) option" where
  "Prepare env snapf now r header c = do {
     let header = header\<lparr>Coinbase := 0, Nonce := 0\<rparr>;
     n \<leftarrow> Number header;
     let number = big_Uint64 n;
     (s, c) \<leftarrow> snapf (number - 1) (ParentHash header) [] c;
     (case s of
        Inl err \<Rightarrow> Some (Some err, header, c)
      | Inr snap \<Rightarrow>
          if pe_Epoch c = 0 then None
          else
            let checkpoint = (number mod pe_Epoch c = 0);
                header = (if \<not> checkpoint then chooseVote r snap c header else header)
            in (case pv_GetHeader env (ParentHash header) (number - 1) of
                  None \<Rightarrow> Some (Some poa_ErrUnknownAncestor, header, c)
                | Some parent \<Rightarrow> do {
                    let header = header
                      \<lparr>Difficulty := Some (CalcDifficulty (pv_iter env) snap (pe_signer c)),
                       Extra := prepareExtra env checkpoint snap (Extra header), MixDigest := 0\<rparr>;
                    pt \<leftarrow> Time parent;
                    let t = pt + uint (pe_Period c);
                    Some (None, header\<lparr>Time := Some (if big_Int64 t < now then now else t)\<rparr>, c)
                  }))
   }"

definition JudgeTx ::
  "snapshot_fn \<Rightarrow> Header \<Rightarrow> address option \<Rightarrow> address \<Rightarrow> PoA \<Rightarrow> (poa_error option \<times> PoA) option" where
  "JudgeTx snapf header to sender c = do {
     n \<leftarrow> Number header;
     (r, c) \<leftarrow> snapf (big_Uint64 n - 1) (ParentHash header) [] c;
     Some (case r of
        Inl err \<Rightarrow> (Some err, c)
      | Inr snap \<Rightarrow>
          (if to = None \<and> sender \<notin> set (sn_Signers snap) then Some errUnauthorized else None, c))
   }"

text \<open>
  The header of the final block.  The state root, the DPoS context and the hashes of the body and the
  receipts are arguments.
\<close>

definition Finalize ::
  "keccak \<Rightarrow> hash \<Rightarrow> DposContextProto \<Rightarrow> hash \<Rightarrow> hash \<Rightarrow> 2048 word \<Rightarrow> txdata list \<Rightarrow> Header \<Rightarrow> Block" where
  "Finalize kec root proto txs_sha receipts_sha bloom txs header =
     \<lparr>bl_header = CopyHeader (header
        \<lparr>Root := root, UncleHash := CalcUncleHash kec [], DposContext := Some proto, TxHash := txs_sha,
         ReceiptHash := receipts_sha, Bloom := bloom\<rparr>),
      bl_uncles = [], bl_transactions = txs\<rparr>"

definition putSeal :: "bytes \<Rightarrow> bytes \<Rightarrow> bytes" where
  "putSeal sighash extra =
     take (length extra - extraSeal) extra @
     take extraSeal sighash @ drop (length extra - extraSeal + length sighash) extra"

definition signedRecently :: "Snapshot \<Rightarrow> u64 \<Rightarrow> address \<Rightarrow> bool" where
  "signedRecently snap number signer =
     (\<exists>(seen, recent) \<in> set (sn_Recents snap).
        recent = signer \<and> (number < limit snap \<or> seen > number - limit snap))"

text \<open>
  \<open>stop\<close> tells whether the stop event arrives before the delay is over; \<open>sign\<close> is the signing
  callback.  The nil block is \<open>Inr None\<close>.
\<close>

definition Seal ::
  "poa_env \<Rightarrow> snapshot_fn \<Rightarrow> (hash \<Rightarrow> string + bytes) \<Rightarrow> bool \<Rightarrow> Block \<Rightarrow> PoA \<Rightarrow>
     ((poa_error + Block option) \<times> PoA) option" where
  "Seal env snapf sign stop block c = do {
     let header = Block_Header block;
     n \<leftarrow> Number header;
     let number = big_Uint64 n;
     if number = 0 then Some (Inl errUnknownBlock, c)
     else if pe_Period c = 0 \<and> bl_transactions block = [] then Some (Inl errWaitTransactions, c)
     else do {
       (r, c) \<leftarrow> snapf (number - 1) (ParentHash header) [] c;
       (case r of
          Inl err \<Rightarrow> Some (Inl err, c)
        | Inr snap \<Rightarrow>
            if pe_signer c \<notin> set (sn_Signers snap) then Some (Inl errUnauthorized, c)
            else if signedRecently snap number (pe_signer c) then Some (if stop then Inr None else Inl poa_ErrMining, c)
            else if stop then Some (Inr None, c)
            else if length (Extra header) < extraSeal then None
            else Some (case sign (sigHash (pv_kec env) header) of
                Inl err \<Rightarrow> Inl (err_crypto err)
              | Inr sighash \<Rightarrow> Inr (Some (WithSeal block (header\<lparr>Extra := putSeal sighash (Extra header)\<rparr>))), c))
     }
   }"

section \<open>The caches\<close>

text \<open>An entry of the signature cache is the signer that recovery gives.\<close>

definition sigs_ok :: "poa_env \<Rightarrow> PoA \<Rightarrow> bool" where
  "sigs_ok env c \<longleftrightarrow> (\<forall>h hsh a. Header_Hash (pv_kec env) h = Some hsh \<longrightarrow> pe_signatures c hsh = Some a \<longrightarrow>
     ecrecover (pv_kec env) (pv_rcv env) Map.empty h = Some (Inr a))"

text \<open>Headers, newest first, that are linked by their parent hashes; the newest one has hash \<open>hsh\<close>.\<close>

fun chain_to :: "keccak \<Rightarrow> hash \<Rightarrow> Header list \<Rightarrow> bool" where
  "chain_to kec hsh [] = True"
| "chain_to kec hsh (h # hs) = (Header_Hash kec h = Some hsh \<and> chain_to kec (ParentHash h) hs)"

definition genesis_snap :: "poa_env \<Rightarrow> u64 \<Rightarrow> Snapshot option" where
  "genesis_snap env epoch = do {
     genesis \<leftarrow> pv_GetHeaderByNumber env 0;
     ss \<leftarrow> genesisSigners genesis;
     hsh \<leftarrow> Header_Hash (pv_kec env) genesis;
     Some (newSnapshot epoch 0 hsh ss)
   }"

text \<open>A snapshot that comes from applying such headers to the snapshot of the genesis block.\<close>

definition derived :: "poa_env \<Rightarrow> u64 \<Rightarrow> hash \<Rightarrow> Snapshot \<Rightarrow> bool" where
  "derived env epoch hsh s \<longleftrightarrow> (\<exists>g hs. genesis_snap env epoch = Some g \<and> chain_to (pv_kec env) hsh hs \<and>
     Snapshot_apply (pv_kec env) (pv_rcv env) Map.empty g (rev hs) = Some (Inr s))"

definition store_ok :: "poa_env \<Rightarrow> PoA \<Rightarrow> bool" where
  "store_ok env c \<longleftrightarrow> sigs_ok env c \<and>
     (\<forall>hsh s. pe_recents c hsh = Some s \<or> pe_db c hsh = Some s \<longrightarrow> derived env (pe_Epoch c) hsh s)"

text \<open>What the chain reader and the cache of the library promise.\<close>

definition chain_ok :: "poa_env \<Rightarrow> bool" where
  "chain_ok env \<longleftrightarrow> (\<forall>hsh n h. pv_GetHeader env hsh n = Some h \<longrightarrow>
     Header_Hash (pv_kec env) h = Some hsh \<and> map_option big_Uint64 (Number h) = Some n)"

definition arc_ok :: "poa_env \<Rightarrow> bool" where
  "arc_ok env \<longleftrightarrow> (\<forall>k v m. pv_arc env k v m \<subseteq>\<^sub>m m(k \<mapsto> v) \<and> pv_arc env k v m k = Some v)"

lemma ecrecover_cache:
  "sigs_ok env c \<Longrightarrow> ecrecover (pv_kec env) (pv_rcv env) (pe_signatures c) h = ecrecover (pv_kec env) (pv_rcv env) Map.empty h"
proof (cases "\<exists>hsh a. Header_Hash (pv_kec env) h = Some hsh \<and> pe_signatures c hsh = Some a")
  case True
  moreover assume "sigs_ok env c"
  ultimately have "\<exists>a. ecrecover (pv_kec env) (pv_rcv env) (pe_signatures c) h = Some (Inr a) \<and>
      ecrecover (pv_kec env) (pv_rcv env) Map.empty h = Some (Inr a)"
    by (fastforce simp: sigs_ok_def ecrecover_def [where cache = "pe_signatures c"])
  then show ?thesis
    by auto
next
  case False
  then show ?thesis
    by (cases "Header_Hash (pv_kec env) h") (auto simp: ecrecover_def split: option.splits)
qed

lemma applyHeader_cache:
  "sigs_ok env c \<Longrightarrow> applyHeader (pv_kec env) (pv_rcv env) (pe_signatures c) h s = applyHeader (pv_kec env) (pv_rcv env) Map.empty h s"
  by (simp add: applyHeader_def ecrecover_cache)

lemma applyHeaders_cache:
  "sigs_ok env c \<Longrightarrow> applyHeaders (pv_kec env) (pv_rcv env) (pe_signatures c) hs = applyHeaders (pv_kec env) (pv_rcv env) Map.empty hs"
  by (induction hs) (rule ext, simp add: applyHeader_cache)+

lemma Snapshot_apply_cache:
  "sigs_ok env c \<Longrightarrow> Snapshot_apply (pv_kec env) (pv_rcv env) (pe_signatures c) s hs = Snapshot_apply (pv_kec env) (pv_rcv env) Map.empty s hs"
  by (simp only: Snapshot_apply_def applyHeaders_cache)

lemma Snapshot_apply_last:
  assumes "Snapshot_apply kec rcv cache s hs = Some (Inr s')" and "hs \<noteq> []"
  shows "Header_Hash kec (last hs) = Some (sn_Hash s')"
  using assms by (auto elim!: Snapshot_apply_cases)

lemma derived_epoch: "derived env epoch hsh s \<Longrightarrow> sn_Epoch s = epoch"
  by (auto simp: derived_def genesis_snap_def newSnapshot_def dest!: Snapshot_apply_epoch split: op_splits)

lemma derived_hash:
  assumes "derived env epoch hsh s"
  shows "derived env epoch (sn_Hash s) s"
proof -
  obtain g hs where *: "genesis_snap env epoch = Some g" "chain_to (pv_kec env) hsh hs"
    "Snapshot_apply (pv_kec env) (pv_rcv env) Map.empty g (rev hs) = Some (Inr s)"
    using assms by (auto simp: derived_def)
  have "chain_to (pv_kec env) (sn_Hash s) hs"
    using Snapshot_apply_last [OF *(3)] *(2) by (cases hs) (auto simp: last_rev)
  with * show ?thesis
    by (auto simp: derived_def)
qed

text \<open>A chain of headers from \<open>hsh\<close> back to a header whose parent hash is \<open>root\<close>.\<close>

fun path :: "keccak \<Rightarrow> hash \<Rightarrow> Header list \<Rightarrow> hash \<Rightarrow> bool" where
  "path kec hsh [] root = (hsh = root)"
| "path kec hsh (h # hs) root = (Header_Hash kec h = Some hsh \<and> path kec (ParentHash h) hs root)"

lemma path_chain: "path kec hsh hs root \<Longrightarrow> chain_to kec root hs' \<Longrightarrow> chain_to kec hsh (hs @ hs')"
  by (induction hs arbitrary: hsh) auto

lemma derived_path:
  assumes "derived env epoch root s" and "path (pv_kec env) hsh hs root"
    and "Snapshot_apply (pv_kec env) (pv_rcv env) Map.empty s (rev hs) = Some (Inr s')"
  shows "derived env epoch hsh s'"
proof -
  obtain g hs' where *: "genesis_snap env epoch = Some g" "chain_to (pv_kec env) root hs'"
    "Snapshot_apply (pv_kec env) (pv_rcv env) Map.empty g (rev hs') = Some (Inr s)"
    using assms(1) by (auto simp: derived_def)
  have "Snapshot_apply (pv_kec env) (pv_rcv env) Map.empty g (rev (hs @ hs')) = Some (Inr s')"
    unfolding rev_append Snapshot_apply_batches using *(3) assms(3) by blast
  with *(1) path_chain [OF assms(2) *(2)] show ?thesis
    by (auto simp: derived_def)
qed

text \<open>A call keeps the stores sound and the parameters of the engine.\<close>

definition keeps :: "poa_env \<Rightarrow> PoA \<Rightarrow> PoA \<Rightarrow> bool" where
  "keeps env c c' \<longleftrightarrow> store_ok env c' \<and> pe_Epoch c' = pe_Epoch c"

lemma keeps_refl: "store_ok env c \<Longrightarrow> keeps env c c"
  by (simp add: keeps_def)

lemma keeps_trans: "keeps env a b \<Longrightarrow> keeps env b c \<Longrightarrow> keeps env a c"
  by (simp add: keeps_def)

definition verifier_ok :: "poa_env \<Rightarrow> header_verifier \<Rightarrow> bool" where
  "verifier_ok env vh \<longleftrightarrow> (\<forall>g c e c'. store_ok env c \<longrightarrow> vh g c = Some (e, c') \<longrightarrow> keeps env c c')"

lemma storeSnapshot_keeps:
  assumes "store_ok env c" and "derived env (pe_Epoch c) hsh s" and "storeSnapshot env s c = (r, c')"
  shows "keeps env c c' \<and> pe_recents c' = pe_recents c \<and> (\<forall>t. r = Inr t \<longrightarrow> t = s)"
  using assms derived_hash [OF assms(2)]
  by (auto simp: storeSnapshot_def store_def keeps_def store_ok_def sigs_ok_def split: option.splits if_splits)

lemma recents_keeps:
  assumes "store_ok env c" and "derived env (pe_Epoch c) hsh s" and "arc_ok env"
  shows "keeps env c (c\<lparr>pe_recents := pv_arc env (sn_Hash s) s (pe_recents c)\<rparr>)"
proof -
  have "pe_recents c k = Some t \<or> (k = sn_Hash s \<and> t = s)" if "pv_arc env (sn_Hash s) s (pe_recents c) k = Some t" for k t
  proof -
    have "((pe_recents c)(sn_Hash s \<mapsto> s)) k = Some t"
      using assms(3) that by (metis arc_ok_def map_le_def domI)
    then show ?thesis
      by (auto split: if_splits)
  qed
  then show ?thesis
    using assms(1) derived_hash [OF assms(2)] by (fastforce simp: keeps_def store_ok_def sigs_ok_def)
qed

lemma genesisSnapshot_sound:
  assumes "genesisSnapshot env vh c = Some (r, c')" and "store_ok env c" and "verifier_ok env vh"
  shows "keeps env c c'" and "r = Inr s \<Longrightarrow> derived env (pe_Epoch c) hsh s"
proof -
  obtain g e c1 where g: "pv_GetHeaderByNumber env 0 = Some g" "vh g c = Some (e, c1)"
    using assms(1) by (auto simp: genesisSnapshot_def split: op_splits)
  have k: "keeps env c c1"
    using assms(2,3) g(2) by (auto simp: verifier_ok_def)
  have "keeps env c c' \<and> (\<forall>s. r = Inr s \<longrightarrow> derived env (pe_Epoch c) hsh s)"
  proof (cases e)
    case Some
    then show ?thesis
      using assms(1) g k by (auto simp: genesisSnapshot_def)
  next
    case None
    then obtain ss h where *: "genesisSigners g = Some ss" "Header_Hash (pv_kec env) g = Some h"
      using assms(1) g by (auto simp: genesisSnapshot_def split: op_splits)
    let ?s = "newSnapshot (pe_Epoch c1) 0 h ss"
    have "derived env (pe_Epoch c1) k ?s" for k
      unfolding derived_def by (intro exI [of _ ?s] exI [of _ "[]"]) (simp add: genesis_snap_def g * Snapshot_apply_Nil)
    moreover have "storeSnapshot env ?s c1 = (r, c')"
      using assms(1) g None * by (simp add: genesisSnapshot_def)
    ultimately show ?thesis
      using k storeSnapshot_keeps [of env c1 hsh ?s r c'] by (auto simp: keeps_def)
  qed
  then show "keeps env c c'" and "r = Inr s \<Longrightarrow> derived env (pe_Epoch c) hsh s"
    by auto
qed

lemma pickHeader_sound:
  assumes "pickHeader env number hsh parents = Some (Inr (header, parents'))" and "chain_ok env"
  shows "Header_Hash (pv_kec env) header = Some hsh"
  using assms by (auto simp: pickHeader_def chain_ok_def Let_def split: op_splits)

lemma loadSnapshot_derived:
  assumes "(if number mod checkpointInterval = 0 then loadSnapshot hsh c else None) = Some s" and "store_ok env c"
  shows "derived env (pe_Epoch c) hsh s"
proof -
  obtain t where t: "pe_db c hsh = Some t" "s = t\<lparr>sn_Epoch := pe_Epoch c\<rparr>"
    using assms(1) by (auto simp: loadSnapshot_def split: if_splits)
  moreover from t(1) have "derived env (pe_Epoch c) hsh t"
    using assms(2) by (simp add: store_ok_def)
  moreover from this have "sn_Epoch t = pe_Epoch c"
    by (rule derived_epoch)
  ultimately show ?thesis
    by (cases t) simp
qed

lemma gather_sound:
  assumes "gather env vh number hsh parents headers c = Some (r, c')" and "store_ok env c" and "verifier_ok env vh"
    and "chain_ok env"
  shows "keeps env c c' \<and> (\<forall>s hs. r = Inr (s, hs) \<longrightarrow>
    (\<exists>hs' root. hs = headers @ hs' \<and> path (pv_kec env) hsh hs' root \<and> derived env (pe_Epoch c) root s))"
  using assms
proof (induction env vh number hsh parents headers c rule: gather.induct)
  case (1 env vh number hsh parents headers c)
  have found: ?case if "derived env (pe_Epoch c) hsh s" "r = Inr (s, headers)" "c' = c" for s
    using that 1(3) by (auto simp: keeps_refl intro: exI [of _ "[]"])
  have older: ?case if IH: "keeps env c c' \<and> (\<forall>s hs. r = Inr (s, hs) \<longrightarrow>
      (\<exists>hs' root. hs = (headers @ [h]) @ hs' \<and> path (pv_kec env) (ParentHash h) hs' root \<and> derived env (pe_Epoch c) root s))"
    and h: "Header_Hash (pv_kec env) h = Some hsh" for h
  proof (intro conjI allI impI)
    fix s hs
    assume "r = Inr (s, hs)"
    with IH obtain hs' root where "hs = (headers @ [h]) @ hs'" "path (pv_kec env) (ParentHash h) hs' root"
      "derived env (pe_Epoch c) root s"
      by blast
    then show "\<exists>hs' root. hs = headers @ hs' \<and> path (pv_kec env) hsh hs' root \<and> derived env (pe_Epoch c) root s"
      using h by (intro exI [of _ "h # hs'"]) auto
  qed (use IH in blast)
  have gather: "gather env vh number hsh parents headers c = Some (r, c')"
    by (fact 1(2))
  note step = gather.simps [of env vh number hsh parents headers c]
  show ?case
  proof (cases "pe_recents c hsh")
    case (Some s)
    then have "r = Inr (s, headers)" "c' = c"
      using gather unfolding step by simp_all
    then show ?thesis
      using 1(3) Some by (intro found [of s]) (simp_all add: store_ok_def)
  next
    case recents: None
    show ?thesis
    proof (cases "if number mod checkpointInterval = 0 then loadSnapshot hsh c else None")
      case (Some s)
      then have "derived env (pe_Epoch c) hsh s"
        using 1(3) by (rule loadSnapshot_derived)
      moreover have "r = Inr (s, headers)" "c' = c"
        using gather recents Some unfolding step by simp_all
      ultimately show ?thesis
        by (rule found)
    next
      case disk: None
      show ?thesis
      proof (cases "number = 0")
        case True
        then obtain r' where "genesisSnapshot env vh c = Some (r', c')" "r = map_sum id (\<lambda>s. (s, headers)) r'"
          using gather recents disk unfolding step by auto
        then show ?thesis
          using genesisSnapshot_sound [of env vh c r' c'] 1(3,4) by (cases r') (auto intro: exI [of _ "[]"])
      next
        case False
        then obtain p where p: "pickHeader env number hsh parents = Some p"
          using gather recents disk unfolding step by (auto split: op_splits)
        show ?thesis
        proof (cases p)
          case (Inl e)
          then show ?thesis
            using gather recents disk False p 1(3) unfolding step by (auto simp: keeps_refl)
        next
          case (Inr q)
          obtain h ps where q: "q = (h, ps)"
            by (cases q)
          have "gather env vh (number - 1) (ParentHash h) ps (headers @ [h]) c = Some (r, c')"
            using gather recents disk False p Inr q unfolding step by simp
          from 1(1) [OF recents disk False p Inr q [symmetric] this 1(3-5)] show ?thesis
            using pickHeader_sound [OF _ 1(5)] p Inr q by (intro older) auto
        qed
      qed
    qed
  qed
qed

lemma path_derived_hash:
  assumes "path kec hsh hs root" and "Snapshot_apply kec rcv cache s (rev hs) = Some (Inr t)" and "hs \<noteq> []"
  shows "sn_Hash t = hsh"
  using assms Snapshot_apply_last [OF assms(2)] by (cases hs) auto

lemma snapshot_keeps:
  assumes "snapshot env vh number hsh parents c = Some (r, c')" and "store_ok env c" and "verifier_ok env vh"
    and "chain_ok env" and "arc_ok env"
  shows "keeps env c c'" and "r = Inr s \<Longrightarrow> derived env (pe_Epoch c) hsh s"
    and "r = Inr s \<Longrightarrow> pe_recents c' (sn_Hash s) = Some s"
proof -
  obtain r1 c1 where g: "gather env vh number hsh parents [] c = Some (r1, c1)"
    using assms(1) by (auto simp: snapshot_def split: op_splits)
  note gs = gather_sound [OF g assms(2-4)]
  have "keeps env c c' \<and> (\<forall>s. r = Inr s \<longrightarrow> derived env (pe_Epoch c) hsh s \<and> pe_recents c' (sn_Hash s) = Some s)"
  proof (cases r1)
    case (Inl e)
    then show ?thesis
      using assms(1) g gs by (auto simp: snapshot_def)
  next
    case (Inr q)
    then obtain t hs where q: "r1 = Inr (t, hs)"
      by (cases q) auto
    with gs obtain root where root: "path (pv_kec env) hsh hs root" "derived env (pe_Epoch c) root t" and k: "keeps env c c1"
      by auto
    obtain r2 where app: "Snapshot_apply (pv_kec env) (pv_rcv env) (pe_signatures c1) t (rev hs) = Some r2"
      using assms(1) g q by (auto simp: snapshot_def split: op_splits)
    show ?thesis
    proof (cases r2)
      case (Inl e)
      then show ?thesis
        using assms(1) g q app k by (auto simp: snapshot_def)
    next
      case (Inr snap)
      let ?c2 = "c1\<lparr>pe_recents := pv_arc env (sn_Hash snap) snap (pe_recents c1)\<rparr>"
      have d: "derived env (pe_Epoch c1) hsh snap"
        using derived_path [OF root(2,1)] app Inr k Snapshot_apply_cache [of env c1] by (simp add: keeps_def store_ok_def)
      have k2: "keeps env c ?c2" and s2: "store_ok env ?c2" and a2: "pe_recents ?c2 (sn_Hash snap) = Some snap"
        using recents_keeps [OF _ d assms(5)] k assms(5) by (auto simp: keeps_def arc_ok_def)
      have "if sn_Number snap mod checkpointInterval = 0 \<and> hs \<noteq> [] then storeSnapshot env snap ?c2 = (r, c')
          else r = Inr snap \<and> c' = ?c2"
        using assms(1) g q app Inr by (auto simp: snapshot_def Let_def split: if_splits)
      then show ?thesis
        using storeSnapshot_keeps [OF s2, of hsh snap r c'] k k2 d a2 by (auto simp: keeps_def split: if_splits)
    qed
  qed
  then show "keeps env c c'" and "r = Inr s \<Longrightarrow> derived env (pe_Epoch c) hsh s"
    and "r = Inr s \<Longrightarrow> pe_recents c' (sn_Hash s) = Some s"
    by auto
qed

definition snapshot_fn_ok :: "poa_env \<Rightarrow> snapshot_fn \<Rightarrow> bool" where
  "snapshot_fn_ok env snapf \<longleftrightarrow> (\<forall>number hsh parents c r c'. store_ok env c \<longrightarrow> snapf number hsh parents c = Some (r, c') \<longrightarrow> keeps env c c')"

lemma snapshot_fn_okD: "snapshot_fn_ok env snapf \<Longrightarrow> store_ok env c \<Longrightarrow> snapf number hsh parents c = Some (r, c') \<Longrightarrow> keeps env c c'"
  by (auto simp: snapshot_fn_ok_def)

lemma verifySigner_keeps:
  assumes "verifySigner env snapf number header parents c = Some (e, c')" and "snapshot_fn_ok env snapf" and "store_ok env c"
  shows "keeps env c c'"
  using assms(1) by (auto simp: verifySigner_def split: op_splits intro: snapshot_fn_okD [OF assms(2,3)])

lemma PoA_verifySeal_keeps:
  assumes "PoA_verifySeal env snapf header parents c = Some (e, c')" and "snapshot_fn_ok env snapf" and "store_ok env c"
  shows "keeps env c c'"
  using assms(1,3) by (auto simp: PoA_verifySeal_def keeps_refl split: op_splits intro: snapshot_fn_okD [OF assms(2,3)])

lemma verifyCascadingFields_keeps:
  assumes "verifyCascadingFields env snapf header parents c = Some (e, c')" and "snapshot_fn_ok env snapf" and "store_ok env c"
  shows "keeps env c c'"
proof -
  have seal: "keeps env c c'" if "keeps env c c1" "PoA_verifySeal env snapf header parents c1 = Some (e, c')" for c1
    using keeps_trans [OF that(1)] PoA_verifySeal_keeps [OF that(2) assms(2)] that(1) by (simp add: keeps_def)
  show ?thesis
    using assms(1,3) by (auto simp: verifyCascadingFields_def Let_def keeps_refl split: op_splits
      intro: snapshot_fn_okD [OF assms(2,3)] seal)
qed

lemma verifyHeader_ok:
  assumes "chain_ok env" and "arc_ok env"
  shows "verifier_ok env (\<lambda>g c. verifyHeader k env now g parents c)"
proof (induction k arbitrary: parents)
  case 0
  then show ?case
    by (simp add: verifier_ok_def)
next
  case (Suc k)
  let ?f = "snapshot env (\<lambda>g c. verifyHeader k env now g [] c)"
  have f: "snapshot_fn_ok env ?f"
    using snapshot_keeps(1) [OF _ _ Suc [of "[]"] assms] by (auto simp: snapshot_fn_ok_def)
  have "keeps env c c'" if c: "store_ok env c" and v: "verifyHeader (Suc k) env now g parents c = Some (e, c')" for c g e c'
  proof (cases "verifyHeader_static (pv_kec env) (pe_Epoch c) now g")
    case (Some e0)
    show ?thesis
    proof (cases e0)
      case None
      then obtain n e1 c1 where *: "Number g = Some n"
        "(if big_Uint64 n \<noteq> 0 then verifySigner env ?f (big_Uint64 n) g parents c else Some (None, c)) = Some (e1, c1)"
        using v Some by (auto simp: Let_def split: op_splits)
      then have c1: "keeps env c c1"
        using c verifySigner_keeps [OF _ f c] by (auto simp: keeps_refl split: if_splits)
      have "c' = c1 \<or> verifyCascadingFields env ?f g parents c1 = Some (e, c')"
        using v Some None * by (auto simp: Let_def split: op_splits)
      then show ?thesis
        using c1 keeps_trans [OF c1] verifyCascadingFields_keeps [OF _ f] by (auto simp: keeps_def)
    qed (use c v Some in \<open>auto simp: keeps_refl\<close>)
  qed (use v in simp)
  then show ?case
    by (simp add: verifier_ok_def)
qed


text \<open>A header that the engine can hash and number.\<close>

definition header_ok :: "poa_env \<Rightarrow> Header \<Rightarrow> bool" where
  "header_ok env h \<longleftrightarrow> Number h \<noteq> None \<and> Header_Hash (pv_kec env) h \<noteq> None"

lemma applyHeader_total: "sn_Epoch s \<noteq> 0 \<Longrightarrow> header_ok env h \<Longrightarrow> applyHeader (pv_kec env) rcv cache h s \<noteq> None"
  by (auto simp: header_ok_def applyHeader_def ecrecover_def Let_def)

lemma applyHeaders_total:
  "sn_Epoch s \<noteq> 0 \<Longrightarrow> \<forall>h \<in> set hs. header_ok env h \<Longrightarrow> applyHeaders (pv_kec env) rcv cache hs s \<noteq> None"
proof (induction hs arbitrary: s)
  case (Cons h hs)
  then obtain r where "applyHeader (pv_kec env) rcv cache h s = Some r"
    using applyHeader_total [of s env h] by fastforce
  then show ?case
    using Cons by (cases r) (auto simp: applyHeader_epoch)
qed simp

lemma contiguous_total: "\<forall>h \<in> set hs. header_ok env h \<Longrightarrow> contiguous hs \<noteq> None"
  by (induction hs rule: contiguous.induct) (auto simp: header_ok_def)

lemma Snapshot_apply_total:
  assumes "sn_Epoch s \<noteq> 0" and "\<forall>h \<in> set hs. header_ok env h"
  shows "Snapshot_apply (pv_kec env) rcv cache s hs \<noteq> None"
proof (cases "hs = []")
  case False
  then have "header_ok env (hd hs)" "header_ok env (last hs)"
    using assms(2) by simp_all
  then show ?thesis
    using contiguous_total [OF assms(2)] applyHeaders_total [OF assms, of rcv cache]
    by (auto simp: Snapshot_apply_def header_ok_def split: sum.split)
qed (simp add: Snapshot_apply_Nil)

lemma genesis_verified:
  assumes "Number g = Some 0" and "Time g = Some t" and "Header_Hash (pv_kec env) g \<noteq> None" and "pe_Epoch c \<noteq> 0"
  shows "\<exists>e. verifyHeader (Suc k) env now g [] c = Some (e, c) \<and> (e = None \<longrightarrow> genesisSigners g \<noteq> None)"
proof -
  have "verifyHeader_static (pv_kec env) (pe_Epoch c) now g \<noteq> None"
    using assms(1,2,4) by (simp add: verifyHeader_static_def Let_def)
  then obtain e where e: "verifyHeader_static (pv_kec env) (pe_Epoch c) now g = Some e"
    by blast
  moreover have "genesisSigners g \<noteq> None" if "e = None"
  proof -
    have "\<not> length (Extra g) < extraVanity + extraSeal"
      using e that assms(1,2) by (auto simp: verifyHeader_static_def Let_def split: if_split_asm)
    then show ?thesis
      by (simp add: genesisSigners_def AddressLength_def)
  qed
  moreover have "\<exists>e. VerifyForkHashes env g False = Some e"
    using assms(1,3) by (auto simp: VerifyForkHashes_def split: option.split)
  ultimately show ?thesis
    using assms(1) by (cases e) (auto simp: big_Uint64_def verifyCascadingFields_def split: option.split)
qed

lemma pickHeader_total:
  assumes "\<forall>h \<in> set parents. header_ok env h" and "chain_ok env"
  shows "pickHeader env number hsh parents \<noteq> None \<and> (\<forall>h ps. pickHeader env number hsh parents = Some (Inr (h, ps)) \<longrightarrow>
    header_ok env h \<and> (\<forall>h \<in> set ps. header_ok env h))"
proof (cases "parents = []")
  case True
  then show ?thesis
    using assms(2) by (fastforce simp: pickHeader_def header_ok_def chain_ok_def split: option.splits)
next
  case False
  then have l: "header_ok env (last parents)" "\<forall>h \<in> set (butlast parents). header_ok env h"
    using assms(1) by (auto dest: in_set_butlastD)
  then obtain n k where "Number (last parents) = Some n" "Header_Hash (pv_kec env) (last parents) = Some k"
    by (auto simp: header_ok_def)
  then show ?thesis
    using l False by (auto simp: pickHeader_def Let_def)
qed

lemma gather_total:
  assumes "\<forall>h \<in> set parents. header_ok env h" and "chain_ok env"
    and "\<And>c. pe_Epoch c = epoch \<Longrightarrow> genesisSnapshot env vh c \<noteq> None" and "pe_Epoch c = epoch"
  shows "\<exists>r c'. gather env vh number hsh parents headers c = Some (r, c') \<and>
    (\<forall>s hs. r = Inr (s, hs) \<longrightarrow> (\<exists>hs'. hs = headers @ hs' \<and> length hs' \<le> unat number \<and> (\<forall>h \<in> set hs'. header_ok env h)))"
  using assms
proof (induction env vh number hsh parents headers c rule: gather.induct)
  case (1 env vh number hsh parents headers c)
  note step = gather.simps [of env vh number hsh parents headers c]
  show ?case
  proof (cases "pe_recents c hsh = None \<and> (if number mod checkpointInterval = 0 then loadSnapshot hsh c else None) = None")
    case False
    then show ?thesis
      unfolding step by (auto split: option.split if_splits)
  next
    case True
    note miss = conjunct1 [OF True] conjunct2 [OF True]
    show ?thesis
    proof (cases "number = 0")
      case True
      then obtain r c' where "genesisSnapshot env vh c = Some (r, c')"
        using 1(4) [OF 1(5)] by (metis not_None_eq surj_pair)
      then show ?thesis
        unfolding step using miss True by (cases r) auto
    next
      case False
      have p: "pickHeader env number hsh parents \<noteq> None"
        "pickHeader env number hsh parents = Some (Inr (h, ps)) \<Longrightarrow> header_ok env h \<and> (\<forall>h \<in> set ps. header_ok env h)" for h ps
        using pickHeader_total [OF 1(2,3)] by blast+
      then obtain q where q: "pickHeader env number hsh parents = Some q"
        by blast
      show ?thesis
      proof (cases q)
        case (Inl e)
        then show ?thesis
          unfolding step using miss False q by auto
      next
        case (Inr x)
        obtain h ps where x: "x = (h, ps)"
          by (cases x)
        have h: "header_ok env h" "\<forall>h \<in> set ps. header_ok env h"
          using p(2) q Inr x by auto
        have "gather env vh number hsh parents headers c = gather env vh (number - 1) (ParentHash h) ps (headers @ [h]) c"
          unfolding step using miss False q Inr x by simp
        moreover have "Suc (unat (number - 1)) = unat number"
          using False by (simp add: unat_minus_one unat_gt_0 [symmetric])
        ultimately show ?thesis
          using 1(1) [OF miss False q Inr x [symmetric] h(2) 1(3-5)] h(1) by fastforce
      qed
    qed
  qed
qed

text \<open>
  C31: finding a snapshot ends.  The walk back to a known snapshot stops at the latest at block zero, and no step
  of it panics: the engine returns a snapshot or an error.
\<close>

theorem snapshot_returns:
  assumes "chain_ok env" and "arc_ok env" and "store_ok env c" and "pe_Epoch c \<noteq> 0" and "\<forall>h \<in> set parents. header_ok env h"
    and "pv_GetHeaderByNumber env 0 = Some g" and "Number g = Some 0" and "Time g \<noteq> None" and "Header_Hash (pv_kec env) g \<noteq> None"
  shows "\<exists>r c'. snapshot env (\<lambda>g c. verifyHeader (Suc k) env now g [] c) number hsh parents c = Some (r, c')"
proof -
  let ?vh = "\<lambda>g c. verifyHeader (Suc k) env now g [] c"
  have "genesisSnapshot env ?vh d \<noteq> None" if "pe_Epoch d = pe_Epoch c" for d
  proof -
    have "pe_Epoch d \<noteq> 0"
      using that assms(4) by simp
    then obtain e where e: "?vh g d = Some (e, d)" "e = None \<longrightarrow> genesisSigners g \<noteq> None"
      using genesis_verified [OF assms(7) _ assms(9)] assms(8) by blast
    then show ?thesis
      using assms(6,9) by (auto simp: genesisSnapshot_def simp del: verifyHeader.simps split: option.split)
  qed
  from gather_total [OF assms(5,1) this refl] obtain r c' where r: "gather env ?vh number hsh parents [] c = Some (r, c')"
    "\<forall>s hs. r = Inr (s, hs) \<longrightarrow> (\<forall>h \<in> set hs. header_ok env h)"
    by (metis append_Nil)
  show ?thesis
  proof (cases r)
    case (Inl e)
    then show ?thesis
      using r(1) by (simp add: snapshot_def)
  next
    case (Inr x)
    then obtain s hs where x: "r = Inr (s, hs)"
      by (cases x) auto
    with gather_sound [OF r(1) assms(3) verifyHeader_ok [OF assms(1,2)] assms(1)] have "sn_Epoch s = pe_Epoch c"
      by (auto dest: derived_epoch)
    then have "Snapshot_apply (pv_kec env) (pv_rcv env) (pe_signatures c') s (rev hs) \<noteq> None"
      using r(2) x assms(4) by (intro Snapshot_apply_total) auto
    then show ?thesis
      using r(1) x by (auto simp: snapshot_def Let_def simp del: verifyHeader.simps split: sum.split)
  qed
qed

section \<open>An instance\<close>

definition sample_genesis :: Header where
  "sample_genesis = sample_header
     \<lparr>UncleHash := 7, Coinbase := 0, Number := Some 0, MixDigest := 0,
      Extra := replicate 32 0 @ be_bytes 20 (1 :: address) @ replicate 65 0\<rparr>"

definition sample_poa :: poa_env where
  "sample_poa =
     \<lparr>pv_kec = \<lambda>_. 7, pv_rcv = \<lambda>_ _. Inr 1, pv_iter = id, pv_arc = \<lambda>k v m. m(k \<mapsto> v), pv_put = \<lambda>_. None,
      pv_GetHeader = \<lambda>hsh n. if hsh = 7 \<and> n = 0 then Some sample_genesis else None,
      pv_GetHeaderByNumber = \<lambda>n. if n = 0 then Some sample_genesis else None,
      pv_EIP150Block = None, pv_EIP150Hash = 0\<rparr>"

lemma sample_genesis_simps [simp]:
  "Number sample_genesis = Some 0" "Time sample_genesis = Some 11" "Header_Hash (\<lambda>_. 7) sample_genesis = Some 7"
  by (simp_all add: sample_genesis_def sample_header_def Header_Hash_def rlpHash_def BFTDigest_def)

lemma sample_poa_ok: "chain_ok sample_poa" "arc_ok sample_poa" "store_ok sample_poa (PoA_New 5 100 Map.empty)"
  by (simp_all add: sample_poa_def chain_ok_def arc_ok_def store_ok_def sigs_ok_def PoA_New_def big_Uint64_def)

lemma genesisSigners_sample: "genesisSigners sample_genesis = Some [1]"
  by code_simp

lemma sample_snapshot:
  "snapshot sample_poa (\<lambda>g c. verifyHeader (Suc 0) sample_poa 20 g [] c) 0 7 [] (PoA_New 5 100 Map.empty) =
     Some (Inr (newSnapshot 100 0 7 [1]), (PoA_New 5 100 Map.empty)
       \<lparr>pe_db := [7 \<mapsto> newSnapshot 100 0 7 [1]], pe_recents := [7 \<mapsto> newSnapshot 100 0 7 [1]]\<rparr>)"
proof -
  have "verifyHeader_static (\<lambda>_. 7) 100 20 sample_genesis = Some None"
    by code_simp
  then have "verifyHeader (Suc 0) sample_poa 20 sample_genesis [] c = Some (None, c)" if "pe_Epoch c = 100" for c
    using that by (simp add: sample_poa_def big_Uint64_def VerifyForkHashes_def verifyCascadingFields_def)
  then show ?thesis
    by (simp add: snapshot_def gather.simps PoA_New_def loadSnapshot_def genesisSnapshot_def genesisSigners_sample
      sample_poa_def storeSnapshot_def store_def Snapshot_apply_Nil newSnapshot_def del: verifyHeader.simps)
qed


theorem snapshot_returns_witness:
  "\<exists>r c'. snapshot sample_poa (\<lambda>g c. verifyHeader (Suc 0) sample_poa 20 g [] c) 3 8 [] (PoA_New 5 100 Map.empty) = Some (r, c')"
  by (rule snapshot_returns [OF sample_poa_ok, of _ sample_genesis]) (simp_all add: PoA_New_def sample_poa_def)

end
