(* ===== verification/Poa_Produce.thy ===== *)
theory Poa_Produce
  imports Poa_Engine
begin

text \<open>
  The two sides of \<^verbatim>\<open>consensus/poa\<close> together: a header that one node prepares, finalises and seals is
  one that the other nodes accept.
\<close>

section \<open>Producing and verifying a block\<close>

text \<open>The snapshot of a block is in memory.\<close>

definition cached :: "hash \<Rightarrow> Snapshot \<Rightarrow> PoA \<Rightarrow> bool" where
  "cached hsh s c \<longleftrightarrow> pe_recents c hsh = Some s \<and> sn_Hash s = hsh"

lemma snapshot_cached:
  assumes "cached hsh s c" and "arc_ok env"
  shows "\<exists>m. snapshot env vh number hsh parents c = Some (Inr s, c\<lparr>pe_recents := m\<rparr>) \<and> cached hsh s (c\<lparr>pe_recents := m\<rparr>)"
  using assms
  by (intro exI [of _ "pv_arc env hsh s (pe_recents c)"]) (simp add: cached_def snapshot_def gather.simps [of env vh number hsh] Snapshot_apply_Nil arc_ok_def)

lemma length_checkpointSigners [simp]:
  "length (checkpointSigners env s) = length (signers (pv_iter env) s) * AddressLength"
  by (simp add: checkpointSigners_def length_concat comp_def sum_list_triv)

text \<open>What the checks of a header ask for.\<close>

definition sealed :: "poa_env \<Rightarrow> PoA \<Rightarrow> Snapshot \<Rightarrow> address \<Rightarrow> u64 \<Rightarrow> Header \<Rightarrow> bool" where
  "sealed env c s signer number h \<longleftrightarrow>
     UncleHash h = CalcUncleHash (pv_kec env) [] \<and> MixDigest h = 0 \<and>
     Nonce h \<in> {nonceAuthVote, nonceDropVote} \<and>
     (number mod pe_Epoch c = 0 \<longrightarrow> Coinbase h = 0 \<and> Nonce h = nonceDropVote) \<and>
     Difficulty h = Some (CalcDifficulty (pv_iter env) s signer) \<and>
     (\<exists>v sig. Extra h = v @ (if number mod pe_Epoch c = 0 then checkpointSigners env s else []) @ sig \<and>
        length v = extraVanity \<and> length sig = extraSeal \<and> pv_rcv env (sigHash (pv_kec env) h) sig = Inr signer)"

lemma CalcDifficulty_pos: "sn_Signers s \<noteq> [] \<Longrightarrow> 0 < CalcDifficulty iter s a"
  by (simp add: CalcDifficulty_def Let_def diffMax_def pos_imp_zdiv_nonneg_iff add_nonneg_pos)

lemma sealed_ecrecover:
  assumes "sealed env c s signer number h" and "sigs_ok env c"
  shows "ecrecover (pv_kec env) (pv_rcv env) (pe_signatures c) h = Some (Inr signer)"
  unfolding ecrecover_cache [OF assms(2)]
  using assms(1) by (auto simp: sealed_def ecrecover_def Header_Hash_def BFTDigest_def extraSeal_def)

lemma sealed_static:
  assumes "sealed env c s signer (big_Uint64 n) h" and "pe_Epoch c \<noteq> 0" and "Number h = Some n" and "Time h = Some t" and "t \<le> now"
  shows "verifyHeader_static (pv_kec env) (pe_Epoch c) now h = Some None"
  using assms
  by (cases "big_Uint64 n mod pe_Epoch c = 0")
    (auto simp: sealed_def verifyHeader_static_def Let_def go_cmp_def extraVanity_def extraSeal_def)

lemma verifyHeader_accepts:
  assumes h: "sealed env c s signer (big_Uint64 n) h" "Number h = Some n" "big_Uint64 n \<noteq> 0" "Time h = Some t" "t \<le> now"
    and c: "pe_Epoch c \<noteq> 0" "cached (ParentHash h) s c" "sigs_ok env c" and env: "arc_ok env" "chain_ok env"
    and signer: "checkSigner s (big_Uint64 n) signer = None"
    and fork: "VerifyForkHashes env h False = Some None"
    and parent: "pv_GetHeader env (ParentHash h) (big_Uint64 n - 1) = Some p" "Time p = Some pt"
      "big_Uint64 pt + pe_Period c \<le> big_Uint64 t"
  shows "\<exists>c'. verifyHeader (Suc k) env now h [] c = Some (None, c')"
proof -
  let ?f = "snapshot env (\<lambda>g c. verifyHeader k env now g [] c)"
  have hit: "\<exists>m. ?f (big_Uint64 n - 1) (ParentHash h) [] c = Some (Inr s, c\<lparr>pe_recents := m\<rparr>) \<and> cached (ParentHash h) s (c\<lparr>pe_recents := m\<rparr>)"
    if "cached (ParentHash h) s c" for c
    using that env(1) by (rule snapshot_cached)
  obtain m1 where 1: "?f (big_Uint64 n - 1) (ParentHash h) [] c = Some (Inr s, c\<lparr>pe_recents := m1\<rparr>)" "cached (ParentHash h) s (c\<lparr>pe_recents := m1\<rparr>)"
    using hit [OF c(2)] by blast
  obtain m2 where 2: "?f (big_Uint64 n - 1) (ParentHash h) [] (c\<lparr>pe_recents := m1\<rparr>) = Some (Inr s, c\<lparr>pe_recents := m2\<rparr>)" "cached (ParentHash h) s (c\<lparr>pe_recents := m2\<rparr>)"
    using hit [OF 1(2)] by auto
  obtain m3 where 3: "?f (big_Uint64 n - 1) (ParentHash h) [] (c\<lparr>pe_recents := m2\<rparr>) = Some (Inr s, c\<lparr>pe_recents := m3\<rparr>)"
    using hit [OF 2(2)] by auto
  have d: "Difficulty h = Some (CalcDifficulty (pv_iter env) s signer)" "0 < CalcDifficulty (pv_iter env) s signer"
    using h(1) signer by (auto simp: sealed_def checkSigner_def intro!: CalcDifficulty_pos split: if_splits)
  note ec = sealed_ecrecover [OF h(1) c(3)]
  have "verifySigner env ?f (big_Uint64 n) h [] c = Some (None, c\<lparr>pe_recents := m1\<rparr>)"
    by (simp add: verifySigner_def 1 ec signer d)
  moreover have "PoA_verifySeal env ?f h [] (c\<lparr>pe_recents := m2\<rparr>) = Some (None, c\<lparr>pe_recents := m3\<rparr>)"
    using d by (simp add: PoA_verifySeal_def h 3 verifySeal_def ec signer)
  moreover have "parentMismatch env (big_Uint64 n) h p = Some False"
    using env(2) parent(1) by (fastforce simp: chain_ok_def parentMismatch_def)
  moreover have "take (length (Extra h) - extraSeal - extraVanity) (drop extraVanity (Extra h)) = checkpointSigners env s"
    if "big_Uint64 n mod pe_Epoch c = 0"
    using h(1) that by (auto simp: sealed_def)
  ultimately have "verifyCascadingFields env ?f h [] (c\<lparr>pe_recents := m1\<rparr>) = Some (None, c\<lparr>pe_recents := m3\<rparr>)"
    using parent h by (auto simp: verifyCascadingFields_def headerParent_def Let_def 2 not_less)
  then show ?thesis
    using sealed_static [OF h(1) c(1) h(2,4,5)] h(2,3) fork \<open>verifySigner env ?f _ h [] c = _\<close> by simp
qed

lemma chooseVote_cases:
  obtains "chooseVote r s c h = h"
  | a n where "chooseVote r s c h = h\<lparr>Coinbase := a, Nonce := n\<rparr>" "n \<in> {nonceAuthVote, nonceDropVote}"
proof -
  have "chooseVote r s c h = h \<or> (\<exists>a b. chooseVote r s c h = h\<lparr>Coinbase := a, Nonce := (if b then nonceAuthVote else nonceDropVote)\<rparr>)"
    unfolding chooseVote_def Let_def case_prod_beta by (cases "filter (\<lambda>p. validVote s (fst p) (snd p)) (pe_proposals c) = []") auto
  then show thesis
    using that by auto
qed

lemma Prepare_result:
  assumes "Prepare env f now r h c = Some (None, h1, c1)" and "Number h = Some n"
    and "f (big_Uint64 n - 1) (ParentHash h) [] c = Some (Inr s, c\<lparr>pe_recents := m\<rparr>)"
    and "pv_GetHeader env (ParentHash h) (big_Uint64 n - 1) = Some p" and "Time p = Some pt"
  obtains a k where "k \<in> {nonceAuthVote, nonceDropVote}" "pe_Epoch c \<noteq> 0" "c1 = c\<lparr>pe_recents := m\<rparr>"
    "big_Uint64 n mod pe_Epoch c = 0 \<Longrightarrow> a = 0 \<and> k = nonceDropVote"
    "h1 = h\<lparr>Coinbase := a, Nonce := k, Difficulty := Some (CalcDifficulty (pv_iter env) s (pe_signer c)),
       Extra := prepareExtra env (big_Uint64 n mod pe_Epoch c = 0) s (Extra h), MixDigest := 0,
       Time := Some (if big_Int64 (pt + uint (pe_Period c)) < now then now else pt + uint (pe_Period c))\<rparr>"
proof (cases "big_Uint64 n mod pe_Epoch c = 0")
  case True
  then show thesis
    using assms that [of nonceDropVote 0] by (auto simp: Prepare_def Let_def nonceDropVote_def split: if_splits)
next
  case False
  show thesis
  proof (cases rule: chooseVote_cases [of r s "c\<lparr>pe_recents := m\<rparr>" "h\<lparr>Coinbase := 0, Nonce := 0\<rparr>"])
    case 1
    then show thesis
      using assms False that [of nonceDropVote 0] by (auto simp: Prepare_def Let_def nonceDropVote_def split: if_splits)
  next
    case (2 a k)
    then show thesis
      using assms False that [of k a] by (auto simp: Prepare_def Let_def split: if_splits)
  qed
qed

lemma Seal_result:
  assumes "Seal env f sign False block c = Some (Inr (Some b), c1)" and "Number (Block_Header block) = Some n"
    and "f (big_Uint64 n - 1) (ParentHash (Block_Header block)) [] c = Some (Inr s, c\<lparr>pe_recents := m\<rparr>)"
  obtains sighash where "sign (sigHash (pv_kec env) (Block_Header block)) = Inr sighash" "big_Uint64 n \<noteq> 0"
    "checkSigner s (big_Uint64 n) (pe_signer c) = None"
    "bl_header b = (Block_Header block)\<lparr>Extra := putSeal sighash (Extra (Block_Header block))\<rparr>"
proof -
  have *: "big_Uint64 n \<noteq> 0" "pe_signer c \<in> set (sn_Signers s)"
    "\<not> signedRecently s (big_Uint64 n) (pe_signer c)"
    "\<exists>sighash. sign (sigHash (pv_kec env) (Block_Header block)) = Inr sighash \<and>
      b = WithSeal block ((Block_Header block)\<lparr>Extra := putSeal sighash (Extra (Block_Header block))\<rparr>)"
    using assms(1) by (auto simp: Seal_def Let_def assms(2,3) split: if_split_asm sum.split_asm)
  have "checkSigner s (big_Uint64 n) (pe_signer c) = None"
    using *(2,3) by (auto simp: checkSigner_def signedRecently_def)
  then show thesis
    using *(4) that [OF _ *(1)] by (auto simp: WithSeal_def)
qed

lemma putSeal_append: "length z = extraSeal \<Longrightarrow> length sig = extraSeal \<Longrightarrow> putSeal sig (x @ z) = x @ sig"
  by (simp add: putSeal_def)

lemma sigHash_seal:
  "length z = extraSeal \<Longrightarrow> length sig = extraSeal \<Longrightarrow> Extra h = x @ z \<Longrightarrow> sigHash kec (h\<lparr>Extra := x @ sig\<rparr>) = sigHash kec h"
  by (simp add: sigHash_def)

lemma big_Int64_id: "0 \<le> x \<Longrightarrow> x < 2 ^ 63 \<Longrightarrow> big_Int64 x = x"
  unfolding big_Int64_def signed_of_int of_int_eq_id id_apply by (rule signed_take_bit_int_eq_self) simp_all

lemma big_Uint64_time:
  assumes "0 \<le> x" and "x + uint p \<le> y" and "y < 2 ^ 63"
  shows "big_Uint64 x + p \<le> big_Uint64 y"
proof -
  have "0 \<le> uint p" and "(2 :: int) ^ 63 < 2 ^ 64"
    by simp_all
  with assms have "x < 2 ^ 64" "0 \<le> y" "y < 2 ^ 64" "x + uint p < 2 ^ 64"
    by linarith+
  with assms(1) have "uint (big_Uint64 x) = x" "uint (big_Uint64 y) = y" "x + uint p < 2 ^ 64"
    by (simp_all only: uint_big_Uint64)
  then show ?thesis
    using assms(1,2) by (simp add: word_le_def uint_word_ariths)
qed

lemma prepareExtra_split:
  "\<exists>v. length v = extraVanity \<and>
     prepareExtra env cp s x = (v @ (if cp then checkpointSigners env s else [])) @ replicate extraSeal 0"
  by (simp add: prepareExtra_def extraVanity_def)

text \<open>The header that an engine with the snapshot of the parent in memory produces.\<close>

lemma produced_sealed:
  assumes "arc_ok env" and "cached (ParentHash h) s c" and "Number h = Some n"
    and "pv_GetHeader env (ParentHash h) (big_Uint64 n - 1) = Some p" and "Time p = Some pt"
    and "Prepare env (snapshot env vh) now r h c = Some (None, h1, c1)"
    and "Seal env (snapshot env vh) sign False (Finalize (pv_kec env) root proto tsha rsha bloom txs h1) c1 = Some (Inr (Some b), c2)"
    and "\<And>m sig. sign m = Inr sig \<Longrightarrow> length sig = extraSeal \<and> pv_rcv env m sig = Inr (pe_signer c)"
  shows "sealed env c s (pe_signer c) (big_Uint64 n) (bl_header b)" and "pe_Epoch c \<noteq> 0" and "big_Uint64 n \<noteq> 0"
    and "checkSigner s (big_Uint64 n) (pe_signer c) = None" and "Number (bl_header b) = Some n" and "ParentHash (bl_header b) = ParentHash h"
    and "Time (bl_header b) = Some (if big_Int64 (pt + uint (pe_Period c)) < now then now else pt + uint (pe_Period c))"
proof -
  obtain m where m: "snapshot env vh (big_Uint64 n - 1) (ParentHash h) [] c = Some (Inr s, c\<lparr>pe_recents := m\<rparr>)"
    "cached (ParentHash h) s (c\<lparr>pe_recents := m\<rparr>)"
    using snapshot_cached [OF assms(2,1)] by blast
  obtain a l where h1: "l \<in> {nonceAuthVote, nonceDropVote}" "pe_Epoch c \<noteq> 0" "c1 = c\<lparr>pe_recents := m\<rparr>"
    "big_Uint64 n mod pe_Epoch c = 0 \<Longrightarrow> a = 0 \<and> l = nonceDropVote"
    "h1 = h\<lparr>Coinbase := a, Nonce := l, Difficulty := Some (CalcDifficulty (pv_iter env) s (pe_signer c)),
       Extra := prepareExtra env (big_Uint64 n mod pe_Epoch c = 0) s (Extra h), MixDigest := 0,
       Time := Some (if big_Int64 (pt + uint (pe_Period c)) < now then now else pt + uint (pe_Period c))\<rparr>"
    by (rule Prepare_result [OF assms(6,3) m(1) assms(4,5)]) blast
  define t where "t = (if big_Int64 (pt + uint (pe_Period c)) < now then now else pt + uint (pe_Period c))"
  have F: "Number h1 = Some n" "ParentHash h1 = ParentHash h" "Coinbase h1 = a" "Nonce h1 = l" "MixDigest h1 = 0" "Time h1 = Some t"
    "Difficulty h1 = Some (CalcDifficulty (pv_iter env) s (pe_signer c))"
    "Extra h1 = prepareExtra env (big_Uint64 n mod pe_Epoch c = 0) s (Extra h)"
    unfolding h1(5) t_def by (simp_all add: assms(3))
  let ?b = "Finalize (pv_kec env) root proto tsha rsha bloom txs h1" and ?H = "bl_header b"
  have B: "Block_Header ?b = h1\<lparr>Root := root, UncleHash := CalcUncleHash (pv_kec env) [], DposContext := Some proto,
      TxHash := tsha, ReceiptHash := rsha, Bloom := bloom\<rparr>"
    by (simp add: Finalize_def Block_Header_def CopyHeader_def F)
  obtain m' where m': "snapshot env vh (big_Uint64 n - 1) (ParentHash h) [] c1 = Some (Inr s, c1\<lparr>pe_recents := m'\<rparr>)"
    using snapshot_cached [OF m(2) [folded h1(3)] assms(1)] by blast
  have N: "Number (Block_Header ?b) = Some n" "ParentHash (Block_Header ?b) = ParentHash h"
    by (simp_all add: B F)
  obtain sig where sig: "sign (sigHash (pv_kec env) (Block_Header ?b)) = Inr sig" "big_Uint64 n \<noteq> 0"
    "checkSigner s (big_Uint64 n) (pe_signer c1) = None"
    "?H = (Block_Header ?b)\<lparr>Extra := putSeal sig (Extra (Block_Header ?b))\<rparr>"
    by (rule Seal_result [OF assms(7) N(1) m' [folded N(2)]])
  note signed = assms(8) [OF sig(1)]
  obtain u where u: "length u = extraVanity" "Extra (Block_Header ?b) =
      (u @ (if big_Uint64 n mod pe_Epoch c = 0 then checkpointSigners env s else [])) @ replicate extraSeal 0"
    using prepareExtra_split [of env "big_Uint64 n mod pe_Epoch c = 0" s "Extra h"] by (auto simp: B F)
  have H: "?H = (Block_Header ?b)\<lparr>Extra := (u @ (if big_Uint64 n mod pe_Epoch c = 0 then checkpointSigners env s else [])) @ sig\<rparr>"
    unfolding sig(4) u(2) using signed by (simp only: putSeal_append length_replicate)
  have hsh: "sigHash (pv_kec env) ?H = sigHash (pv_kec env) (Block_Header ?b)"
    unfolding H by (rule sigHash_seal [OF _ _ u(2)]) (use signed in simp_all)
  have "Extra ?H = u @ (if big_Uint64 n mod pe_Epoch c = 0 then checkpointSigners env s else []) @ sig \<and>
      length u = extraVanity \<and> length sig = extraSeal \<and> pv_rcv env (sigHash (pv_kec env) ?H) sig = Inr (pe_signer c)"
    unfolding hsh using signed u(1) by (simp add: H)
  moreover have "UncleHash ?H = CalcUncleHash (pv_kec env) []" "MixDigest ?H = 0" "Nonce ?H = l" "Coinbase ?H = a"
    "Difficulty ?H = Some (CalcDifficulty (pv_iter env) s (pe_signer c))"
    by (simp_all add: H B F)
  ultimately have sealed: "sealed env c s (pe_signer c) (big_Uint64 n) ?H"
    unfolding sealed_def using h1(1,4) by (intro conjI) (simp | blast)+
  then show "sealed env c s (pe_signer c) (big_Uint64 n) ?H" .
  show "pe_Epoch c \<noteq> 0" "big_Uint64 n \<noteq> 0" "checkSigner s (big_Uint64 n) (pe_signer c) = None"
    using h1(2,3) sig(2,3) by simp_all
  show "Number ?H = Some n" "ParentHash ?H = ParentHash h"
    "Time ?H = Some (if big_Int64 (pt + uint (pe_Period c)) < now then now else pt + uint (pe_Period c))"
    by (simp_all add: H B F t_def)
qed


section \<open>An instance\<close>

definition sample_engine :: PoA where
  "sample_engine = (Authorize 1 (PoA_New 5 100 Map.empty))\<lparr>pe_recents := [7 \<mapsto> newSnapshot 100 0 7 [1]]\<rparr>"

definition sample_draft :: Header where
  "sample_draft = sample_header\<lparr>ParentHash := 7, Number := Some 1, Extra := []\<rparr>"

definition sample_prepared :: Header where
  "sample_prepared = sample_draft
     \<lparr>Coinbase := 0, Nonce := 0, Difficulty := Some 1005, Extra := replicate 97 0, MixDigest := 0, Time := Some 20\<rparr>"

definition sample_final :: Block where
  "sample_final = Finalize (\<lambda>_. 7) 0 \<lparr>EpochHash = 0, DelegateHash = 0, CandidateHash = 0, VoteHash = 0, MintCntHash = 0\<rparr> 0 0 0
     [] sample_prepared"

lemma sample_engine_cached: "cached 7 (newSnapshot 100 0 7 [1]) sample_engine"
  by (simp add: cached_def sample_engine_def newSnapshot_def)

lemma sample_engine_snapshot:
  "snapshot sample_poa vh n 7 ps sample_engine = Some (Inr (newSnapshot 100 0 7 [1]), sample_engine)"
proof -
  have "gather sample_poa vh n 7 ps [] sample_engine = Some (Inr (newSnapshot 100 0 7 [1], []), sample_engine)"
    by (subst gather.simps) (simp add: sample_engine_def)
  moreover have "sample_engine\<lparr>pe_recents := (pe_recents sample_engine)(7 \<mapsto> newSnapshot 100 0 7 [1])\<rparr> = sample_engine"
    by (simp add: sample_engine_def)
  ultimately show ?thesis
    by (simp add: snapshot_def Snapshot_apply_Nil) (simp add: sample_poa_def newSnapshot_def)
qed

lemma sample_engine_Prepare:
  "Prepare sample_poa (snapshot sample_poa (\<lambda>_ _. None)) 20 0 sample_draft sample_engine = Some (None, sample_prepared, sample_engine)"
proof -
  have "CalcDifficulty id (newSnapshot 100 0 7 [1]) 1 = 1005" "big_Int64 16 = 16"
    by code_simp+
  moreover have "prepareExtra sample_poa False (newSnapshot 100 0 7 [1]) [] = replicate 97 0"
    by (simp add: prepareExtra_def extraVanity_def extraSeal_def flip: replicate_add)
  moreover have "pe_signer sample_engine = 1" "pe_Epoch sample_engine = 100" "pe_Period sample_engine = 5" "pe_proposals sample_engine = []"
    by (simp_all add: sample_engine_def Authorize_def PoA_New_def)
  moreover have "pv_iter sample_poa = id" "pv_GetHeader sample_poa 7 0 = Some sample_genesis"
    by (simp_all add: sample_poa_def)
  moreover have "chooseVote 0 s sample_engine h = h" for s h
    by (simp add: chooseVote_def sample_engine_def Authorize_def PoA_New_def)
  ultimately show ?thesis
    by (simp add: Prepare_def Let_def sample_draft_def sample_engine_snapshot sample_prepared_def big_Uint64_def)
qed

lemma sample_engine_Seal:
  "\<exists>b. Seal sample_poa (snapshot sample_poa (\<lambda>_ _. None)) (\<lambda>_. Inr (replicate 65 0)) False sample_final sample_engine =
     Some (Inr (Some b), sample_engine) \<and> Time (bl_header b) = Some 20"
proof -
  have "pe_signer sample_engine = 1" "pe_Period sample_engine = 5"
    by (simp_all add: sample_engine_def Authorize_def PoA_New_def)
  moreover have "Block_Header sample_final = bl_header sample_final" "Number (bl_header sample_final) = Some 1"
    "ParentHash (bl_header sample_final) = 7" "Time (bl_header sample_final) = Some 20" "length (Extra (bl_header sample_final)) = 97"
    by (simp_all add: Block_Header_def sample_final_def Finalize_def CopyHeader_def sample_prepared_def sample_draft_def sample_header_def)
  ultimately show ?thesis
    by (simp add: Seal_def Let_def sample_engine_snapshot big_Uint64_def WithSeal_def)
      (simp add: newSnapshot_def signedRecently_def extraSeal_def)
qed


end
