(* ===== verification/Poa_Recents.thy ===== *)
theory Poa_Recents
  imports Poa_Snapshot
begin

text \<open>
  The list of recent signers in a snapshot of \<^verbatim>\<open>consensus/poa\<close>: it only holds blocks inside the window
  of \<open>len/2 + 1\<close> blocks, whatever happens to the set of signers.
\<close>

definition window :: "nat \<Rightarrow> Snapshot \<Rightarrow> bool" where
  "window N s \<longleftrightarrow> (\<forall>(k, a) \<in> set (sn_Recents s). N < unat k + unat (limit s))"

lemma unat_limit: "length (sn_Signers s) < 2 ^ 64 \<Longrightarrow> unat (limit s) = length (sn_Signers s) div 2 + 1"
  unfolding limit_def unsigned_of_nat of_nat_id by (rule take_bit_nat_eq_self) simp

lemma dropRecent_window:
  assumes "\<forall>(k, a) \<in> set (sn_Recents s). unat number \<le> unat k + unat (limit s)"
  shows "window (unat number) (dropRecent number s)"
proof -
  have "unat number < unat k + unat (limit s)" if "(k, a) \<in> set (sn_Recents (dropRecent number s))" for k a
  proof (cases "limit s \<le> number")
    case True
    then have k: "(k, a) \<in> set (sn_Recents s)" "k \<noteq> number - limit s"
      using that by (auto simp: dropRecent_def AList.delete_eq)
    have "unat number \<noteq> unat k + unat (limit s)"
    proof
      assume "unat number = unat k + unat (limit s)"
      then have "k = number - limit s"
        by (simp add: word_unat_eq_iff unat_sub_if')
      with k(2) show False ..
    qed
    then show ?thesis
      using assms k(1) by fastforce
  next
    case False
    then show ?thesis
      by (simp add: word_le_nat_alt)
  qed
  then show ?thesis
    by (auto simp: window_def limit_def)
qed

lemma set_update: "set (AList.update k v xs) \<subseteq> insert (k, v) (set xs)"
  by (induction xs) auto

lemma window_mono: "window N s \<Longrightarrow> set (sn_Recents s') \<subseteq> set (sn_Recents s) \<Longrightarrow> limit s \<le> limit s' \<Longrightarrow> window N s'"
  by (fastforce simp: window_def word_le_nat_alt)

lemma passVote_window:
  assumes "snap_inv s" and "window N s" and "unat number = N" and "length (sn_Signers s) < 2 ^ 64 - 2"
  shows "window N (passVote number addr s) \<and> length (sn_Signers (passVote number addr s)) \<le> Suc (length (sn_Signers s))"
  using assms(1)
proof (cases rule: passVote_cases [where number = number and addr = addr])
  case idle
  then show ?thesis
    using assms(2) by simp
next
  case (add T)
  have "limit s \<le> limit (passVote number addr s)"
    unfolding word_le_nat_alt using assms(4) by (subst (1 2) unat_limit) (simp_all add: add(3))
  then show ?thesis
    using window_mono [OF assms(2)] by (simp add: add(3))
next
  case (drop T)
  let ?t = "s\<lparr>sn_Signers := removeAll addr (sn_Signers s)\<rparr>"
  have len: "Suc (length (removeAll addr (sn_Signers s))) = length (sn_Signers s)"
    using assms(1) drop(2) length_pos_if_in_set [OF drop(2)]
    by (simp add: snap_inv_def distinct_remove1_removeAll [symmetric] length_remove1)
  with assms(4) have "unat (limit s) = length (sn_Signers s) div 2 + 1"
    "unat (limit ?t) = length (removeAll addr (sn_Signers s)) div 2 + 1"
    using unat_limit [of s] unat_limit [of ?t] by simp_all
  with len have "unat (limit s) \<le> Suc (unat (limit ?t))"
    by linarith
  then have "window (unat number) (dropRecent number ?t)"
    using assms(2,3) by (intro dropRecent_window) (fastforce simp: window_def)
  moreover have "limit (passVote number addr s) = limit (dropRecent number ?t)"
    by (simp add: drop(3) limit_def)
  ultimately show ?thesis
    using assms(3) len by (simp add: drop(3) window_def)
qed

lemma applyHeader_window:
  assumes "applyHeader kec rcv cache h s = Some (Inr s')" and "snap_inv s" and "window N s"
    and "map_option (unat \<circ> big_Uint64) (Number h) = Some (Suc N)" and "length (sn_Signers s) < 2 ^ 64 - 2"
  shows "window (Suc N) s' \<and> length (sn_Signers s') \<le> Suc (length (sn_Signers s))"
  using assms(1)
proof (cases rule: applyHeader_cases)
  case (1 n signer authorize s1 s2)
  let ?s3 = "tallyUp signer (big_Uint64 n) (Coinbase h) authorize s2"
  have n: "unat (big_Uint64 n) = Suc N"
    using assms(4) 1(1) by simp
  have "window (Suc N) s1"
    unfolding 1(3) n [symmetric]
    by (rule dropRecent_window) (use assms(3) n in \<open>auto simp: window_def limit_def\<close>)
  moreover have "limit ?s3 = limit s1" "set (sn_Recents ?s3) \<subseteq> insert (big_Uint64 n, signer) (set (sn_Recents s1))"
    using set_update [of "big_Uint64 n" signer "sn_Recents s1"] by (auto simp: 1(7) limit_def)
  moreover have "0 < unat (limit s1)"
    using assms(5) by (subst unat_limit) (simp_all add: 1(3))
  ultimately have w: "window (Suc N) ?s3"
    using n by (fastforce simp: window_def)
  have inv: "snap_inv (s1\<lparr>sn_Recents := AList.update (big_Uint64 n) signer (sn_Recents s1)\<rparr>)"
    using assms(2) by (simp add: 1(3) clearVotes_inv)
  note s2 = discardVote_inv [OF inv, where signer = signer and addr = "Coinbase h", folded 1(7)]
  have "snap_inv ?s3"
    by (rule tallyUp_inv [OF s2(1)]) (use s2(2) 1(3,5,7) in auto)
  moreover have len: "sn_Signers ?s3 = sn_Signers s"
    by (simp add: 1(3,7))
  ultimately show ?thesis
    using passVote_window [OF _ w n, of "Coinbase h"] assms(5) by (simp add: 1(9))
qed

lemma applyHeaders_window:
  assumes "applyHeaders kec rcv cache hs s = Some (Inr s')" and "snap_inv s" and "window N s"
    and "numbered (of_nat (Suc N)) hs" and "N + length hs < 2 ^ 64" and "length (sn_Signers s) + length hs < 2 ^ 64 - 2"
  shows "window (N + length hs) s' \<and> length (sn_Signers s') \<le> length (sn_Signers s) + length hs"
  using assms
proof (induction hs arbitrary: s N)
  case (Cons h hs)
  obtain t where t: "applyHeader kec rcv cache h s = Some (Inr t)" "applyHeaders kec rcv cache hs t = Some (Inr s')"
    using Cons.prems(1) by (auto split: op_splits)
  have "map_option (unat \<circ> big_Uint64) (Number h) = Some (Suc N)"
    using Cons.prems(4,5) by (auto simp: unsigned_of_nat take_bit_nat_eq_self simp del: of_nat_Suc)
  from applyHeader_window [OF t(1) Cons.prems(2,3) this] have w: "window (Suc N) t" "length (sn_Signers t) \<le> Suc (length (sn_Signers s))"
    using Cons.prems(6) by simp_all
  have "numbered (of_nat (Suc (Suc N))) hs"
    using Cons.prems(4) by (simp add: add_ac)
  from Cons.IH [OF t(2) applyHeader_inv [OF t(1) Cons.prems(2)] w(1) this] show ?case
    using Cons.prems(5,6) w(2) by simp
qed simp

lemma Snapshot_apply_window:
  assumes "Snapshot_apply kec rcv cache (newSnapshot epoch 0 hsh ss) hs = Some (Inr s)"
    and "length ss < 2 ^ 62" and "length hs < 2 ^ 62"
  shows "window (length hs) s \<and> sn_Number s = of_nat (length hs)"
proof (cases "hs = []")
  case True
  with assms(1) show ?thesis
    by (auto simp: Snapshot_apply_Nil newSnapshot_def window_def)
next
  case False
  let ?g = "newSnapshot epoch 0 hsh ss"
  obtain t h where t: "numbered 1 hs" "applyHeaders kec rcv cache hs ?g = Some (Inr t)" "s = relabel (of_nat (length hs)) h t"
    using assms(1) unfolding Snapshot_apply_iff [OF False] by (auto simp: newSnapshot_def)
  have "length (remdups ss) < 2 ^ 62"
    using assms(2) by (rule le_less_trans [OF length_remdups_leq])
  then have "window (length hs) t"
    using applyHeaders_window [OF t(2) newSnapshot_inv, of 0] t(1) assms(3)
    by (simp add: newSnapshot_def window_def)
  then show ?thesis
    by (simp add: t(3) window_def limit_def)
qed

text \<open>
  C32: an accepted block can be built on.  From block \<open>len/2 + 1\<close> on, a header whose seal passes the check
  against the snapshot of its parent can be applied to this snapshot, so that the next block has a snapshot to
  be checked against.
\<close>

theorem verified_header_applies:
  assumes "Snapshot_apply kec rcv cache (newSnapshot epoch 0 hsh ss) hs = Some (Inr s)"
    and "length ss < 2 ^ 62" and "length hs < 2 ^ 62" and "epoch \<noteq> 0"
    and "verifySeal kec rcv cache s h = Some None" and "Number h = Some n" and "big_Uint64 n = sn_Number s + 1"
    and "limit s \<le> big_Uint64 n" and "Nonce h = nonceAuthVote \<or> Nonce h = nonceDropVote"
  shows "\<exists>s'. Snapshot_apply kec rcv cache s [h] = Some (Inr s')"
proof -
  note w = Snapshot_apply_window [OF assms(1-3)]
  obtain signer where signer: "ecrecover kec rcv cache h = Some (Inr signer)" "checkSigner s (big_Uint64 n) signer = None"
    using assms(5,6) by (auto simp: verifySeal_def split: op_splits)
  have n: "unat (big_Uint64 n) = Suc (length hs)"
    using w assms(3,7) by (simp add: unat_word_ariths unsigned_of_nat take_bit_nat_eq_self)
  have "signer \<notin> snd ` set (sn_Recents (dropRecent (big_Uint64 n) (clearVotes (big_Uint64 n) s)))"
  proof clarsimp
    fix k
    assume "(k, signer) \<in> set (sn_Recents (dropRecent (big_Uint64 n) (clearVotes (big_Uint64 n) s)))"
    then have k: "(k, signer) \<in> set (sn_Recents s)" "k \<noteq> big_Uint64 n - limit s"
      using assms(8) by (auto simp: dropRecent_def AList.delete_eq limit_def)
    then have "k \<le> big_Uint64 n - limit s"
      using signer(2) by (auto simp: checkSigner_def split: if_splits)
    moreover have "Suc (length hs) \<le> unat k + unat (limit s)"
      using w k(1) by (auto simp: window_def)
    ultimately have "unat k = unat (big_Uint64 n - limit s)"
      using assms(8) n by (simp add: word_le_nat_alt unat_sub_if')
    with k(2) show False
      by (simp add: word_unat_eq_iff)
  qed
  moreover have "signer \<in> set (sn_Signers s)" "sn_Epoch s = epoch" "\<exists>hsh. Header_Hash kec h = Some hsh"
    using signer Snapshot_apply_epoch [OF assms(1)]
    by (auto simp: checkSigner_def newSnapshot_def ecrecover_def split: if_splits op_splits)
  ultimately show ?thesis
    using assms(4,6,7,9) signer(1) by (auto simp: Snapshot_apply_def applyHeader_def Let_def)
qed

theorem verified_header_applies_witness:
  "\<exists>s'. Snapshot_apply (\<lambda>_. 7) (\<lambda>_ _. Inr 1) (\<lambda>_. None) (newSnapshot 100 0 0 [1]) [poa_header 1 9 nonceAuthVote] = Some (Inr s')"
  by (rule verified_header_applies [of _ _ _ 100 0 "[1]" "[]" _ _ 1])
    (simp_all add: Snapshot_apply_Nil verifySeal_def checkSigner_def newSnapshot_def big_Uint64_def limit_def)

end
