(* ===== verification/Trie_Encoding.thy ===== *)
theory Trie_Encoding
  imports RLP_Raw
begin

text \<open>
  \<^verbatim>\<open>trie/encoding.go\<close>: the three forms of a trie key.  Key bytes are what callers use, a hex key has one
  nibble per byte and may end with the terminator 16, and the compact form packs a hex key for storage.  A
  result of \<open>None\<close> is an index out of range or the explicit panic of \<open>hexToKeybytes\<close>.
\<close>

section \<open>Conversions\<close>

definition hasTerm :: "bytes \<Rightarrow> bool" where
  "hasTerm s = (length s > 0 \<and> last s = 16)"

fun decodeNibbles :: "bytes \<Rightarrow> bytes \<Rightarrow> bytes option" where
  "decodeNibbles [] bs = Some bs"
| "decodeNibbles (n # n' # ns) (b # bs) = map_option ((#) (push_bit 4 n OR n')) (decodeNibbles ns bs)"
| "decodeNibbles _ _ = None"

definition keybytesToHex :: "bytes \<Rightarrow> bytes" where
  "keybytesToHex str = concat (map (\<lambda>b. [b div 16, b mod 16]) str) @ [16]"

definition hexToCompact :: "bytes \<Rightarrow> bytes option" where
  "hexToCompact hex =
     (let terminator = (if hasTerm hex then 1 else 0);
          hex = (if hasTerm hex then butlast hex else hex);
          flag = push_bit 5 terminator;
          buf = replicate (length hex div 2) 0
      in if length hex mod 2 = 1
         then map_option ((#) (flag OR push_bit 4 1 OR hd hex)) (decodeNibbles (tl hex) buf)
         else map_option ((#) flag) (decodeNibbles hex buf))"

definition compactToHex :: "bytes \<Rightarrow> bytes option" where
  "compactToHex compact =
     (let base = butlast (keybytesToHex compact)
      in if base = [] then None
         else
           let base' = (if hd base \<ge> 2 then base @ [16] else base);
               chop = 2 - unat (hd base AND 1)
           in Some (drop chop base'))"

definition hexToKeybytes :: "bytes \<Rightarrow> bytes option" where
  "hexToKeybytes hex =
     (let hex = (if hasTerm hex then butlast hex else hex)
      in if length hex mod 2 \<noteq> 0 then None
         else decodeNibbles hex (replicate ((length hex + 1) div 2) 0))"

fun prefixLen :: "bytes \<Rightarrow> bytes \<Rightarrow> nat" where
  "prefixLen (a # as) (b # bs) = (if a \<noteq> b then 0 else Suc (prefixLen as bs))"
| "prefixLen _ _ = 0"

section \<open>Nibbles\<close>

abbreviation nibbles :: "bytes \<Rightarrow> bool" where
  "nibbles ns \<equiv> \<forall>n \<in> set ns. n < 16"

text \<open>A hex key: nibbles, or nibbles followed by the terminator.\<close>

definition hex_key :: "bytes \<Rightarrow> bool" where
  "hex_key hex \<longleftrightarrow> nibbles (if hasTerm hex then butlast hex else hex)"

lemma nibble_join:
  assumes "a < 16" and "b < (16 :: byte)"
  shows "push_bit 4 a OR b = a * 16 + b"
proof -
  have "push_bit 4 a AND b = 0"
  proof (rule bit_word_eqI)
    fix k
    assume "k < LENGTH(8)"
    have "b = take_bit 4 b"
      using assms(2) by (simp add: word_unat_eq_iff unsigned_take_bit_eq take_bit_nat_eq_self word_less_nat_alt)
    then have "\<not> bit b k" if "4 \<le> k"
      using that by (metis bit_take_bit_iff not_le)
    then show "bit (push_bit 4 a AND b) k = bit (0 :: byte) k"
      by (auto simp: bit_simps)
  qed
  then show ?thesis
    by (simp add: disjunctive_add_eq_or [symmetric] push_bit_eq_mult)
qed

lemma nibble_split [simp]:
  assumes "a < 16" and "b < (16 :: byte)"
  shows "(push_bit 4 a OR b) div 16 = a" and "(push_bit 4 a OR b) mod 16 = b"
proof -
  have "unat (a * 16 + b) = unat a * 16 + unat b"
    using assms by (simp add: word_less_nat_alt unat_word_ariths)
  then show "(push_bit 4 a OR b) div 16 = a" "(push_bit 4 a OR b) mod 16 = b"
    unfolding nibble_join [OF assms] using assms(2)
    by (simp_all add: word_unat_eq_iff unat_div unat_mod word_less_nat_alt)
qed

lemma nibble_merge [simp]: "push_bit 4 (b div 16) OR (b mod 16) = (b :: byte)"
proof -
  have "b div 16 < 16" "b mod 16 < 16"
    using unat_byte_less [of b] by (simp_all add: word_less_nat_alt unat_div unat_mod)
  then show ?thesis
    by (simp only: nibble_join div_mult_mod_eq)
qed

lemma nibbles_keybytesToHex: "nibbles (butlast (keybytesToHex str))"
proof -
  have "b div 16 < 16" "b mod 16 < 16" for b :: byte
    using unat_byte_less [of b] by (simp_all add: word_less_nat_alt unat_div unat_mod)
  then show ?thesis
    by (auto simp: keybytesToHex_def)
qed

section \<open>Round trips\<close>

lemma decodeNibbles_split:
  "nibbles ns \<Longrightarrow> even (length ns) \<Longrightarrow> length buf = length ns div 2 \<Longrightarrow>
     \<exists>bs. decodeNibbles ns buf = Some bs \<and> concat (map (\<lambda>b. [b div 16, b mod 16]) bs) = ns"
  by (induction ns buf rule: decodeNibbles.induct) auto

lemma decodeNibbles_merge:
  "length buf = length bs \<Longrightarrow> decodeNibbles (concat (map (\<lambda>b. [b div 16, b mod 16]) bs)) buf = Some bs"
proof (induction bs arbitrary: buf)
  case (Cons b bs)
  then show ?case
    by (cases buf) auto
qed simp

lemma compactToHex_Cons:
  "compactToHex (x # bs) =
     Some (drop (2 - unat (x div 16 AND 1))
       ((x div 16) # (x mod 16) # concat (map (\<lambda>b. [b div 16, b mod 16]) bs) @ (if x div 16 \<ge> 2 then [16] else [])))"
  by (simp add: compactToHex_def keybytesToHex_def Let_def butlast_append)

lemma compact_inverse:
  assumes "hex_key hex"
  shows "\<exists>c. hexToCompact hex = Some c \<and> compactToHex c = Some hex"
proof -
  define t :: byte where "t = (if hasTerm hex then 1 else 0)"
  define ns where "ns = (if hasTerm hex then butlast hex else hex)"
  have ns: "nibbles ns"
    using assms by (simp add: ns_def hex_key_def)
  have hex: "hasTerm hex \<Longrightarrow> ns @ [16] = hex" "\<not> hasTerm hex \<Longrightarrow> ns = hex"
    by (cases hex rule: rev_cases; simp add: ns_def hasTerm_def)+
  show ?thesis
  proof (cases "even (length ns)")
    case True
    then obtain bs where bs: "decodeNibbles ns (replicate (length ns div 2) 0) = Some bs"
      "concat (map (\<lambda>b. [b div 16, b mod 16]) bs) = ns"
      using decodeNibbles_split [OF ns, of "replicate (length ns div 2) 0"] by auto
    have "hexToCompact hex = Some (push_bit 5 t # bs)"
      using True bs by (simp add: hexToCompact_def Let_def t_def ns_def [symmetric])
    moreover have "push_bit 5 t div 16 = (if hasTerm hex then 2 else 0)" "push_bit 5 t mod 16 = 0"
      by (simp_all add: t_def push_bit_eq_mult)
    ultimately show ?thesis
      using hex by (simp add: compactToHex_Cons bs)
  next
    case False
    then obtain n ms where n: "ns = n # ms" "even (length ms)"
      by (cases ns) auto
    then obtain bs where bs: "decodeNibbles ms (replicate (length ns div 2) 0) = Some bs"
      "concat (map (\<lambda>b. [b div 16, b mod 16]) bs) = ms"
      using decodeNibbles_split [of ms "replicate (length ns div 2) 0"] ns by auto
    define m :: byte where "m = (if hasTerm hex then 3 else 1)"
    have m: "m < 16" "push_bit 5 t OR push_bit 4 1 = push_bit 4 m" "n < 16" "m AND 1 = 1" "2 \<le> m \<longleftrightarrow> hasTerm hex"
      using ns n(1) by (simp_all add: t_def m_def push_bit_eq_mult word_le_nat_alt)
    have "push_bit 5 t OR (push_bit 4 1 OR n) = push_bit 4 m OR n"
      by (simp only: m(2) [symmetric] or.assoc)
    moreover have "length ns mod 2 = 1"
      using False by (simp add: odd_iff_mod_2_eq_one)
    ultimately have "hexToCompact hex = Some ((push_bit 4 m OR n) # bs)"
      unfolding hexToCompact_def Let_def t_def [symmetric] ns_def [symmetric] using bs(1) by (simp add: n(1))
    then show ?thesis
      using hex n(1) m by (simp add: compactToHex_Cons bs(2))
  qed
qed

lemma keybytes_inverse: "hexToKeybytes (keybytesToHex str) = Some str"
  by (simp add: hexToKeybytes_def keybytesToHex_def hasTerm_def Let_def decodeNibbles_merge length_concat comp_def sum_list_triv)

text \<open>
  C34: keys survive storage.  Packing a hex key and unpacking it again gives the key back, with or without
  terminator and for even and odd lengths; key bytes survive the conversion to a hex key; no conversion
  panics.
\<close>

theorem key_roundtrip:
  assumes "hex_key hex"
  shows "\<exists>c. hexToCompact hex = Some c \<and> compactToHex c = Some hex \<and> hexToKeybytes (keybytesToHex str) = Some str"
  using compact_inverse [OF assms] keybytes_inverse by blast

theorem key_roundtrip_witness:
  "\<exists>c. hexToCompact [1, 2, 3, 16] = Some c \<and> compactToHex c = Some [1, 2, 3, 16] \<and> hexToKeybytes (keybytesToHex [0x12]) = Some [0x12]"
  by (rule key_roundtrip) (simp add: hex_key_def hasTerm_def)

section \<open>Common prefixes\<close>

lemma prefixLen_le: "prefixLen a b \<le> length a" "prefixLen a b \<le> length b"
  by (induction a b rule: prefixLen.induct) auto

lemma take_prefixLen: "take (prefixLen a b) a = take (prefixLen a b) b"
  by (induction a b rule: prefixLen.induct) auto

lemma prefixLen_differ: "prefixLen a b < length a \<Longrightarrow> prefixLen a b < length b \<Longrightarrow> a ! prefixLen a b \<noteq> b ! prefixLen a b"
  by (induction a b rule: prefixLen.induct) auto

lemma prefixLen_append [simp]: "prefixLen (k @ a) k = length k"
  by (induction k) auto

lemma prefixLen_eq_length: "prefixLen a k = length k \<longleftrightarrow> (\<exists>r. a = k @ r)"
  by (metis append_take_drop_id prefixLen_append take_all_iff take_prefixLen order_refl)

end
