(* ===== verification/Trie_Tree.thy ===== *)
theory Trie_Tree
  imports Trie_Encoding
begin

text \<open>
  The reference model of the trie of package \<^verbatim>\<open>trie\<close>: a tree of value, short and full nodes without
  unloaded parts, cached hashes and generations.  Lookup, insertion and deletion are recursive functions on it.
  A well-formed tree is fully reduced, and it is determined by its contents.
\<close>

datatype tree = TNil | TVal bytes | TShort bytes tree | TFull "tree list"

section \<open>Operations\<close>

lemma size_tree_nth [termination_simp]: "i < length ts \<Longrightarrow> size (ts ! i) < Suc (size_list size ts)"
  using size_list_estimation' [of "ts ! i" ts "size (ts ! i)" size] by (simp add: le_imp_less_Suc)

lemma size_tree_take [termination_simp]: "t \<in> set (take n ts) \<Longrightarrow> size t < Suc (size_list size ts)"
  using size_list_estimation' [of t ts "size t" size] by (auto dest: in_set_takeD intro: le_imp_less_Suc)

fun tlook :: "tree \<Rightarrow> bytes \<Rightarrow> bytes option" where
  "tlook TNil key = None"
| "tlook (TVal v) key = (if key = [] then Some v else None)"
| "tlook (TShort k t) key = (if take (length k) key = k then tlook t (drop (length k) key) else None)"
| "tlook (TFull ts) [] = None"
| "tlook (TFull ts) (x # key) = (if unat x < length ts then tlook (ts ! unat x) key else None)"

definition tshort :: "bytes \<Rightarrow> tree \<Rightarrow> tree" where
  "tshort k t = (if k = [] then t else TShort k t)"

definition tbranch :: "bytes \<Rightarrow> tree \<Rightarrow> bytes \<Rightarrow> tree \<Rightarrow> tree" where
  "tbranch k t key v =
     TFull ((replicate 17 TNil)[unat (hd k) := tshort (tl k) t, unat (hd key) := tshort (tl key) v])"

fun tins :: "tree \<Rightarrow> bytes \<Rightarrow> tree \<Rightarrow> tree" where
  "tins t [] v = v"
| "tins TNil key v = TShort key v"
| "tins (TShort k t) key v =
     (let m = prefixLen key k
      in if m = length k then TShort k (tins t (drop m key) v)
         else tshort (take m key) (tbranch (drop m k) t (drop m key) v))"
| "tins (TFull ts) (x # key) v = (if unat x < length ts then TFull (ts[unat x := tins (ts ! unat x) key v]) else TFull ts)"
| "tins (TVal w) key v = TVal w"

definition treduce :: "tree list \<Rightarrow> tree" where
  "treduce ts =
     (case filter (\<lambda>i. ts ! i \<noteq> TNil) [0..<length ts] of
        [pos] \<Rightarrow> (case ts ! pos of TShort k t \<Rightarrow> TShort (of_nat pos # k) t | t \<Rightarrow> TShort [of_nat pos] t)
      | _ \<Rightarrow> TFull ts)"

fun tdel :: "tree \<Rightarrow> bytes \<Rightarrow> tree" where
  "tdel TNil key = TNil"
| "tdel (TVal v) key = TNil"
| "tdel (TShort k t) key =
     (let m = prefixLen key k
      in if m < length k then TShort k t
         else if m = length key then TNil
         else case tdel t (drop (length k) key) of
             TShort k' t' \<Rightarrow> TShort (k @ k') t'
           | t' \<Rightarrow> TShort k t')"
| "tdel (TFull ts) [] = TFull ts"
| "tdel (TFull ts) (x # key) = (if unat x < length ts then treduce (ts[unat x := tdel (ts ! unat x) key]) else TFull ts)"

section \<open>Well-formed trees\<close>

text \<open>A key of the trie is a sequence of nibbles with its terminator.\<close>

definition tkey :: "bytes \<Rightarrow> bool" where
  "tkey key \<longleftrightarrow> hasTerm key \<and> nibbles (butlast key)"

fun is_TFull :: "tree \<Rightarrow> bool" where
  "is_TFull (TFull ts) = True"
| "is_TFull _ = False"

fun is_TVal :: "tree \<Rightarrow> bool" where
  "is_TVal (TVal v) = (v \<noteq> [])"
| "is_TVal _ = False"

definition children :: "tree list \<Rightarrow> nat set" where
  "children ts = {i. i < length ts \<and> ts ! i \<noteq> TNil}"

fun wft :: "tree \<Rightarrow> bool" where
  "wft TNil = True"
| "wft (TVal v) = False"
| "wft (TShort k t) =
     (if hasTerm k then nibbles (butlast k) \<and> is_TVal t else k \<noteq> [] \<and> nibbles k \<and> is_TFull t \<and> wft t)"
| "wft (TFull ts) =
     (length ts = 17 \<and> (\<forall>t \<in> set (take 16 ts). wft t) \<and> (ts ! 16 = TNil \<or> is_TVal (ts ! 16)) \<and> 2 \<le> card (children ts))"

lemma hasTerm_Nil [simp]: "\<not> hasTerm []"
  by (simp add: hasTerm_def)

lemma nibbles_not_term: "nibbles p \<Longrightarrow> \<not> hasTerm p"
  by (cases p rule: rev_cases) (auto simp: hasTerm_def)

lemma tkey_Cons: "tkey (x # key) \<longleftrightarrow> (x = 16 \<and> key = []) \<or> (x < 16 \<and> tkey key)"
  by (auto simp: tkey_def hasTerm_def)

lemma tkey_append: "nibbles k \<Longrightarrow> tkey (k @ key) \<longleftrightarrow> tkey key"
  by (induction k) (auto simp: tkey_Cons)

lemma tkey_nonempty [simp]: "\<not> tkey []"
  by (simp add: tkey_def hasTerm_def)

lemma tkey_hex: "tkey (keybytesToHex str)"
  using nibbles_keybytesToHex [of str] by (simp add: tkey_def hasTerm_def keybytesToHex_def)

lemma unat_nibble: "x < 16 \<Longrightarrow> unat (x :: byte) < 16"
  by (simp add: word_less_nat_alt)

lemma unat_17: "unat (x :: byte) < 17 \<longleftrightarrow> x < 16 \<or> x = 16"
  by (auto simp: word_less_nat_alt word_unat_eq_iff)

lemma nth_take_set: "i < 16 \<Longrightarrow> length ts = 17 \<Longrightarrow> ts ! i \<in> set (take 16 ts)"
  by (auto simp: in_set_conv_nth intro!: exI [of _ i])

lemma wft_TFull:
  "wft (TFull ts) \<longleftrightarrow> length ts = 17 \<and> (\<forall>i < 16. wft (ts ! i)) \<and> (ts ! 16 = TNil \<or> is_TVal (ts ! 16)) \<and> 2 \<le> card (children ts)"
  by (auto simp: all_set_conv_all_nth)

lemma wft_child: "wft (TFull ts) \<Longrightarrow> x < 16 \<Longrightarrow> wft (ts ! unat (x :: byte))"
  using nth_take_set [of "unat x" ts] unat_nibble [of x] by simp

lemma is_TFullE: "is_TFull t \<Longrightarrow> (\<And>ts. t = TFull ts \<Longrightarrow> P) \<Longrightarrow> P"
  by (cases t) auto

lemma is_TValE: "is_TVal t \<Longrightarrow> (\<And>v. t = TVal v \<Longrightarrow> v \<noteq> [] \<Longrightarrow> P) \<Longrightarrow> P"
  by (cases t) auto

section \<open>Lookup\<close>

lemma tlook_TShort_append [simp]: "tlook (TShort k t) (k @ key) = tlook t key"
  by simp

lemma tlook_TShort_Some: "tlook (TShort k t) key = Some v \<longleftrightarrow> (\<exists>r. key = k @ r \<and> tlook t r = Some v)"
  by (auto split: if_splits) (metis append_take_drop_id)

lemma tlook_TShort_None: "tlook (TShort k t) key = None \<longleftrightarrow> (\<forall>r. key = k @ r \<longrightarrow> tlook t r = None)"
  using tlook_TShort_Some [of k t key] by (metis not_Some_eq)

lemma tlook_tkey: "wft t \<Longrightarrow> tlook t key = Some v \<Longrightarrow> tkey key"
proof (induction t key rule: tlook.induct)
  case (3 k t key)
  then obtain r where r: "key = k @ r" "tlook t r = Some v"
    unfolding tlook_TShort_Some by blast
  show ?case
  proof (cases "hasTerm k")
    case True
    then show ?thesis
      using 3 r by (auto simp: tkey_def elim!: is_TValE split: if_splits)
  next
    case False
    then show ?thesis
      using 3 r by (auto simp: tkey_append)
  qed
next
  case (5 ts x key)
  then have "unat x < 17"
    by (auto split: if_splits)
  then consider "x < 16" | "x = 16"
    by (auto simp: unat_17)
  then show ?case
  proof cases
    case 1
    then show ?thesis
      using 5 wft_child [OF 5(2) 1] by (auto simp: tkey_Cons split: if_splits)
  next
    case 2
    then show ?thesis
      using 5 by (auto simp: tkey_Cons elim!: is_TValE split: if_splits)
  qed
qed auto

section \<open>Insertion\<close>

lemma tlook_tshort: "tlook (tshort k t) key = (if take (length k) key = k then tlook t (drop (length k) key) else None)"
  by (simp add: tshort_def)

lemma tlook_tbranch:
  assumes "hd k \<noteq> hd key" and "unat (hd k) < 17" and "unat (hd key) < 17"
  shows "tlook (tbranch k t key v) (x # xs) =
    (if x = hd key then tlook (tshort (tl key) v) xs else if x = hd k then tlook (tshort (tl k) t) xs else None)"
  using assms by (auto simp: tbranch_def word_unat_eq_iff nth_list_update)

text \<open>All but the last element of a short key are nibbles, so a key cannot end inside it.\<close>

lemma prefixLen_less_key:
  assumes "tkey key" and "nibbles (butlast k)" and "prefixLen key k < length k"
  shows "prefixLen key k < length key"
proof (rule ccontr)
  assume "\<not> prefixLen key k < length key"
  then have "prefixLen key k = length key"
    using prefixLen_le(1) [of key k] by simp
  with assms(3) obtain r where k: "k = key @ r" "r \<noteq> []"
    by (metis append_take_drop_id drop_eq_Nil2 leD take_all_iff take_prefixLen order_refl)
  have "last key \<in> set (butlast k)"
    using assms(1) k by (cases key rule: rev_cases) (auto simp: butlast_append)
  with assms(1,2) show False
    by (auto simp: tkey_def hasTerm_def)
qed

lemma split_keys:
  assumes "tkey key" and "nibbles (butlast k)" and "prefixLen key k \<noteq> length k"
  obtains p a k' b key' where "k = p @ a # k'" "key = p @ b # key'" "a \<noteq> b" "prefixLen key k = length p"
proof -
  let ?m = "prefixLen key k"
  have m: "?m < length k" "?m < length key"
    using assms prefixLen_le(2) [of key k] prefixLen_less_key [OF assms(1,2)] by simp_all
  have "k = take ?m key @ k ! ?m # drop (Suc ?m) k"
    unfolding take_prefixLen [of key k] by (rule id_take_nth_drop [OF m(1)])
  moreover have "key = take ?m key @ key ! ?m # drop (Suc ?m) key"
    by (rule id_take_nth_drop [OF m(2)])
  ultimately show thesis
    using that [of "take ?m key" "k ! ?m" "drop (Suc ?m) k" "key ! ?m" "drop (Suc ?m) key"] prefixLen_differ [OF m(2,1)] m
    by simp
qed

lemma skey_nth:
  assumes "wft (TShort k t) \<or> tkey k" and "k = p @ a # k'"
  shows "unat a < 17" and "nibbles p"
proof -
  have "nibbles (butlast k) \<and> (nibbles k \<or> hasTerm k)"
    using assms(1) by (auto simp: tkey_def split: if_splits dest: in_set_butlastD)
  then show "unat a < 17" "nibbles p"
    using assms(2) by (cases k' rule: rev_cases; auto simp: unat_17 hasTerm_def butlast_append)+
qed

lemma tins_TShort:
  "key \<noteq> [] \<Longrightarrow> tins (TShort k t) key v =
     (if prefixLen key k = length k then TShort k (tins t (drop (length k) key) v)
      else tshort (take (prefixLen key k) key) (tbranch (drop (prefixLen key k) k) t (drop (prefixLen key k) key) v))"
  by (cases key) (simp_all add: Let_def)

lemma append_take_drop_id_eq: "take (length k) key = k \<Longrightarrow> key = k @ drop (length k) key"
  by (metis append_take_drop_id)

lemma tkey_prefix: "tkey key \<Longrightarrow> tkey (key @ r) \<longleftrightarrow> r = []"
  by (induction key) (auto simp: tkey_Cons)

lemma tins_differ:
  assumes "wft (TShort k t)" and "tkey key" and "prefixLen key k \<noteq> length k"
  obtains p a k' b key' where "k = p @ a # k'" "key = p @ b # key'" "a \<noteq> b" "unat a < 17" "unat b < 17" "nibbles p"
    "tins (TShort k t) key v = tshort p (tbranch (a # k') t (b # key') v)"
proof -
  have "nibbles (butlast k)"
    using assms(1) by (auto split: if_splits dest: in_set_butlastD)
  then obtain p a k' b key' where *: "k = p @ a # k'" "key = p @ b # key'" "a \<noteq> b" "prefixLen key k = length p"
    using split_keys [OF assms(2) _ assms(3)] by blast
  have "tins (TShort k t) key v = tshort p (tbranch (a # k') t (b # key') v)"
    using *(4) assms(3) by (subst tins_TShort) (simp_all add: *)
  then show thesis
    using that [OF *(1-3)] skey_nth [OF disjI1 [OF assms(1)] *(1)] skey_nth(1) [OF disjI2 [OF assms(2)] *(2)] by blast
qed

lemma tlook_tins_differ:
  assumes "wft (TShort k t)" and "tkey key" and "tkey key'" and "prefixLen key k \<noteq> length k"
  shows "tlook (tins (TShort k t) key (TVal v)) key' = (if key' = key then Some v else tlook (TShort k t) key')"
proof -
  obtain p a k' b key2 where *: "k = p @ a # k'" "key = p @ b # key2" "a \<noteq> b" "unat a < 17" "unat b < 17"
    "tins (TShort k t) (key) (TVal v) = tshort p (tbranch (a # k') t (b # key2) (TVal v))"
    using tins_differ [OF assms(1,2,4)] by metis
  show ?thesis
  proof (cases "take (length p) key' = p")
    case True
    then obtain r where r: "key' = p @ r"
      by (metis append_take_drop_id)
    then have "r \<noteq> []"
      using assms(3) skey_nth(2) [OF disjI1 [OF assms(1)] *(1)] by (auto simp: tkey_append)
    then obtain y ys where y: "r = y # ys"
      by (cases r) auto
    have "tlook (tshort p (tbranch (a # k') t (b # key2) (TVal v))) key' =
        (if y = b then tlook (tshort key2 (TVal v)) ys else if y = a then tlook (tshort k' t) ys else None)"
      using *(3-5) by (simp add: tlook_tshort tlook_tbranch r y)
    then show ?thesis
      unfolding *(6) using *(3) by (auto simp: tlook_tshort *(1,2) r y dest: append_take_drop_id_eq)
  next
    case False
    then show ?thesis
      unfolding *(6) by (auto simp: tlook_tshort *(1,2) dest: arg_cong [where f = "take (length p)"])
  qed
qed

lemma tlook_tins:
  assumes "wft t" and "tkey key" and "tkey key'"
  shows "tlook (tins t key (TVal v)) key' = (if key' = key then Some v else tlook t key')"
  using assms
proof (induction t key "TVal v" arbitrary: key' rule: tins.induct)
  case (2 x xs)
  then show ?case
    using tkey_prefix [of "x # xs"] by (auto dest!: append_take_drop_id_eq)
next
  case (3 k t x xs)
  show ?case
  proof (cases "prefixLen (x # xs) k = length k")
    case True
    then obtain r where r: "x # xs = k @ r"
      unfolding prefixLen_eq_length by blast
    have ins: "tins (TShort k t) (x # xs) (TVal v) = TShort k (tins t r (TVal v))"
      using tins_TShort [of "x # xs" k t "TVal v", OF list.distinct(2)] by (simp add: r del: tins.simps)
    show ?thesis
    proof (cases "take (length k) key' = k")
      case k': True
      then obtain r' where r': "key' = k @ r'"
        by (metis append_take_drop_id)
      show ?thesis
      proof (cases "hasTerm k")
        case True
        then have "tkey k"
          using 3(2) by (simp add: tkey_def)
        then have "r = []" "r' = []"
          using 3(3,4) unfolding r r' by (simp_all add: tkey_prefix)
        then show ?thesis
          unfolding r ins [unfolded r] by (simp add: r')
      next
        case False
        then have "tkey r" "tkey r'" "wft t"
          using 3(2-4) unfolding r r' by (simp_all add: tkey_append)
        then show ?thesis
          using 3(1) [OF refl \<open>prefixLen (x # xs) k = length k\<close>] unfolding r ins [unfolded r] by (simp add: r')
      qed
    next
      case False
      then show ?thesis
        unfolding r ins [unfolded r] by auto
    qed
  next
    case False
    with 3(2-4) show ?thesis
      by (rule tlook_tins_differ)
  qed
next
  case (4 ts x key)
  obtain y ys where y: "key' = y # ys"
    using 4(4) by (cases key') auto
  have len: "length ts = 17" "unat x < 17" "unat y < 17"
    using 4(2-4) by (auto simp: y tkey_Cons unat_17)
  show ?case
  proof (cases "x = 16")
    case True
    then have "key = []" "y = 16 \<Longrightarrow> ys = []"
      using 4(3,4) by (auto simp: y tkey_Cons)
    then show ?thesis
      using len by (auto simp: y True nth_list_update word_unat_eq_iff)
  next
    case False
    then have "x < 16" "tkey key"
      using 4(3) by (auto simp: tkey_Cons)
    moreover have "y = x \<Longrightarrow> tkey ys"
      using 4(4) False by (auto simp: y tkey_Cons)
    ultimately show ?thesis
      using len 4(1) [OF _ wft_child [OF 4(2)]] by (auto simp: y nth_list_update word_unat_eq_iff)
  qed
qed auto

lemma children_update: "i < length ts \<Longrightarrow> t \<noteq> TNil \<Longrightarrow> children ts \<subseteq> children (ts[i := t])"
  by (auto simp: children_def nth_list_update)

lemma finite_children [simp]: "finite (children ts)"
  by (simp add: children_def)

lemma wft_TFull_update:
  assumes "wft (TFull ts)" and "t \<noteq> TNil" and "i < 16 \<Longrightarrow> wft t" and "i = 16 \<Longrightarrow> is_TVal t" and "i < 17"
  shows "wft (TFull (ts[i := t]))"
proof -
  have "2 \<le> card (children (ts[i := t]))"
    using assms(1,5) card_mono [OF finite_children children_update [OF _ assms(2)], of i ts] by simp
  then show ?thesis
    using assms unfolding wft_TFull by (auto simp: nth_list_update)
qed

lemma wft_tbranch:
  assumes "wft (TShort k t)" and "tkey key" and "k = p @ a # k'" and "key = p @ b # key'" and "a \<noteq> b" and "v \<noteq> []"
  shows "wft (tshort p (tbranch (a # k') t (b # key') (TVal v)))"
proof -
  have ab: "unat a < 17" "unat b < 17" "unat a \<noteq> unat b" "nibbles p"
    using skey_nth [OF disjI1 [OF assms(1)] assms(3)] skey_nth(1) [OF disjI2 [OF assms(2)] assms(4)] assms(5)
    by (simp_all add: word_unat_eq_iff)
  let ?A = "tshort k' t" and ?B = "tshort key' (TVal v)"
  let ?ts = "(replicate 17 TNil)[unat a := ?A, unat b := ?B]"
  have "b = 16 \<and> key' = [] \<or> b < 16 \<and> tkey key'"
    using assms(2) ab(4) by (simp add: assms(4) tkey_append tkey_Cons)
  then have B: "?B \<noteq> TNil" "b < 16 \<Longrightarrow> wft ?B" "b = 16 \<Longrightarrow> is_TVal ?B"
    using assms(6) by (auto simp: tshort_def tkey_def)
  have A: "?A \<noteq> TNil" "a < 16 \<Longrightarrow> wft ?A" "a = 16 \<Longrightarrow> is_TVal ?A"
    using assms(1) ab(4) by (auto simp: assms(3) tshort_def hasTerm_def butlast_append elim!: is_TFullE is_TValE split: if_splits)
  have "children ?ts = {unat a, unat b}"
    using ab A(1) B(1) by (auto simp: children_def nth_list_update split: if_splits)
  then have "card (children ?ts) = 2"
    using ab(3) by simp
  moreover have "wft (?ts ! i)" if "i < 16" for i
    using that ab A(2) B(2) by (auto simp: nth_list_update word_less_nat_alt)
  moreover have "?ts ! 16 = TNil \<or> is_TVal (?ts ! 16)"
    using ab A(3) B(3) by (auto simp: nth_list_update word_unat_eq_iff)
  ultimately have "wft (TFull ?ts)"
    unfolding wft_TFull by simp
  moreover have "\<not> hasTerm p"
    using ab(4) by (rule nibbles_not_term)
  ultimately show ?thesis
    using ab(4) by (simp add: tbranch_def tshort_def)
qed

lemma wft_tins:
  assumes "wft t" and "tkey key" and "v \<noteq> []"
  shows "wft (tins t key (TVal v)) \<and> tins t key (TVal v) \<noteq> TNil \<and> (is_TFull t \<longrightarrow> is_TFull (tins t key (TVal v)))"
  using assms
proof (induction t key "TVal v" rule: tins.induct)
  case (2 x xs)
  then show ?case
    by (simp add: tkey_def)
next
  case (3 k t x xs)
  show ?case
  proof (cases "prefixLen (x # xs) k = length k")
    case True
    then obtain r where r: "x # xs = k @ r"
      unfolding prefixLen_eq_length by blast
    have ins: "tins (TShort k t) (k @ r) (TVal v) = TShort k (tins t r (TVal v))"
      using tins_TShort [of "x # xs" k t "TVal v", OF list.distinct(2)] by (simp add: r del: tins.simps)
    show ?thesis
    proof (cases "hasTerm k")
      case True
      then have "r = []"
        using 3(2,3) tkey_prefix [of k r] by (simp add: r tkey_def)
      then show ?thesis
        using 3(2,4) True unfolding r ins by simp
    next
      case False
      then have "tkey r"
        using 3(2,3) unfolding r by (simp add: tkey_append)
      then show ?thesis
        using 3 False True unfolding r ins by (simp add: r)
    qed
  next
    case False
    obtain p a k' b key' where *: "k = p @ a # k'" "x # xs = p @ b # key'" "a \<noteq> b"
      "tins (TShort k t) (x # xs) (TVal v) = tshort p (tbranch (a # k') t (b # key') (TVal v))"
      using tins_differ [OF 3(2,3) False] by metis
    then show ?thesis
      using wft_tbranch [OF 3(2,3) *(1-3) 3(4)] unfolding *(4) by (simp add: tshort_def tbranch_def)
  qed
next
  case (4 ts x key)
  have x: "unat x < 17" "x < 16 \<Longrightarrow> tkey key" "x = 16 \<Longrightarrow> key = []" "unat x < 16 \<longleftrightarrow> x < 16" "unat x = 16 \<longleftrightarrow> x = 16"
    using 4(3) by (auto simp: tkey_Cons unat_17 word_less_nat_alt word_unat_eq_iff)
  have c: "tins (ts ! unat x) key (TVal v) \<noteq> TNil" "x < 16 \<Longrightarrow> wft (tins (ts ! unat x) key (TVal v))"
    "x = 16 \<Longrightarrow> is_TVal (tins (ts ! unat x) key (TVal v))"
    using 4(1) [OF _ wft_child [OF 4(2)]] 4(2,4) x by (auto simp: unat_17)
  show ?case
    using wft_TFull_update [OF 4(2) c(1), of "unat x"] c(2,3) x 4(2) by simp
qed auto

section \<open>Deletion\<close>

lemma distinct_singleton_set: "distinct xs \<Longrightarrow> set xs = {x} \<Longrightarrow> xs = [x]"
  by (cases xs; cases "tl xs") auto

lemma treduce_single:
  assumes "children ts = {pos}"
  shows "treduce ts = (case ts ! pos of TShort k t \<Rightarrow> TShort (of_nat pos # k) t | t \<Rightarrow> TShort [of_nat pos] t)"
proof -
  let ?xs = "filter (\<lambda>i. ts ! i \<noteq> TNil) [0..<length ts]"
  have "set ?xs = {pos}" "distinct ?xs"
    using assms by (auto simp: children_def)
  then have "?xs = [pos]"
    by (rule distinct_singleton_set [rotated])
  then show ?thesis
    by (simp add: treduce_def)
qed

lemma treduce_many:
  assumes "2 \<le> card (children ts)"
  shows "treduce ts = TFull ts"
proof -
  let ?xs = "filter (\<lambda>i. ts ! i \<noteq> TNil) [0..<length ts]"
  have "card (children ts) = length ?xs"
    using distinct_card [of ?xs] by (simp add: children_def conj_commute)
  with assms show ?thesis
    by (auto simp: treduce_def split: list.split)
qed

lemma tlook_only_child:
  assumes "children ts = {pos}" and "length ts = 17"
  shows "tlook (TFull ts) key = (case key of [] \<Rightarrow> None | x # xs \<Rightarrow> if x = of_nat pos then tlook (ts ! pos) xs else None)"
proof (cases key)
  case (Cons x xs)
  have pos: "pos < 17"
    using assms by (auto simp: children_def)
  show ?thesis
  proof (cases "unat x = pos")
    case True
    then show ?thesis
      using pos assms(2) by (auto simp: Cons)
  next
    case False
    then have "unat x < 17 \<Longrightarrow> ts ! unat x = TNil"
      using assms by (auto simp: children_def)
    moreover have "x \<noteq> of_nat pos"
      using False pos by (auto simp: unsigned_of_nat take_bit_nat_eq_self)
    ultimately show ?thesis
      using assms(2) by (simp add: Cons)
  qed
qed simp

lemma treduce_ok:
  assumes "length ts = 17" and "\<forall>i < 16. wft (ts ! i)" and "ts ! 16 = TNil \<or> is_TVal (ts ! 16)" and "children ts \<noteq> {}"
  shows "wft (treduce ts) \<and> treduce ts \<noteq> TNil \<and> tlook (treduce ts) key = tlook (TFull ts) key"
proof (cases "2 \<le> card (children ts)")
  case True
  then show ?thesis
    using assms wft_TFull [of ts] by (simp add: treduce_many)
next
  case False
  moreover have "card (children ts) \<noteq> 0"
    using assms(4) by simp
  ultimately have "card (children ts) = 1"
    by linarith
  then obtain pos where pos: "children ts = {pos}"
    by (auto simp: card_1_singleton_iff)
  then have t: "pos < 17" "ts ! pos \<noteq> TNil"
    using assms(1) by (auto simp: children_def)
  have small: "pos < 16 \<Longrightarrow> (of_nat pos :: byte) < 16"
    by (simp add: word_less_nat_alt unsigned_of_nat take_bit_nat_eq_self)
  show ?thesis
  proof (cases "pos < 16")
    case True
    then have "wft (ts ! pos)"
      using assms(2) by simp
    then show ?thesis
      using small [OF True] t(2) unfolding treduce_single [OF pos] tlook_only_child [OF pos assms(1)]
      by (cases "ts ! pos") (auto simp: hasTerm_def split: list.split if_splits)
  next
    case False
    then have "pos = 16"
      using t(1) by linarith
    moreover from this have "is_TVal (ts ! 16)"
      using t(2) assms(3) by auto
    ultimately show ?thesis
      unfolding treduce_single [OF pos] tlook_only_child [OF pos assms(1)]
      by (auto simp: hasTerm_def elim!: is_TValE split: list.split)
  qed
qed

lemma option_eqI: "(\<And>v. a = Some v \<longleftrightarrow> b = Some v) \<Longrightarrow> a = b"
  by (cases a; cases b) auto

lemma tlook_TShort_TShort: "tlook (TShort (k @ k') t) key = tlook (TShort k (TShort k' t)) key"
  by (rule option_eqI) (simp only: tlook_TShort_Some, auto)

lemma tdel_ok:
  assumes "wft t" and "tkey key"
  shows "wft (tdel t key) \<and> (is_TFull t \<longrightarrow> tdel t key \<noteq> TNil) \<and>
    (\<forall>key'. tkey key' \<longrightarrow> tlook (tdel t key) key' = (if key' = key then None else tlook t key'))"
  using assms
proof (induction t key rule: tdel.induct)
  case (3 k t key)
  show ?case
  proof (cases "prefixLen key k = length k")
    case False
    then have "prefixLen key k < length k" "\<nexists>r. key = k @ r"
      using prefixLen_le(2) [of key k] prefixLen_eq_length [of key k] by auto
    then show ?thesis
      using 3(2) tlook_TShort_Some [of k t key] by (auto simp del: tlook.simps)
  next
    case True
    then obtain r where r: "key = k @ r"
      unfolding prefixLen_eq_length by blast
    show ?thesis
    proof (cases "hasTerm k")
      case leaf: True
      then have "tkey k"
        using 3(2) by (simp add: tkey_def)
      then have "r = []"
        using 3(3) by (simp add: r tkey_prefix)
      moreover have "tlook (TShort k t) key' = None" if "tkey key'" "key' \<noteq> k" for key'
        unfolding tlook_TShort_None using that \<open>tkey k\<close> tkey_prefix [of k] by auto
      ultimately show ?thesis
        using prefixLen_append [of k "[]"] by (auto simp: r simp del: tlook.simps(3))
    next
      case False
      then have t: "nibbles k" "is_TFull t" "wft t" "tkey r"
        using 3(2,3) by (simp_all add: r tkey_append)
      then have "r \<noteq> []"
        by auto
      then have IH: "wft (tdel t r)" "tdel t r \<noteq> TNil" "\<And>r'. tkey r' \<Longrightarrow> tlook (tdel t r) r' = (if r' = r then None else tlook t r')"
        using 3(1) [OF refl] t by (simp_all add: r)
      let ?R = "case tdel t r of TShort k' t' \<Rightarrow> TShort (k @ k') t' | t' \<Rightarrow> TShort k t'"
      have "wft ?R \<and> ?R \<noteq> TNil"
        using IH(1,2) t(1) 3(2) False by (cases "tdel t r") (auto simp: hasTerm_def butlast_append split: if_splits)
      moreover have R: "tlook ?R key' = tlook (TShort k (tdel t r)) key'" for key'
        by (cases "tdel t r") (simp_all only: tree.case tlook_TShort_TShort)
      moreover have "tlook (TShort k (tdel t r)) key' = (if key' = k @ r then None else tlook (TShort k t) key')" if "tkey key'" for key'
        using that t(1) IH(3) by (intro option_eqI) (auto simp: tlook_TShort_Some tkey_append simp del: tlook.simps split: if_splits)
      moreover have "tdel (TShort k t) key = ?R"
        using \<open>r \<noteq> []\<close> by (simp add: r Let_def)
      ultimately show ?thesis
        by (simp add: r del: tlook.simps tdel.simps)
    qed
  qed
next
  case (5 ts x key)
  have x: "unat x < 17" "x < 16 \<Longrightarrow> tkey key" "x = 16 \<Longrightarrow> key = []" "unat x < 16 \<longleftrightarrow> x < 16" "unat x = 16 \<longleftrightarrow> x = 16"
    using 5(3) by (auto simp: tkey_Cons unat_17 word_less_nat_alt word_unat_eq_iff)
  let ?c = "tdel (ts ! unat x) key" and ?ts = "ts[unat x := tdel (ts ! unat x) key]"
  have ts: "length ts = 17" "\<forall>i < 16. wft (ts ! i)" "ts ! 16 = TNil \<or> is_TVal (ts ! 16)" "2 \<le> card (children ts)"
    using 5(2) unfolding wft_TFull by simp_all
  have c: "x = 16 \<Longrightarrow> ?c = TNil"
    using ts(3) x(3) by (auto elim!: is_TValE)
  have IH: "x < 16 \<Longrightarrow> wft ?c" "x < 16 \<Longrightarrow> tkey r \<Longrightarrow> tlook ?c r = (if r = key then None else tlook (ts ! unat x) r)" for r
    using 5(1) [OF _ wft_child [OF 5(2)]] x ts(1) by simp_all
  obtain i where "i \<in> children ts" "i \<noteq> unat x"
    using ts(4) by (metis card_le_Suc0_iff_eq finite_children not_less_eq_eq numeral_2_eq_2)
  then have "children ?ts \<noteq> {}"
    by (auto simp: children_def)
  moreover have "\<forall>i < 16. wft (?ts ! i)" "?ts ! 16 = TNil \<or> is_TVal (?ts ! 16)"
    using ts IH(1) c x by (auto simp: nth_list_update)
  ultimately have R: "wft (treduce ?ts)" "treduce ?ts \<noteq> TNil" "tlook (treduce ?ts) key' = tlook (TFull ?ts) key'" for key'
    using treduce_ok [of ?ts] ts(1) by simp_all
  have "tlook (TFull ?ts) key' = (if key' = x # key then None else tlook (TFull ts) key')" if k': "tkey key'" for key'
  proof -
    obtain y ys where y: "key' = y # ys"
      using k' by (cases key') auto
    show ?thesis
    proof (cases "y = x")
      case True
      then have "x = 16 \<and> ys = [] \<and> key = [] \<or> x < 16 \<and> tkey ys"
        using k' x(3) by (auto simp: y tkey_Cons)
      then show ?thesis
        using ts(1) x(1) c IH(2) by (auto simp: y True)
    next
      case False
      then show ?thesis
        using ts(1) by (simp add: y word_unat_eq_iff)
    qed
  qed
  then show ?case
    using R ts(1) x(1) by simp
qed auto

section \<open>Canonical form\<close>

text \<open>A child of a full node contributes keys that start with its index.\<close>

lemma child_key:
  assumes "length ts = 17" and "i < 17" and "tlook (ts ! i) r = Some v"
  shows "tlook (TFull ts) (of_nat i # r) = Some v"
proof -
  have "unat (of_nat i :: byte) = i"
    using assms(2) by (simp add: unsigned_of_nat take_bit_nat_eq_self)
  then show ?thesis
    using assms by simp
qed

lemma wft_inhabited: "wft t \<Longrightarrow> t \<noteq> TNil \<Longrightarrow> \<exists>key v. tlook t key = Some v"
proof (induction t)
  case (TShort k t)
  have "\<exists>r v. tlook t r = Some v"
  proof (cases "hasTerm k")
    case True
    then show ?thesis
      using TShort.prems by (auto elim!: is_TValE intro: exI [of _ "[]"])
  next
    case False
    then show ?thesis
      using TShort by (auto elim!: is_TFullE)
  qed
  then show ?case
    by (auto simp: tlook_TShort_Some simp del: tlook.simps)
next
  case (TFull ts)
  then have ts: "length ts = 17" "\<forall>i < 16. wft (ts ! i)" "ts ! 16 = TNil \<or> is_TVal (ts ! 16)" "2 \<le> card (children ts)"
    unfolding wft_TFull by simp_all
  then have "children ts \<noteq> {}"
    by auto
  then obtain i where i: "i < 17" "ts ! i \<noteq> TNil"
    using ts(1) by (auto simp: children_def)
  have "\<exists>r v. tlook (ts ! i) r = Some v"
  proof (cases "i < 16")
    case True
    then show ?thesis
      using TFull.IH [of "ts ! i"] ts(1,2) i by simp
  next
    case False
    then have "i = 16"
      using i(1) by simp
    then show ?thesis
      using i(2) ts(3) by (auto elim!: is_TValE intro: exI [of _ "[]"])
  qed
  then show ?case
    using child_key [OF ts(1) i(1)] by blast
qed auto

lemma wft_child_inhabited:
  assumes "wft (TFull ts)" and "i \<in> children ts"
  shows "\<exists>r v. tlook (TFull ts) (of_nat i # r) = Some v"
proof -
  have ts: "length ts = 17" "\<forall>i < 16. wft (ts ! i)" "ts ! 16 = TNil \<or> is_TVal (ts ! 16)"
    using assms(1) unfolding wft_TFull by simp_all
  then have i: "i < 17" "ts ! i \<noteq> TNil"
    using assms(2) by (auto simp: children_def)
  have "\<exists>r v. tlook (ts ! i) r = Some v"
  proof (cases "i < 16")
    case True
    then show ?thesis
      using wft_inhabited ts(2) i(2) by blast
  next
    case False
    then have "i = 16"
      using i(1) by simp
    then show ?thesis
      using i(2) ts(3) by (auto elim!: is_TValE intro: exI [of _ "[]"])
  qed
  then show ?thesis
    using child_key [OF ts(1) i(1)] by blast
qed

lemma wft_branches:
  assumes "wft (TFull ts)"
  obtains x y r s v w where "x \<noteq> y" "tlook (TFull ts) (x # r) = Some v" "tlook (TFull ts) (y # s) = Some w"
proof -
  obtain i j where ij: "i \<in> children ts" "j \<in> children ts" "i \<noteq> j"
    using assms unfolding wft_TFull by (metis card_le_Suc0_iff_eq finite_children not_less_eq_eq numeral_2_eq_2)
  then have "i < 17" "j < 17"
    using assms by (auto simp: children_def)
  with ij(3) have "(of_nat i :: byte) \<noteq> of_nat j"
    by (simp add: word_unat_eq_iff unsigned_of_nat take_bit_nat_eq_self)
  moreover obtain r v where "tlook (TFull ts) (of_nat i # r) = Some v"
    using wft_child_inhabited [OF assms ij(1)] by blast
  moreover obtain s w where "tlook (TFull ts) (of_nat j # s) = Some w"
    using wft_child_inhabited [OF assms ij(2)] by blast
  ultimately show thesis
    by (rule that)
qed

lemma TShort_not_TFull:
  assumes "k \<noteq> []" and "wft (TFull ts)"
  shows "tlook (TShort k t) \<noteq> tlook (TFull ts)"
proof
  assume eq: "tlook (TShort k t) = tlook (TFull ts)"
  obtain x y r s v w where *: "x \<noteq> y" "tlook (TFull ts) (x # r) = Some v" "tlook (TFull ts) (y # s) = Some w"
    by (rule wft_branches [OF assms(2)])
  from *(2,3) have "tlook (TShort k t) (x # r) = Some v" "tlook (TShort k t) (y # s) = Some w"
    by (simp_all only: eq)
  then show False
    using *(1) assms(1) by (cases k) (auto simp: tlook_TShort_Some simp del: tlook.simps)
qed

lemma TShort_prefix:
  assumes "wft (TShort k t)" and "tlook (TShort k t) = tlook (TShort k' t')" and "wft (TShort k' t')"
  shows "length k' \<le> length k"
proof (rule ccontr)
  assume longer: "\<not> length k' \<le> length k"
  obtain key v where "tlook (TShort k t) key = Some v"
    using wft_inhabited [OF assms(1)] by blast
  moreover from this have "tlook (TShort k' t') key = Some v"
    by (simp only: assms(2))
  ultimately obtain r r' where r: "key = k @ r" "key = k' @ r'" "tlook t r = Some v"
    unfolding tlook_TShort_Some by blast
  then obtain y ys where y: "k' = k @ y # ys"
    using longer by (auto simp: append_eq_append_conv2) (metis append_Nil2 le_refl list.exhaust)
  show False
  proof (cases "hasTerm k")
    case True
    then show ?thesis
      using assms(1) r y by (auto elim!: is_TValE)
  next
    case False
    then obtain ts where ts: "t = TFull ts" "wft (TFull ts)"
      using assms(1) by (auto elim!: is_TFullE)
    have "tlook t r = tlook (TShort (y # ys) t') r" for r
      using fun_cong [OF assms(2), of "k @ r"] tlook_TShort_TShort [of k "y # ys" t' "k @ r"] by (simp add: y)
    then show ?thesis
      using TShort_not_TFull [of "y # ys" ts t'] ts by auto
  qed
qed

lemma tree_canonical: "wft t \<Longrightarrow> wft t' \<Longrightarrow> tlook t = tlook t' \<Longrightarrow> t = t'"
proof (induction t arbitrary: t')
  case TNil
  then show ?case
    using wft_inhabited [of t'] by (metis option.distinct(1) tlook.simps(1))
next
  case (TShort k t)
  have k: "k \<noteq> []"
    using TShort.prems(1) by (auto split: if_splits)
  obtain key v where key: "tlook (TShort k t) key = Some v"
    using wft_inhabited [OF TShort.prems(1)] by blast
  show ?case
  proof (cases t')
    case TNil
    then show ?thesis
      using key unfolding TShort.prems(3) by simp
  next
    case (TFull ts)
    then show ?thesis
      using TShort_not_TFull [OF k] TShort.prems(2,3) by metis
  next
    case t': (TShort k' u)
    have "length k' = length k"
      using TShort_prefix [of k t k' u] TShort_prefix [of k' u k t] TShort.prems by (simp add: t' le_antisym del: tlook.simps)
    moreover from key have "tlook (TShort k' u) key = Some v"
      by (simp only: TShort.prems(3) t')
    ultimately have k': "k' = k"
      using key unfolding tlook_TShort_Some by auto
    have eq: "tlook t = tlook u"
    proof
      fix r
      show "tlook t r = tlook u r"
        using fun_cong [OF TShort.prems(3), of "k @ r"] by (simp add: t' k')
    qed
    show ?thesis
    proof (cases "hasTerm k")
      case True
      then show ?thesis
        using TShort.prems(1,2) fun_cong [OF eq, of "[]"] by (auto simp: t' k' elim!: is_TValE)
    next
      case False
      then show ?thesis
        using TShort.IH [OF _ _ eq] TShort.prems(1,2) by (simp add: t' k')
    qed
  qed (use TShort.prems(2) in simp)
next
  case (TFull ts)
  obtain key v where key: "tlook (TFull ts) key = Some v"
    using wft_inhabited [OF TFull.prems(1)] by blast
  show ?case
  proof (cases t')
    case TNil
    then show ?thesis
      using key unfolding TFull.prems(3) by simp
  next
    case (TShort k t)
    then have "k \<noteq> []"
      using TFull.prems(2) by (auto split: if_splits)
    then show ?thesis
      using TShort_not_TFull TShort TFull.prems(1,3) by metis
  next
    case t': (TFull us)
    have len: "length ts = 17" "length us = 17"
      using TFull.prems(1,2) by (simp_all add: t')
    have "ts ! i = us ! i" if i: "i < 17" for i
    proof -
      have n: "unat (of_nat i :: byte) = i"
        using i by (simp add: unsigned_of_nat take_bit_nat_eq_self)
      have eq: "tlook (ts ! i) = tlook (us ! i)"
      proof
        fix r
        show "tlook (ts ! i) r = tlook (us ! i) r"
          using fun_cong [OF TFull.prems(3), of "of_nat i # r"] i len by (simp add: t' n)
      qed
      show ?thesis
      proof (cases "i < 16")
        case True
        then show ?thesis
          using TFull.IH [OF _ _ _ eq] TFull.prems(1,2) len by (simp add: t' wft_TFull del: wft.simps(4))
      next
        case False
        then have "i = 16"
          using i by simp
        then show ?thesis
          using fun_cong [OF eq, of "[]"] TFull.prems(1,2) unfolding t' wft_TFull by (auto elim!: is_TValE)
      qed
    qed
    then show ?thesis
      using len by (simp add: t' list_eq_iff_nth_eq)
  qed (use TFull.prems(2) in simp)
qed simp

end
