(* ===== verification/Trie_Node.thy ===== *)
theory Trie_Node
  imports Trie_Tree Common_Types
begin

text \<open>
  \<^verbatim>\<open>trie/node.go\<close>: the nodes of a trie with their cache flags, and the decoder of stored nodes.  A result of
  \<open>None\<close> is a panic.  The decoder recurses through embedded nodes; its fuel bounds their depth, and one level
  more than the length of the input is always enough.  The path that \<open>wrapError\<close> adds to an error is left out.
\<close>

section \<open>Nodes\<close>

record nodeFlag =
  nf_hash :: "bytes option"
  nf_gen :: "16 word"
  nf_dirty :: bool

datatype node =
    NilNode
  | FullNode "node list" nodeFlag
  | ShortNode bytes node nodeFlag
  | HashNode bytes
  | ValueNode bytes

definition flag_canUnload :: "nodeFlag \<Rightarrow> 16 word \<Rightarrow> 16 word \<Rightarrow> bool" where
  "flag_canUnload f cachegen cachelimit \<longleftrightarrow> \<not> nf_dirty f \<and> cachegen - nf_gen f \<ge> cachelimit"

text \<open>The methods of the interface; calling one on a nil node panics.\<close>

fun canUnload :: "node \<Rightarrow> 16 word \<Rightarrow> 16 word \<Rightarrow> bool option" where
  "canUnload (FullNode cs f) gen lim = Some (flag_canUnload f gen lim)"
| "canUnload (ShortNode k v f) gen lim = Some (flag_canUnload f gen lim)"
| "canUnload (HashNode h) gen lim = Some False"
| "canUnload (ValueNode v) gen lim = Some False"
| "canUnload NilNode gen lim = None"

fun node_cache :: "node \<Rightarrow> (bytes option \<times> bool) option" where
  "node_cache (FullNode cs f) = Some (nf_hash f, nf_dirty f)"
| "node_cache (ShortNode k v f) = Some (nf_hash f, nf_dirty f)"
| "node_cache (HashNode h) = Some (None, True)"
| "node_cache (ValueNode v) = Some (None, True)"
| "node_cache NilNode = None"

text \<open>
  What the encoder sees: a short node is a structure of its exported fields, a full node has the method
  \<^verbatim>\<open>EncodeRLP\<close>, which encodes the array of its children, and a child is an interface value.
\<close>

fun node_rval :: "node \<Rightarrow> rval" where
  "node_rval NilNode = VInterface None"
| "node_rval (FullNode cs f) = VInterface (Some (VEncoder (VSlice False (map node_rval cs))))"
| "node_rval (ShortNode k v f) = VInterface (Some (VPtr (VStruct [VBytes k, node_rval v])))"
| "node_rval (HashNode h) = VInterface (Some (VBytes h))"
| "node_rval (ValueNode v) = VInterface (Some (VBytes v))"

section \<open>Decoding\<close>

datatype node_error =
    nodeErrUnexpectedEOF
  | nodeErrDecode rlp_error
  | nodeErrElements nat
  | nodeErrRLP rlp_error
  | nodeErrValue rlp_error
  | nodeErrOversized nat
  | nodeErrSize nat

type_synonym node_decoder = "bytes option \<Rightarrow> bytes \<Rightarrow> 16 word \<Rightarrow> (node_error + node) option"

definition hashLen :: nat where
  "hashLen = HashLength"

definition decodeRef :: "node_decoder \<Rightarrow> bytes \<Rightarrow> 16 word \<Rightarrow> (node_error + node \<times> bytes) option" where
  "decodeRef dec buf cachegen =
     (case Split buf of
        Inl err \<Rightarrow> Some (Inl (nodeErrRLP err))
      | Inr (kind, val, rest) \<Rightarrow>
          if kind = KList then
            let size = length buf - length rest
            in if size > hashLen then Some (Inl (nodeErrOversized size))
               else map_option (map_sum id (\<lambda>n. (n, rest))) (dec None buf cachegen)
          else if kind = KString \<and> length val = 0 then Some (Inr (NilNode, rest))
          else if kind = KString \<and> length val = 32 then Some (Inr (HashNode val, rest))
          else Some (Inl (nodeErrSize (length val))))"

definition decodeShort :: "node_decoder \<Rightarrow> bytes option \<Rightarrow> bytes \<Rightarrow> 16 word \<Rightarrow> (node_error + node) option" where
  "decodeShort dec hash elems cachegen =
     (case SplitString elems of
        Inl err \<Rightarrow> Some (Inl (nodeErrRLP err))
      | Inr (kbuf, rest) \<Rightarrow>
          let flag = \<lparr>nf_hash = hash, nf_gen = cachegen, nf_dirty = False\<rparr>
          in (case compactToHex kbuf of
                None \<Rightarrow> None
              | Some key \<Rightarrow>
                  if hasTerm key then
                    (case SplitString rest of
                       Inl err \<Rightarrow> Some (Inl (nodeErrValue err))
                     | Inr (val, _) \<Rightarrow> Some (Inr (ShortNode key (ValueNode val) flag)))
                  else map_option (map_sum id (\<lambda>(r, _). ShortNode key r flag)) (decodeRef dec rest cachegen)))"

fun decodeChildren :: "node_decoder \<Rightarrow> nat \<Rightarrow> bytes \<Rightarrow> 16 word \<Rightarrow> (node_error + node list \<times> bytes) option" where
  "decodeChildren dec 0 elems cachegen = Some (Inr ([], elems))"
| "decodeChildren dec (Suc n) elems cachegen =
     (case decodeRef dec elems cachegen of
        None \<Rightarrow> None
      | Some (Inl err) \<Rightarrow> Some (Inl err)
      | Some (Inr (cld, rest)) \<Rightarrow>
          map_option (map_sum id (\<lambda>(cs, rest'). (cld # cs, rest'))) (decodeChildren dec n rest cachegen))"

definition decodeFull :: "node_decoder \<Rightarrow> bytes option \<Rightarrow> bytes \<Rightarrow> 16 word \<Rightarrow> (node_error + node) option" where
  "decodeFull dec hash elems cachegen =
     (case decodeChildren dec 16 elems cachegen of
        None \<Rightarrow> None
      | Some (Inl err) \<Rightarrow> Some (Inl err)
      | Some (Inr (cs, rest)) \<Rightarrow>
          (case SplitString rest of
             Inl err \<Rightarrow> Some (Inl (nodeErrRLP err))
           | Inr (val, _) \<Rightarrow>
               Some (Inr (FullNode (cs @ [if length val > 0 then ValueNode val else NilNode])
                 \<lparr>nf_hash = hash, nf_gen = cachegen, nf_dirty = False\<rparr>))))"

fun decodeNode :: "nat \<Rightarrow> node_decoder" where
  "decodeNode 0 hash buf cachegen = None"
| "decodeNode (Suc fuel) hash buf cachegen =
     (if length buf = 0 then Some (Inl nodeErrUnexpectedEOF)
      else
        case SplitList buf of
          Inl err \<Rightarrow> Some (Inl (nodeErrDecode err))
        | Inr (elems, _) \<Rightarrow>
            let c = case_sum (\<lambda>_. 0) id (CountValues elems)
            in if c = 2 then decodeShort (decodeNode fuel) hash elems cachegen
               else if c = 17 then decodeFull (decodeNode fuel) hash elems cachegen
               else Some (Inl (nodeErrElements c)))"

definition decode_fuel :: "bytes \<Rightarrow> nat" where
  "decode_fuel buf = Suc (length buf)"

definition mustDecodeNode :: "bytes \<Rightarrow> bytes \<Rightarrow> 16 word \<Rightarrow> node option" where
  "mustDecodeNode hash buf cachegen =
     (case decodeNode (decode_fuel buf) (Some hash) buf cachegen of
        Some (Inr n) \<Rightarrow> Some n
      | _ \<Rightarrow> None)"

section \<open>Enough fuel\<close>

lemma Split_shorter:
  assumes "Split b = Inr (k, c, rest)"
  shows "length rest < length b" and "k = KList \<Longrightarrow> length c < length b"
proof -
  obtain ts cs where kind: "raw_readKind b = Inr (k, ts, cs)"
    and c: "c = take (unat cs) (drop (unat ts) b)" "rest = drop (unat ts + unat cs) b"
    using assms by (auto simp: Split_def split: sum.splits)
  then show "length rest < length b"
    using raw_readKind_progress [OF kind] by (simp add: c)
  assume "k = KList"
  then have "0 < unat ts"
    using kind by (auto simp: raw_readKind_def Let_def map_sum_eq_Inr split: if_splits sum.splits)
  then show "length c < length b"
    using raw_readKind_progress [OF kind] by (simp add: c min_less_iff_disj)
qed

lemma decodeRef_cong:
  assumes "\<And>h b. length b \<le> length buf \<Longrightarrow> dec h b gen = dec' h b gen"
  shows "decodeRef dec buf gen = decodeRef dec' buf gen"
  using assms by (auto simp: decodeRef_def Let_def split: sum.split)

lemma decodeRef_rest:
  "decodeRef dec buf gen = Some (Inr (n, rest)) \<Longrightarrow> length rest < length buf"
  by (auto simp: decodeRef_def Let_def map_sum_eq_Inr dest: Split_shorter split: if_splits sum.splits)

lemma decodeChildren_cong:
  assumes "\<And>h b. length b \<le> length buf \<Longrightarrow> dec h b gen = dec' h b gen"
  shows "decodeChildren dec n buf gen = decodeChildren dec' n buf gen"
  using assms
proof (induction n arbitrary: buf)
  case (Suc n)
  have "decodeRef dec buf gen = decodeRef dec' buf gen"
    by (rule decodeRef_cong) (rule Suc.prems)
  moreover have "decodeChildren dec n rest gen = decodeChildren dec' n rest gen"
    if "decodeRef dec' buf gen = Some (Inr (m, rest))" for m rest
    using decodeRef_rest [OF that] by (intro Suc.IH Suc.prems) simp
  ultimately show ?case
    by (auto split: option.split sum.split)
qed simp

lemma decodeNode_fuel:
  "length buf < f \<Longrightarrow> length buf < f' \<Longrightarrow> decodeNode f hash buf gen = decodeNode f' hash buf gen"
proof (induction f arbitrary: f' hash buf gen)
  case (Suc f)
  then obtain g where f': "f' = Suc g"
    by (cases f') auto
  have eq: "decodeNode f h b gen = decodeNode g h b gen" if "length b < length buf" for h b
    using Suc.IH [of b g] Suc.prems that f' by simp
  have "decodeShort (decodeNode f) hash elems gen = decodeShort (decodeNode g) hash elems gen"
       "decodeFull (decodeNode f) hash elems gen = decodeFull (decodeNode g) hash elems gen"
    if "SplitList buf = Inr (elems, rest)" for elems rest
  proof -
    have len: "length elems < length buf"
      using that Split_shorter(2) by (auto simp: SplitList_def split: sum.splits if_splits)
    have "decodeRef (decodeNode f) r gen = decodeRef (decodeNode g) r gen" if "SplitString elems = Inr (k, r)" for k r
      using that len by (intro decodeRef_cong eq)
        (auto simp: SplitString_def dest: Split_shorter(1) split: sum.splits if_splits)
    then show "decodeShort (decodeNode f) hash elems gen = decodeShort (decodeNode g) hash elems gen"
      by (auto simp: decodeShort_def Let_def split: sum.split option.split)
    show "decodeFull (decodeNode f) hash elems gen = decodeFull (decodeNode g) hash elems gen"
      using len unfolding decodeFull_def by (subst decodeChildren_cong [of _ _ gen "decodeNode g"]) (auto intro: eq)
  qed
  then show ?case
    by (auto simp: f' Let_def split: sum.split)
qed simp

end
