(* ===== verification/Trie_Database.thy ===== *)
theory Trie_Database
  imports Common_Types "HOL-Library.AList"
begin

text \<open>
  \<^verbatim>\<open>trie/database.go\<close>: the write layer between tries and the disk.  It holds the encoded nodes that are not on
  disk yet, with the references between them.  The disk is a function from keys to stored values, in which a
  missing key and a read error are both \<open>None\<close>, as every caller treats them.  The sizes and times the code
  collects for its log lines are left out.  A result of \<open>None\<close> of a state changing operation is a panic.
\<close>

record cachedNode =
  cn_blob :: "bytes option"
  cn_parents :: int
  cn_children :: "(hash \<times> int) list"

record Database =
  db_disk :: "bytes \<Rightarrow> bytes option"
  db_nodes :: "(hash \<times> cachedNode) list"
  db_preimages :: "(hash \<times> bytes) list"

definition NewDatabase :: "(bytes \<Rightarrow> bytes option) \<Rightarrow> Database" where
  "NewDatabase diskdb =
     \<lparr>db_disk = diskdb,
      db_nodes = [(0, \<lparr>cn_blob = None, cn_parents = 0, cn_children = []\<rparr>)],
      db_preimages = []\<rparr>"

definition db_insert :: "hash \<Rightarrow> bytes \<Rightarrow> Database \<Rightarrow> Database" where
  "db_insert hash blob db =
     (if map_of (db_nodes db) hash \<noteq> None then db
      else db\<lparr>db_nodes := AList.update hash \<lparr>cn_blob = Some blob, cn_parents = 0, cn_children = []\<rparr> (db_nodes db)\<rparr>)"

definition insertPreimage :: "hash \<Rightarrow> bytes \<Rightarrow> Database \<Rightarrow> Database" where
  "insertPreimage hash preimage db =
     (if map_of (db_preimages db) hash \<noteq> None then db
      else db\<lparr>db_preimages := AList.update hash preimage (db_preimages db)\<rparr>)"

definition db_Node :: "Database \<Rightarrow> hash \<Rightarrow> bytes option" where
  "db_Node db hash =
     (case map_of (db_nodes db) hash of
        Some node \<Rightarrow> cn_blob node
      | None \<Rightarrow> db_disk db (Hash_Bytes hash))"

text \<open>The bytes of the prefix \<^verbatim>\<open>"secure-key-"\<close>.\<close>

definition secureKeyPrefix :: bytes where
  "secureKeyPrefix = [0x73, 0x65, 0x63, 0x75, 0x72, 0x65, 0x2D, 0x6B, 0x65, 0x79, 0x2D]"

definition secureKey :: "bytes \<Rightarrow> bytes" where
  "secureKey key = secureKeyPrefix @ key"

definition db_preimage :: "Database \<Rightarrow> hash \<Rightarrow> bytes option" where
  "db_preimage db hash =
     (case map_of (db_preimages db) hash of
        Some preimage \<Rightarrow> Some preimage
      | None \<Rightarrow> db_disk db (secureKey (Hash_Bytes hash)))"

definition db_Nodes :: "Database \<Rightarrow> hash list" where
  "db_Nodes db = filter (\<lambda>hash. hash \<noteq> 0) (map fst (db_nodes db))"

definition getCount :: "hash \<Rightarrow> cachedNode \<Rightarrow> int" where
  "getCount child node = (case map_of (cn_children node) child of None \<Rightarrow> 0 | Some c \<Rightarrow> c)"

text \<open>
  A node may refer to itself only through a hash cycle; as in the code, both pointers then lead to the same
  object.
\<close>

definition db_reference :: "hash \<Rightarrow> hash \<Rightarrow> Database \<Rightarrow> Database option" where
  "db_reference child parent db =
     (case map_of (db_nodes db) child of
        None \<Rightarrow> Some db
      | Some node \<Rightarrow>
          (case map_of (db_nodes db) parent of
             None \<Rightarrow> None
           | Some p \<Rightarrow>
               if map_of (cn_children p) child \<noteq> None \<and> parent \<noteq> 0 then Some db
               else
                 let nodes = AList.map_entry child (\<lambda>n. n\<lparr>cn_parents := cn_parents n + 1\<rparr>) (db_nodes db)
                 in Some (db\<lparr>db_nodes := AList.map_entry parent
                      (\<lambda>n. n\<lparr>cn_children := AList.update child (getCount child n + 1) (cn_children n)\<rparr>) nodes\<rparr>)))"

section \<open>What a lookup returns\<close>

lemma db_Node_insert: "db_Node (db_insert hash blob db) h =
  (if h = hash \<and> map_of (db_nodes db) hash = None then Some blob else db_Node db h)"
  by (simp add: db_Node_def db_insert_def update_conv' split: option.split)

lemma map_of_map_entry_other: "map_of (AList.map_entry k f xs) h = (if h = k then map_option f (map_of xs k) else map_of xs h)"
  by (induction xs) auto

lemma db_Node_reference:
  "db_reference child parent db = Some db' \<Longrightarrow> db_Node db' h = db_Node db h"
  by (auto simp: db_reference_def db_Node_def map_of_map_entry_other split: option.splits if_splits)

lemma db_reference_known:
  assumes "db_reference child parent db = Some db'"
  shows "map_of (db_nodes db') h = None \<longleftrightarrow> map_of (db_nodes db) h = None"
  using assms by (auto simp: db_reference_def map_of_map_entry_other split: option.splits if_splits)

lemma db_reference_returns:
  "map_of (db_nodes db) parent \<noteq> None \<Longrightarrow> \<exists>db'. db_reference child parent db = Some db'"
  by (auto simp: db_reference_def Let_def split: option.splits)

end
