(* ===== verification/Trie.thy ===== *)
theory Trie
  imports Trie_Node Trie_Database
begin

text \<open>
  \<^verbatim>\<open>trie/trie.go\<close>: lookup, insertion and deletion in a trie whose parts may still be in the database.  Each
  recursive method follows one path of the tree; its fuel bounds the number of calls on that path.  A result of
  \<open>None\<close> is a panic, \<open>Inl\<close> is the error of a node that the database does not hold.  The operations are shown
  to implement those of the reference tree, for every store of nodes that meets the laws of the locale
  \<open>trie_store\<close>.
\<close>

datatype trie_error = MissingNodeError hash bytes

text \<open>Sequencing of calls that may panic or fail.\<close>

fun rbind :: "('e + 'a) option \<Rightarrow> ('a \<Rightarrow> ('e + 'b) option) \<Rightarrow> ('e + 'b) option" where
  "rbind None f = None"
| "rbind (Some (Inl err)) f = Some (Inl err)"
| "rbind (Some (Inr x)) f = f x"

record Trie =
  tr_db :: "Database option"
  tr_root :: node
  tr_originalRoot :: hash
  tr_prefix :: "bytes option"
  tr_cachegen :: "16 word"
  tr_cachelimit :: "16 word"

definition emptyRoot :: hash where
  "emptyRoot = 0x56e81f171bcc55a6ff8345e692c0f86e5b48e01b996cadc001622fb5e363b421"

definition SetCacheLimit :: "16 word \<Rightarrow> Trie \<Rightarrow> Trie" where
  "SetCacheLimit l t = t\<lparr>tr_cachelimit := l\<rparr>"

definition newFlag :: "Trie \<Rightarrow> nodeFlag" where
  "newFlag t = \<lparr>nf_hash = None, nf_gen = tr_cachegen t, nf_dirty = True\<rparr>"

section \<open>Operations\<close>

definition resolveHash :: "Trie \<Rightarrow> bytes \<Rightarrow> bytes \<Rightarrow> (trie_error + node) option" where
  "resolveHash t n prefix =
     (case tr_db t of
        None \<Rightarrow> None
      | Some db \<Rightarrow>
          let hash = BytesToHash n
          in (case db_Node db hash of
                None \<Rightarrow> Some (Inl (MissingNodeError hash prefix))
              | Some enc \<Rightarrow> map_option Inr (mustDecodeNode n enc (tr_cachegen t))))"

fun resolve :: "Trie \<Rightarrow> node \<Rightarrow> bytes \<Rightarrow> (trie_error + node) option" where
  "resolve t (HashNode n) prefix = resolveHash t n prefix"
| "resolve t n prefix = Some (Inr n)"

definition Trie_New :: "hash \<Rightarrow> Database option \<Rightarrow> (trie_error + Trie) option" where
  "Trie_New root db =
     (if db = None then None
      else
        let trie = \<lparr>tr_db = db, tr_root = NilNode, tr_originalRoot = root, tr_prefix = None, tr_cachegen = 0, tr_cachelimit = 0\<rparr>
        in if root \<noteq> 0 \<and> root \<noteq> emptyRoot
           then rbind (resolveHash trie (Hash_Bytes root) []) (\<lambda>rootnode. Some (Inr (trie\<lparr>tr_root := rootnode\<rparr>)))
           else Some (Inr trie))"

definition NewTrieWithPrefix :: "hash \<Rightarrow> bytes \<Rightarrow> Database option \<Rightarrow> (trie_error + Trie) option" where
  "NewTrieWithPrefix root prefix db = rbind (Trie_New root db) (\<lambda>trie. Some (Inr (trie\<lparr>tr_prefix := Some prefix\<rparr>)))"

fun tryGet :: "nat \<Rightarrow> Trie \<Rightarrow> node \<Rightarrow> bytes \<Rightarrow> nat \<Rightarrow> (trie_error + bytes option \<times> node \<times> bool) option" where
  "tryGet 0 t n key pos = None"
| "tryGet (Suc fuel) t NilNode key pos = Some (Inr (None, NilNode, False))"
| "tryGet (Suc fuel) t (ValueNode v) key pos = Some (Inr (Some v, ValueNode v, False))"
| "tryGet (Suc fuel) t (ShortNode k v fl) key pos =
     (if length key < pos + length k \<or> take (length k) (drop pos key) \<noteq> k
      then Some (Inr (None, ShortNode k v fl, False))
      else rbind (tryGet fuel t v key (pos + length k)) (\<lambda>(value, newnode, didResolve).
        Some (Inr (value,
          if didResolve then ShortNode k newnode (fl\<lparr>nf_gen := tr_cachegen t\<rparr>) else ShortNode k v fl,
          didResolve))))"
| "tryGet (Suc fuel) t (FullNode cs fl) key pos =
     (if pos < length key \<and> unat (key ! pos) < length cs
      then rbind (tryGet fuel t (cs ! unat (key ! pos)) key (pos + 1)) (\<lambda>(value, newnode, didResolve).
        Some (Inr (value,
          if didResolve then FullNode (cs[unat (key ! pos) := newnode]) (fl\<lparr>nf_gen := tr_cachegen t\<rparr>) else FullNode cs fl,
          didResolve)))
      else None)"
| "tryGet (Suc fuel) t (HashNode n) key pos =
     rbind (resolveHash t n (take pos key)) (\<lambda>child.
       rbind (tryGet fuel t child key pos) (\<lambda>(value, newnode, _). Some (Inr (value, newnode, True))))"

fun trie_insert :: "nat \<Rightarrow> Trie \<Rightarrow> node \<Rightarrow> bytes \<Rightarrow> bytes \<Rightarrow> node \<Rightarrow> (trie_error + bool \<times> node) option" where
  "trie_insert 0 t n prefix key value = None"
| "trie_insert (Suc fuel) t n prefix [] value =
     (case n of
        ValueNode v \<Rightarrow> (case value of ValueNode w \<Rightarrow> Some (Inr (v \<noteq> w, value)) | _ \<Rightarrow> None)
      | _ \<Rightarrow> Some (Inr (True, value)))"
| "trie_insert (Suc fuel) t (ShortNode k v fl) prefix (x # xs) value =
     (let key = x # xs; matchlen = prefixLen key k
      in if matchlen = length k
         then rbind (trie_insert fuel t v (prefix @ take matchlen key) (drop matchlen key) value) (\<lambda>(dirty, nn).
           Some (Inr (if \<not> dirty then (False, ShortNode k v fl) else (True, ShortNode k nn (newFlag t)))))
         else
           let branch = replicate 17 NilNode
           in if matchlen < length key \<and> unat (k ! matchlen) < 17 \<and> unat (key ! matchlen) < 17
              then rbind (trie_insert fuel t NilNode (prefix @ take (matchlen + 1) k) (drop (matchlen + 1) k) v) (\<lambda>(_, c1).
                rbind (trie_insert fuel t NilNode (prefix @ take (matchlen + 1) key) (drop (matchlen + 1) key) value) (\<lambda>(_, c2).
                  let branch = FullNode (branch[unat (k ! matchlen) := c1, unat (key ! matchlen) := c2]) (newFlag t)
                  in Some (Inr (True, if matchlen = 0 then branch else ShortNode (take matchlen key) branch (newFlag t)))))
              else None)"
| "trie_insert (Suc fuel) t (FullNode cs fl) prefix (x # xs) value =
     (if unat x < length cs
      then rbind (trie_insert fuel t (cs ! unat x) (prefix @ [x]) xs value) (\<lambda>(dirty, nn).
        Some (Inr (if \<not> dirty then (False, FullNode cs fl) else (True, FullNode (cs[unat x := nn]) (newFlag t)))))
      else None)"
| "trie_insert (Suc fuel) t NilNode prefix (x # xs) value = Some (Inr (True, ShortNode (x # xs) value (newFlag t)))"
| "trie_insert (Suc fuel) t (HashNode n) prefix (x # xs) value =
     rbind (resolveHash t n prefix) (\<lambda>rn.
       rbind (trie_insert fuel t rn prefix (x # xs) value) (\<lambda>(dirty, nn).
         Some (Inr (if \<not> dirty then (False, rn) else (True, nn)))))"
| "trie_insert (Suc fuel) t (ValueNode v) prefix (x # xs) value = None"

text \<open>The loop over the children of a full node: the index of its only child, \<open>- 1\<close> for none, \<open>- 2\<close> for more.\<close>

fun onlyChild :: "int \<Rightarrow> nat \<Rightarrow> node list \<Rightarrow> int" where
  "onlyChild pos i [] = pos"
| "onlyChild pos i (cld # cs) =
     (if cld \<noteq> NilNode then if pos = - 1 then onlyChild (int i) (Suc i) cs else - 2
      else onlyChild pos (Suc i) cs)"

definition reduceFull :: "Trie \<Rightarrow> node list \<Rightarrow> bytes \<Rightarrow> (trie_error + bool \<times> node) option" where
  "reduceFull t cs prefix =
     (let pos = onlyChild (- 1) 0 cs
      in if pos \<ge> 0 then
           let i = nat pos;
               single = Some (Inr (True, ShortNode [of_nat i] (cs ! i) (newFlag t)))
           in if i \<noteq> 16
              then rbind (resolve t (cs ! i) prefix) (\<lambda>cnode.
                case cnode of
                  ShortNode k v fl \<Rightarrow> Some (Inr (True, ShortNode ([of_nat i] @ k) v (newFlag t)))
                | _ \<Rightarrow> single)
              else single
         else Some (Inr (True, FullNode cs (newFlag t))))"

fun trie_delete :: "nat \<Rightarrow> Trie \<Rightarrow> node \<Rightarrow> bytes \<Rightarrow> bytes \<Rightarrow> (trie_error + bool \<times> node) option" where
  "trie_delete 0 t n prefix key = None"
| "trie_delete (Suc fuel) t (ShortNode k v fl) prefix key =
     (let matchlen = prefixLen key k
      in if matchlen < length k then Some (Inr (False, ShortNode k v fl))
         else if matchlen = length key then Some (Inr (True, NilNode))
         else rbind (trie_delete fuel t v (prefix @ take (length k) key) (drop (length k) key)) (\<lambda>(dirty, child).
           Some (Inr (if \<not> dirty then (False, ShortNode k v fl)
             else case child of
                    ShortNode k' v' fl' \<Rightarrow> (True, ShortNode (k @ k') v' (newFlag t))
                  | _ \<Rightarrow> (True, ShortNode k child (newFlag t))))))"
| "trie_delete (Suc fuel) t (FullNode cs fl) prefix key =
     (case key of
        [] \<Rightarrow> None
      | x # xs \<Rightarrow>
          if unat x < length cs
          then rbind (trie_delete fuel t (cs ! unat x) (prefix @ [x]) xs) (\<lambda>(dirty, nn).
            if \<not> dirty then Some (Inr (False, FullNode cs fl))
            else reduceFull t (cs[unat x := nn]) prefix)
          else None)"
| "trie_delete (Suc fuel) t (ValueNode v) prefix key = Some (Inr (True, NilNode))"
| "trie_delete (Suc fuel) t NilNode prefix key = Some (Inr (False, NilNode))"
| "trie_delete (Suc fuel) t (HashNode n) prefix key =
     rbind (resolveHash t n prefix) (\<lambda>rn.
       rbind (trie_delete fuel t rn prefix key) (\<lambda>(dirty, nn).
         Some (Inr (if \<not> dirty then (False, rn) else (True, nn)))))"

definition trie_fuel :: "bytes \<Rightarrow> nat" where
  "trie_fuel key = 2 * length key + 2"

definition full_key :: "Trie \<Rightarrow> bytes \<Rightarrow> bytes" where
  "full_key t key = (case tr_prefix t of None \<Rightarrow> key | Some prefix \<Rightarrow> prefix @ key)"

definition trie_key :: "Trie \<Rightarrow> bytes \<Rightarrow> bytes" where
  "trie_key t key = keybytesToHex (full_key t key)"

definition TryGet :: "bytes \<Rightarrow> Trie \<Rightarrow> (trie_error + bytes option \<times> Trie) option" where
  "TryGet key t =
     (let k = trie_key t key
      in rbind (tryGet (trie_fuel k) t (tr_root t) k 0) (\<lambda>(value, newroot, didResolve).
           Some (Inr (value, if didResolve then t\<lparr>tr_root := newroot\<rparr> else t))))"

definition TryDelete :: "bytes \<Rightarrow> Trie \<Rightarrow> (trie_error + Trie) option" where
  "TryDelete key t =
     (let k = trie_key t key
      in rbind (trie_delete (trie_fuel k) t (tr_root t) [] k) (\<lambda>(_, n). Some (Inr (t\<lparr>tr_root := n\<rparr>))))"

definition TryUpdate :: "bytes \<Rightarrow> bytes \<Rightarrow> Trie \<Rightarrow> (trie_error + Trie) option" where
  "TryUpdate key value t =
     (let k = trie_key t key
      in if length value \<noteq> 0
         then rbind (trie_insert (trie_fuel k) t (tr_root t) [] k (ValueNode value)) (\<lambda>(_, n). Some (Inr (t\<lparr>tr_root := n\<rparr>)))
         else rbind (trie_delete (trie_fuel k) t (tr_root t) [] k) (\<lambda>(_, n). Some (Inr (t\<lparr>tr_root := n\<rparr>))))"

text \<open>\<^verbatim>\<open>Get\<close>, \<^verbatim>\<open>Update\<close> and \<^verbatim>\<open>Delete\<close> only log an error; the trie is then unchanged.\<close>

definition trie_Get :: "bytes \<Rightarrow> Trie \<Rightarrow> (bytes option \<times> Trie) option" where
  "trie_Get key t = map_option (case_sum (\<lambda>_. (None, t)) id) (TryGet key t)"

definition trie_Update :: "bytes \<Rightarrow> bytes \<Rightarrow> Trie \<Rightarrow> Trie option" where
  "trie_Update key value t = map_option (case_sum (\<lambda>_. t) id) (TryUpdate key value t)"

definition trie_Delete :: "bytes \<Rightarrow> Trie \<Rightarrow> Trie option" where
  "trie_Delete key t = map_option (case_sum (\<lambda>_. t) id) (TryDelete key t)"

section \<open>Nodes that represent a tree\<close>

text \<open>
  A node represents a reference tree when it has its shape, up to parts that are replaced by their hash.  What a
  hash stands for and what a cache flag promises are the parameters \<open>H\<close> and \<open>F\<close>; their first argument tells the
  root of a trie from the other nodes.
\<close>

inductive rep :: "(bool \<Rightarrow> bytes \<Rightarrow> tree \<Rightarrow> bool) \<Rightarrow> (bool \<Rightarrow> nodeFlag \<Rightarrow> tree \<Rightarrow> bool) \<Rightarrow> bool \<Rightarrow> node \<Rightarrow> tree \<Rightarrow> bool"
  for H F where
  rep_Nil: "rep H F b NilNode TNil"
| rep_Value: "rep H F b (ValueNode v) (TVal v)"
| rep_Short: "rep H F False n t \<Longrightarrow> F b fl (TShort k t) \<Longrightarrow> rep H F b (ShortNode k n fl) (TShort k t)"
| rep_Full: "list_all2 (rep H F False) ns ts \<Longrightarrow> F b fl (TFull ts) \<Longrightarrow> rep H F b (FullNode ns fl) (TFull ts)"
| rep_Hash: "H b h t \<Longrightarrow> rep H F b (HashNode h) t"

inductive_simps rep_simps [simp]:
  "rep H F b NilNode t"
  "rep H F b (ValueNode v) t"
  "rep H F b (ShortNode k n fl) t"
  "rep H F b (FullNode ns fl) t"
  "rep H F b (HashNode h) t"

fun is_HashNode :: "node \<Rightarrow> bool" where
  "is_HashNode (HashNode h) = True"
| "is_HashNode _ = False"

text \<open>The places of a tree that a key can lead to: a value at its end, a well-formed tree before.\<close>

definition slot :: "tree \<Rightarrow> bytes \<Rightarrow> bool" where
  "slot t key \<longleftrightarrow> (if key = [] then t = TNil \<or> is_TVal t else tkey key \<and> wft t)"

lemma slot_TShort:
  assumes "slot (TShort k t) (k @ r)"
  shows "slot t r" and "k \<noteq> []" and "r \<noteq> [] \<Longrightarrow> is_TFull t"
proof -
  have k: "k \<noteq> []" and wf: "tkey (k @ r)" "wft (TShort k t)"
    using assms by (auto simp: slot_def split: if_splits)
  have "slot t r \<and> (r \<noteq> [] \<longrightarrow> is_TFull t)"
  proof (cases "hasTerm k")
    case True
    then have "tkey k"
      using wf(2) by (simp add: tkey_def)
    then show ?thesis
      using wf True tkey_prefix by (auto simp: slot_def)
  next
    case False
    then show ?thesis
      using wf tkey_append [of k r] by (auto simp: slot_def)
  qed
  then show "slot t r" "r \<noteq> [] \<Longrightarrow> is_TFull t"
    by simp_all
  show "k \<noteq> []"
    by (rule k)
qed

lemma slot_TFull:
  assumes "slot (TFull ts) (x # key)"
  shows "length ts = 17" and "unat x < 17" and "slot (ts ! unat x) key"
proof -
  have "tkey (x # key)" and wf: "wft (TFull ts)"
    using assms by (simp_all add: slot_def)
  then consider "x = 16" "key = []" | "x < 16" "tkey key"
    by (auto simp: tkey_Cons)
  then have "unat x < 17 \<and> slot (ts ! unat x) key"
  proof cases
    case 1
    then show ?thesis
      using wf by (simp add: slot_def)
  next
    case 2
    then show ?thesis
      using wft_child [OF wf] unat_nibble [of x] by (auto simp: slot_def)
  qed
  then show "unat x < 17" and "slot (ts ! unat x) key"
    by simp_all
  show "length ts = 17"
    using wf by simp
qed

lemma slot_TVal: "slot (TVal v) key \<Longrightarrow> key = []"
  by (auto simp: slot_def split: if_splits)

lemma slot_TFull_nonempty: "slot (TFull ts) key \<Longrightarrow> key \<noteq> []"
  by (auto simp: slot_def)

lemma slot_trie_key: "wft t \<Longrightarrow> slot t (trie_key tr key)"
  by (simp add: slot_def trie_key_def tkey_hex) (metis tkey_hex tkey_nonempty)

lemma enough_fuel: "2 * length k + (if b then 2 else 1) \<le> trie_fuel k"
  by (simp add: trie_fuel_def)

lemma fuel_step: "m < n \<Longrightarrow> 2 * n + 1 \<le> Suc fuel \<Longrightarrow> 2 * m + (if b then 2 else 1) \<le> (fuel :: nat)"
  by simp

lemma trie_insert_ShortNode:
  "key \<noteq> [] \<Longrightarrow> trie_insert (Suc fuel) t (ShortNode k v fl) prefix key value =
     (let matchlen = prefixLen key k
      in if matchlen = length k
         then rbind (trie_insert fuel t v (prefix @ take matchlen key) (drop matchlen key) value) (\<lambda>(dirty, nn).
           Some (Inr (if \<not> dirty then (False, ShortNode k v fl) else (True, ShortNode k nn (newFlag t)))))
         else if matchlen < length key \<and> unat (k ! matchlen) < 17 \<and> unat (key ! matchlen) < 17
         then rbind (trie_insert fuel t NilNode (prefix @ take (matchlen + 1) k) (drop (matchlen + 1) k) v) (\<lambda>(_, c1).
           rbind (trie_insert fuel t NilNode (prefix @ take (matchlen + 1) key) (drop (matchlen + 1) key) value) (\<lambda>(_, c2).
             let branch = FullNode ((replicate 17 NilNode)[unat (k ! matchlen) := c1, unat (key ! matchlen) := c2]) (newFlag t)
             in Some (Inr (True, if matchlen = 0 then branch else ShortNode (take matchlen key) branch (newFlag t)))))
         else None)"
  by (induction key) (simp_all add: Let_def)

lemma onlyChild_found: "0 \<le> pos \<Longrightarrow> onlyChild pos i ns = (if \<forall>n \<in> set ns. n = NilNode then pos else - 2)"
  by (induction ns arbitrary: i) auto

lemma onlyChild_single:
  "j < length ns \<Longrightarrow> ns ! j \<noteq> NilNode \<Longrightarrow> \<forall>l < length ns. l \<noteq> j \<longrightarrow> ns ! l = NilNode \<Longrightarrow> onlyChild (- 1) i ns = int (i + j)"
proof (induction ns arbitrary: i j)
  case (Cons c cs)
  show ?case
  proof (cases j)
    case 0
    then have "cs ! l = NilNode" if "l < length cs" for l
      using Cons.prems(3) that by force
    then show ?thesis
      using Cons.prems(2) 0 by (auto simp: onlyChild_found in_set_conv_nth)
  next
    case (Suc l)
    then have "c = NilNode"
      using Cons.prems(3) by force
    then show ?thesis
      using Cons.IH [of l "Suc i"] Cons.prems Suc by fastforce
  qed
qed simp

lemma onlyChild_many:
  "j < l \<Longrightarrow> l < length ns \<Longrightarrow> ns ! j \<noteq> NilNode \<Longrightarrow> ns ! l \<noteq> NilNode \<Longrightarrow> onlyChild (- 1) i ns = - 2"
proof (induction ns arbitrary: i j l)
  case (Cons c cs)
  then obtain l' where l: "l = Suc l'" "l' < length cs" "cs ! l' \<noteq> NilNode"
    by (cases l) auto
  show ?case
  proof (cases "c = NilNode")
    case True
    then show ?thesis
      using Cons.prems(1,3) Cons.IH [of "j - 1" l' "Suc i"] l by (cases j) auto
  next
    case False
    then show ?thesis
      using l by (auto simp: onlyChild_found)
  qed
qed simp

lemma tdel_children:
  assumes "wft (TFull ts)" and "tkey (x # key)"
  shows "length (ts[unat x := tdel (ts ! unat x) key]) = 17"
    and "children (ts[unat x := tdel (ts ! unat x) key]) \<noteq> {}"
    and "\<forall>i < 16. wft (ts[unat x := tdel (ts ! unat x) key] ! i)"
    and "ts[unat x := tdel (ts ! unat x) key] ! 16 = TNil \<or> is_TVal (ts[unat x := tdel (ts ! unat x) key] ! 16)"
proof -
  have ts: "length ts = 17" "\<forall>i < 16. wft (ts ! i)" "ts ! 16 = TNil \<or> is_TVal (ts ! 16)" "2 \<le> card (children ts)"
    using assms(1) unfolding wft_TFull by simp_all
  have x: "x = 16 \<and> key = [] \<or> x < 16 \<and> tkey key \<and> unat x < 16"
    using assms(2) by (auto simp: tkey_Cons unat_nibble)
  have c: "x = 16 \<Longrightarrow> tdel (ts ! unat x) key = TNil" "x < 16 \<Longrightarrow> wft (tdel (ts ! unat x) key)"
    using ts(3) x tdel_ok [OF wft_child [OF assms(1)]] by (auto elim!: is_TValE)
  obtain i where "i \<in> children ts" "i \<noteq> unat x"
    using ts(4) by (metis card_le_Suc0_iff_eq finite_children not_less_eq_eq numeral_2_eq_2)
  then show "children (ts[unat x := tdel (ts ! unat x) key]) \<noteq> {}"
    by (auto simp: children_def)
  show "length (ts[unat x := tdel (ts ! unat x) key]) = 17"
    using ts(1) by simp
  show "\<forall>i < 16. wft (ts[unat x := tdel (ts ! unat x) key] ! i)"
    "ts[unat x := tdel (ts ! unat x) key] ! 16 = TNil \<or> is_TVal (ts[unat x := tdel (ts ! unat x) key] ! 16)"
    using ts c x by (auto simp: nth_list_update)
qed

locale trie_store =
  fixes db :: "Database option"
    and H :: "bool \<Rightarrow> bytes \<Rightarrow> tree \<Rightarrow> bool"
    and F :: "bool \<Rightarrow> nodeFlag \<Rightarrow> tree \<Rightarrow> bool"
  assumes fresh: "nf_hash fl = None \<Longrightarrow> nf_dirty fl \<Longrightarrow> F b fl t"
    and new_gen: "F b fl t \<Longrightarrow> F b (fl\<lparr>nf_gen := g\<rparr>) t"
    and hashed: "H b h t \<Longrightarrow> (\<exists>k u. t = TShort k u) \<or> (\<exists>ts. t = TFull ts)"
    and resolved: "H b h t \<Longrightarrow> tr_db tr = db \<Longrightarrow>
      \<exists>n. resolveHash tr h prefix = Some (Inr n) \<and> rep H F b n t \<and> \<not> is_HashNode n"
begin

abbreviation "R \<equiv> rep H F"

lemma newFlag_ok [simp]: "F b (newFlag tr) t"
  by (rule fresh) (simp_all add: newFlag_def)

lemma tryGet_rep:
  assumes "tr_db tr = db"
  shows "R b n t \<Longrightarrow> slot t (drop pos key) \<Longrightarrow> pos \<le> length key \<Longrightarrow>
    2 * (length key - pos) + (if is_HashNode n then 2 else 1) \<le> fuel \<Longrightarrow>
    \<exists>n' r. tryGet fuel tr n key pos = Some (Inr (tlook t (drop pos key), n', r)) \<and> R b n' t"
proof (induction fuel arbitrary: b n t pos)
  case (Suc fuel)
  show ?case
  proof (cases n)
    case (ShortNode k v fl)
    then obtain u where u: "t = TShort k u" "R False v u" "F b fl t"
      using Suc.prems(1) by auto
    show ?thesis
    proof (cases "length key < pos + length k \<or> take (length k) (drop pos key) \<noteq> k")
      case True
      then show ?thesis
        using u Suc.prems(3) by (auto simp: ShortNode)
    next
      case False
      then obtain r where r: "drop pos key = k @ r"
        by (metis append_take_drop_id)
      moreover have "drop (pos + length k) key = drop (length k) (drop pos key)"
        by (simp add: add.commute)
      ultimately have rest: "drop (pos + length k) key = r" "slot u r" "k \<noteq> []"
        using slot_TShort [of k u r] Suc.prems(2) u(1) by auto
      have "2 * (length key - (pos + length k)) + (if is_HashNode v then 2 else 1) \<le> fuel"
        using arg_cong [OF r, of length] arg_cong [OF rest(1), of length] rest(3) Suc.prems(4)
        by (intro fuel_step [of _ "length key - pos"]) (simp_all add: ShortNode)
      then obtain n' res where "tryGet fuel tr v key (pos + length k) = Some (Inr (tlook u r, n', res))"
          "R False n' u"
        using Suc.IH [OF u(2), of "pos + length k"] False rest by auto
      then show ?thesis
        using False u r new_gen [OF u(3)] by (simp add: ShortNode)
    qed
  next
    case (FullNode ns fl)
    then obtain ts where ts: "t = TFull ts" "list_all2 (R False) ns ts" "F b fl t"
      using Suc.prems(1) by auto
    obtain x xs where x: "drop pos key = x # xs"
      using slot_TFull_nonempty [of ts "drop pos key"] Suc.prems(2) ts(1) by (cases "drop pos key") auto
    have pos: "pos < length key" "key ! pos = x" "drop (pos + 1) key = xs"
      using x by (metis drop_all not_le list.simps(3)) (use x in \<open>simp_all add: nth_via_drop drop_Suc flip: tl_drop\<close>)
    have slot: "unat x < length ts" "length ns = length ts" "slot (ts ! unat x) xs"
      using slot_TFull [of ts x xs] Suc.prems(2) ts x by (auto simp: list_all2_lengthD)
    moreover have "R False (ns ! unat x) (ts ! unat x)"
      using slot(1,2) list_all2_nthD [OF ts(2)] by simp
    moreover have "2 * (length key - (pos + 1)) + (if is_HashNode (ns ! unat x) then 2 else 1) \<le> fuel"
      using pos(1) Suc.prems(4) by (intro fuel_step [of _ "length key - pos"]) (simp_all add: FullNode)
    ultimately obtain n' r where ih: "tryGet fuel tr (ns ! unat x) key (pos + 1) = Some (Inr (tlook (ts ! unat x) xs, n', r))"
        "R False n' (ts ! unat x)"
      using Suc.IH [of False "ns ! unat x" "ts ! unat x" "pos + 1"] pos by auto
    have "list_all2 (R False) (ns[unat x := n']) ts"
      using list_all2_update_cong [OF ts(2) ih(2), of "unat x"] by simp
    then show ?thesis
      using ih slot pos x ts new_gen [OF ts(3)] by (simp add: FullNode)
  next
    case (HashNode h)
    obtain m where m: "resolveHash tr h (take pos key) = Some (Inr m)" "R b m t" "\<not> is_HashNode m"
      using resolved [OF _ assms, of b h t] Suc.prems(1) by (auto simp: HashNode)
    then obtain n' res where "tryGet fuel tr m key pos = Some (Inr (tlook t (drop pos key), n', res))" "R b n' t"
      using Suc.IH [OF m(2) Suc.prems(2,3)] Suc.prems(4) by (auto simp: HashNode)
    then show ?thesis
      using m by (auto simp: HashNode)
  qed (use Suc.prems in \<open>auto dest: slot_TVal\<close>)
qed (simp split: if_splits)

lemma insert_Nil:
  "R False v u \<Longrightarrow> 0 < fuel \<Longrightarrow>
     \<exists>n'. trie_insert fuel tr NilNode p key v = Some (Inr (True, n')) \<and> R False n' (tshort key u)"
  by (cases fuel; cases key) (auto simp: tshort_def)

lemma insert_branch:
  assumes "R False v u" and "wft (TShort k u)" and "tkey key" and "prefixLen key k \<noteq> length k" and "0 < fuel"
  shows "\<exists>n'. trie_insert (Suc fuel) tr (ShortNode k v fl) p key (ValueNode w) = Some (Inr (True, n')) \<and>
    R b n' (tins (TShort k u) key (TVal w))"
proof -
  have "nibbles (butlast k)"
    using assms(2) by (auto split: if_splits dest: in_set_butlastD)
  then obtain q a k' c key' where *: "k = q @ a # k'" "key = q @ c # key'" "a \<noteq> c" "prefixLen key k = length q"
    using split_keys [OF assms(3) _ assms(4)] by blast
  have small: "unat a < 17" "unat c < 17"
    using skey_nth(1) [OF disjI1 [OF assms(2)] *(1)] skey_nth(1) [OF disjI2 [OF assms(3)] *(2)] by simp_all
  obtain n1 n2 where n: "trie_insert fuel tr NilNode (p @ q @ [a]) k' v = Some (Inr (True, n1))" "R False n1 (tshort k' u)"
    "trie_insert fuel tr NilNode (p @ q @ [c]) key' (ValueNode w) = Some (Inr (True, n2))" "R False n2 (tshort key' (TVal w))"
    using insert_Nil [OF assms(1,5)] insert_Nil [OF rep_Value assms(5)] by blast
  let ?ns = "(replicate 17 NilNode)[unat a := n1, unat c := n2]"
  have "list_all2 (R False) (replicate 17 NilNode) (replicate 17 TNil)"
    by (simp add: list_all2_conv_all_nth rep_Nil)
  then have "R b' (FullNode ?ns (newFlag tr)) (tbranch (a # k') u (c # key') (TVal w))" for b'
    unfolding tbranch_def using n(2,4) by (auto intro: list_all2_update_cong)
  moreover have "tins (TShort k u) key (TVal w) = tshort q (tbranch (a # k') u (c # key') (TVal w))"
    using *(4) assms(4) by (subst tins_TShort) (simp_all add: *)
  moreover have "trie_insert (Suc fuel) tr (ShortNode k v fl) p key (ValueNode w) =
      Some (Inr (True, if q = [] then FullNode ?ns (newFlag tr) else ShortNode q (FullNode ?ns (newFlag tr)) (newFlag tr)))"
    using *(4) n(1,3) small unfolding * by (subst trie_insert_ShortNode) (simp_all add: Let_def)
  ultimately show ?thesis
    by (auto simp: tshort_def)
qed

lemma insert_rep:
  assumes "tr_db tr = db"
  shows "R b n t \<Longrightarrow> slot t key \<Longrightarrow> 2 * length key + (if is_HashNode n then 2 else 1) \<le> fuel \<Longrightarrow>
    \<exists>d n'. trie_insert fuel tr n p key (ValueNode w) = Some (Inr (d, n')) \<and> R b n' (tins t key (TVal w)) \<and>
      (\<not> d \<longrightarrow> tins t key (TVal w) = t)"
proof (induction fuel arbitrary: b n t p key)
  case (Suc fuel)
  show ?case
  proof (cases "key = []")
    case True
    then show ?thesis
      using Suc.prems(1,2) by (cases n) (auto simp: slot_def rep_Value)
  next
    case key: False
    then have wf: "wft t" "tkey key"
      using Suc.prems(2) by (simp_all add: slot_def)
    show ?thesis
    proof (cases n)
      case NilNode
      then show ?thesis
        using Suc.prems(1) key by (cases key) auto
    next
      case (ShortNode k v fl)
      then obtain u where u: "t = TShort k u" "R False v u"
        using Suc.prems(1) by auto
      show ?thesis
      proof (cases "prefixLen key k = length k")
        case True
        then obtain r where r: "key = k @ r"
          using prefixLen_eq_length by blast
        then have "slot u r" "k \<noteq> []"
          using slot_TShort [of k u r] Suc.prems(2) u(1) by auto
        moreover from this have "2 * length r + (if is_HashNode v then 2 else 1) \<le> fuel"
          using Suc.prems(3) r by (intro fuel_step [of _ "length key"]) (simp_all add: ShortNode)
        ultimately obtain d n' where "trie_insert fuel tr v (p @ k) r (ValueNode w) = Some (Inr (d, n'))"
            "R False n' (tins u r (TVal w))" "\<not> d \<Longrightarrow> tins u r (TVal w) = u"
          using Suc.IH [OF u(2)] by blast
        moreover have "trie_insert (Suc fuel) tr n p key (ValueNode w) =
            rbind (trie_insert fuel tr v (p @ k) r (ValueNode w)) (\<lambda>(dirty, nn).
              Some (Inr (if \<not> dirty then (False, n) else (True, ShortNode k nn (newFlag tr)))))"
          using key unfolding r ShortNode by (subst trie_insert_ShortNode) simp_all
        ultimately show ?thesis
          using key Suc.prems(1) by (cases d) (auto simp: u r tins_TShort ShortNode)
      next
        case False
        then show ?thesis
          using insert_branch [OF u(2) _ wf(2) False, of fuel] wf(1) u(1) Suc.prems(3) key by (fastforce simp: ShortNode)
      qed
    next
      case (FullNode ns fl)
      then obtain ts where ts: "t = TFull ts" "list_all2 (R False) ns ts"
        using Suc.prems(1) by auto
      obtain x xs where x: "key = x # xs"
        using key by (cases key) auto
      have slot: "unat x < length ts" "length ns = length ts" "slot (ts ! unat x) xs"
        using slot_TFull [of ts x xs] Suc.prems(2) ts x by (auto simp: list_all2_lengthD)
      moreover have "R False (ns ! unat x) (ts ! unat x)"
        using slot(1,2) list_all2_nthD [OF ts(2)] by simp
      moreover have "2 * length xs + (if is_HashNode (ns ! unat x) then 2 else 1) \<le> fuel"
        using Suc.prems(3) x by (intro fuel_step [of _ "length key"]) (simp_all add: FullNode)
      ultimately obtain d n' where ih: "trie_insert fuel tr (ns ! unat x) (p @ [x]) xs (ValueNode w) = Some (Inr (d, n'))"
          "R False n' (tins (ts ! unat x) xs (TVal w))" "\<not> d \<Longrightarrow> tins (ts ! unat x) xs (TVal w) = ts ! unat x"
        using Suc.IH by blast
      have "list_all2 (R False) (ns[unat x := n']) (ts[unat x := tins (ts ! unat x) xs (TVal w)])"
        by (rule list_all2_update_cong [OF ts(2) ih(2)])
      then show ?thesis
        using ih(1,3) slot Suc.prems(1) by (cases d) (auto simp: FullNode x ts)
    next
      case (HashNode h)
      obtain m where m: "resolveHash tr h p = Some (Inr m)" "R b m t" "\<not> is_HashNode m"
        using resolved [OF _ assms, of b h t] Suc.prems(1) by (auto simp: HashNode)
      then obtain d n' where "trie_insert fuel tr m p key (ValueNode w) = Some (Inr (d, n'))"
          "R b n' (tins t key (TVal w))" "\<not> d \<longrightarrow> tins t key (TVal w) = t"
        using Suc.IH [OF m(2) Suc.prems(2), of p] Suc.prems(3) by (auto simp: HashNode)
      then show ?thesis
        using m key by (cases key; cases d) (auto simp: HashNode)
    next
      case (ValueNode v)
      then show ?thesis
        using Suc.prems(1) wf(1) by auto
    qed
  qed
qed (simp split: if_splits)

lemma rep_Nil_iff: "R b n t \<Longrightarrow> n = NilNode \<longleftrightarrow> t = TNil"
  by (erule rep.cases) (auto dest: hashed)

lemma resolve_rep:
  assumes "tr_db tr = db" and "R b n t"
  obtains m where "resolve tr n p = Some (Inr m)" "R b m t" "\<not> is_HashNode m"
  using assms(2) resolved [OF _ assms(1), of b _ t p] that by (cases n) auto

lemma rep_child_Nil: "list_all2 (R False) ns ts \<Longrightarrow> i < length ts \<Longrightarrow> ns ! i = NilNode \<longleftrightarrow> ts ! i = TNil"
  by (auto simp: list_all2_conv_all_nth dest: rep_Nil_iff)

lemma reduceFull_single:
  assumes "tr_db tr = db" and "list_all2 (R False) ns ts" and "length ts = 17" and pos: "children ts = {pos}"
    and "\<forall>i < 16. wft (ts ! i)" and "ts ! 16 = TNil \<or> is_TVal (ts ! 16)"
  shows "\<exists>n'. reduceFull tr ns p = Some (Inr (True, n')) \<and> R b n' (treduce ts) \<and> \<not> is_HashNode n'"
proof -
  have nil: "ns ! i = NilNode \<longleftrightarrow> ts ! i = TNil" if "i < 17" for i
    using that assms(3) rep_child_Nil [OF assms(2)] by simp
  have len: "length ns = 17"
    using assms(2,3) by (simp add: list_all2_lengthD)
  have ts: "pos < 17" "ts ! pos \<noteq> TNil" "\<And>i. i < 17 \<Longrightarrow> i \<noteq> pos \<Longrightarrow> ts ! i = TNil"
    using pos assms(3) by (auto simp: children_def)
  then have only: "onlyChild (- 1) 0 ns = int pos"
    using onlyChild_single [of pos ns 0] nil len by simp
  have R: "R False (ns ! pos) (ts ! pos)"
    using assms(2) ts(1) len by (simp add: list_all2_conv_all_nth)
  show ?thesis
  proof (cases "pos = 16")
    case True
    then obtain v where "ts ! pos = TVal v"
      using assms(6) ts(2) by (auto elim: is_TValE)
    then show ?thesis
      using only True R by (simp add: reduceFull_def Let_def treduce_single [OF pos])
  next
    case False
    then have "wft (ts ! pos)"
      using ts(1) assms(5) by simp
    obtain m where m: "resolve tr (ns ! pos) p = Some (Inr m)" "R False m (ts ! pos)" "\<not> is_HashNode m"
      using resolve_rep [OF assms(1) R] .
    then show ?thesis
      using only False R ts(2) \<open>wft (ts ! pos)\<close>
      by (cases m) (auto simp: reduceFull_def Let_def treduce_single [OF pos])
  qed
qed

lemma reduceFull_rep:
  assumes "tr_db tr = db" and "list_all2 (R False) ns ts" and "length ts = 17" and "children ts \<noteq> {}"
    and "\<forall>i < 16. wft (ts ! i)" and "ts ! 16 = TNil \<or> is_TVal (ts ! 16)"
  shows "\<exists>n'. reduceFull tr ns p = Some (Inr (True, n')) \<and> R b n' (treduce ts) \<and> \<not> is_HashNode n'"
proof (cases "\<exists>pos. children ts = {pos}")
  case True
  then show ?thesis
    using reduceFull_single [OF assms(1-3) _ assms(5,6)] by blast
next
  case False
  then have "card (children ts) \<noteq> 0" "card (children ts) \<noteq> 1"
    using assms(4) by (auto simp: card_1_singleton_iff)
  then have many: "2 \<le> card (children ts)"
    by linarith
  obtain j l where jl: "j \<in> children ts" "l \<in> children ts" "j < l"
    using assms(4) False by (metis is_singletonI' is_singletonE linorder_neqE_nat)
  then have "ns ! j \<noteq> NilNode" "ns ! l \<noteq> NilNode" "l < length ns"
    using rep_child_Nil [OF assms(2)] list_all2_lengthD [OF assms(2)] by (auto simp: children_def)
  then have "onlyChild (- 1) 0 ns = - 2"
    using onlyChild_many jl(3) by blast
  then show ?thesis
    using assms(2) by (simp add: reduceFull_def treduce_many [OF many])
qed

lemma delete_merge:
  assumes "R False n' t'" and "\<not> is_HashNode n'"
  shows "R b (case n' of ShortNode k' v' fl' \<Rightarrow> ShortNode (k @ k') v' (newFlag tr) | _ \<Rightarrow> ShortNode k n' (newFlag tr))
    (case t' of TShort k' u \<Rightarrow> TShort (k @ k') u | u \<Rightarrow> TShort k u) \<and>
    \<not> is_HashNode (case n' of ShortNode k' v' fl' \<Rightarrow> ShortNode (k @ k') v' (newFlag tr) | _ \<Rightarrow> ShortNode k n' (newFlag tr))"
  using assms by (cases n') auto

lemma delete_rep:
  assumes "tr_db tr = db"
  shows "R b n t \<Longrightarrow> slot t key \<Longrightarrow> 2 * length key + (if is_HashNode n then 2 else 1) \<le> fuel \<Longrightarrow>
    \<exists>d n'. trie_delete fuel tr n p key = Some (Inr (d, n')) \<and> R b n' (tdel t key) \<and>
      (if d then \<not> is_HashNode n' else tdel t key = t)"
proof (induction fuel arbitrary: b n t p key)
  case (Suc fuel)
  show ?case
  proof (cases n)
    case (ShortNode k v fl)
    then obtain u where u: "t = TShort k u" "R False v u"
      using Suc.prems(1) by auto
    consider "prefixLen key k < length k" | "key = k" | r where "key = k @ r" "r \<noteq> []"
      using prefixLen_le(2) [of key k] prefixLen_eq_length [of key k] by fastforce
    then show ?thesis
    proof cases
      case 1
      then show ?thesis
        using Suc.prems(1) u by (auto simp: ShortNode Let_def)
    next
      case 2
      then show ?thesis
        using prefixLen_append [of k "[]"] by (auto simp: ShortNode u Let_def)
    next
      case 3
      then have "slot u r" "k \<noteq> []" and full: "is_TFull u"
        using slot_TShort [of k u r] Suc.prems(2) u(1) by auto
      moreover from this have "2 * length r + (if is_HashNode v then 2 else 1) \<le> fuel"
        using Suc.prems(3) 3 by (intro fuel_step [of _ "length key"]) (simp_all add: ShortNode)
      ultimately obtain d n' where ih: "trie_delete fuel tr v (p @ k) r = Some (Inr (d, n'))"
          "R False n' (tdel u r)" "if d then \<not> is_HashNode n' else tdel u r = u"
        using Suc.IH [OF u(2)] by blast
      let ?n = "case n' of ShortNode k' v' fl' \<Rightarrow> ShortNode (k @ k') v' (newFlag tr) | _ \<Rightarrow> ShortNode k n' (newFlag tr)"
      have del: "trie_delete (Suc fuel) tr n p key = Some (Inr (if \<not> d then (False, n) else (True, ?n)))"
        using 3(2) ih(1) unfolding 3(1) ShortNode by (cases n') simp_all
      have t: "tdel t key = (case tdel u r of TShort k' t' \<Rightarrow> TShort (k @ k') t' | t' \<Rightarrow> TShort k t')"
        using 3 by (simp add: u)
      show ?thesis
      proof (cases d)
        case True
        then show ?thesis
          using delete_merge [OF ih(2), of b k tr] ih(3) unfolding del t by auto
      next
        case False
        then have "tdel t key = t"
          using ih(3) full unfolding t by (auto simp: u elim!: is_TFullE)
        then show ?thesis
          using False Suc.prems(1) unfolding del by auto
      qed
    qed
  next
    case (FullNode ns fl)
    then obtain ts where ts: "t = TFull ts" "list_all2 (R False) ns ts"
      using Suc.prems(1) by auto
    obtain x xs where x: "key = x # xs"
      using slot_TFull_nonempty Suc.prems(2) ts(1) by (cases key) auto
    have slot: "unat x < length ts" "length ns = length ts" "slot (ts ! unat x) xs"
      using slot_TFull [of ts x xs] Suc.prems(2) ts x by (auto simp: list_all2_lengthD)
    moreover have "R False (ns ! unat x) (ts ! unat x)"
      using slot(1,2) list_all2_nthD [OF ts(2)] by simp
    moreover have "2 * length xs + (if is_HashNode (ns ! unat x) then 2 else 1) \<le> fuel"
      using Suc.prems(3) x by (intro fuel_step [of _ "length key"]) (simp_all add: FullNode)
    ultimately obtain d n' where ih: "trie_delete fuel tr (ns ! unat x) (p @ [x]) xs = Some (Inr (d, n'))"
        "R False n' (tdel (ts ! unat x) xs)" "if d then \<not> is_HashNode n' else tdel (ts ! unat x) xs = ts ! unat x"
      using Suc.IH by blast
    have "list_all2 (R False) (ns[unat x := n']) (ts[unat x := tdel (ts ! unat x) xs])"
      by (rule list_all2_update_cong [OF ts(2) ih(2)])
    moreover have wf: "wft (TFull ts)" "tkey (x # xs)"
      using Suc.prems(2) by (simp_all add: slot_def ts x)
    ultimately obtain n2 where "reduceFull tr (ns[unat x := n']) p = Some (Inr (True, n2))"
        "R b n2 (treduce (ts[unat x := tdel (ts ! unat x) xs]))" "\<not> is_HashNode n2"
      using reduceFull_rep [OF assms] tdel_children [OF wf] by blast
    moreover have "treduce ts = TFull ts"
      using wf(1) by (intro treduce_many) simp
    ultimately show ?thesis
      using ih(1,3) slot Suc.prems(1) by (cases d) (auto simp: FullNode x ts)
  next
    case (HashNode h)
    obtain m where m: "resolveHash tr h p = Some (Inr m)" "R b m t" "\<not> is_HashNode m"
      using resolved [OF _ assms, of b h t] Suc.prems(1) by (auto simp: HashNode)
    then obtain d n' where "trie_delete fuel tr m p key = Some (Inr (d, n'))" "R b n' (tdel t key)"
        "if d then \<not> is_HashNode n' else tdel t key = t"
      using Suc.IH [OF m(2) Suc.prems(2), of p] Suc.prems(3) by (auto simp: HashNode)
    then show ?thesis
      using m by (cases d) (auto simp: HashNode)
  qed (use Suc.prems in \<open>auto simp: rep_Nil\<close>)
qed (simp split: if_splits)

lemma TryGet_rep:
  assumes "tr_db tr = db" and "R True (tr_root tr) t" and "wft t"
  shows "\<exists>n. TryGet key tr = Some (Inr (tlook t (trie_key tr key), tr\<lparr>tr_root := n\<rparr>)) \<and> R True n t"
proof -
  let ?k = "trie_key tr key"
  obtain n r where get: "tryGet (trie_fuel ?k) tr (tr_root tr) ?k 0 = Some (Inr (tlook t ?k, n, r))" and n: "R True n t"
    using tryGet_rep [OF assms(1,2), of 0 ?k "trie_fuel ?k"] slot_trie_key [OF assms(3)] enough_fuel by auto
  have "TryGet key tr = Some (Inr (tlook t ?k, tr\<lparr>tr_root := if r then n else tr_root tr\<rparr>))"
    unfolding TryGet_def Let_def get by simp
  then show ?thesis
    using n assms(2) by (intro exI [of _ "if r then n else tr_root tr"]) simp
qed

lemma TryDelete_rep:
  assumes "tr_db tr = db" and "R True (tr_root tr) t" and "wft t"
  shows "\<exists>n. TryDelete key tr = Some (Inr (tr\<lparr>tr_root := n\<rparr>)) \<and> R True n (tdel t (trie_key tr key))"
proof -
  let ?k = "trie_key tr key"
  obtain d n where "trie_delete (trie_fuel ?k) tr (tr_root tr) [] ?k = Some (Inr (d, n))" "R True n (tdel t ?k)"
    using delete_rep [OF assms(1,2), of ?k "trie_fuel ?k" "[]"] slot_trie_key [OF assms(3)] enough_fuel by auto
  then show ?thesis
    by (intro exI [of _ n]) (simp add: TryDelete_def)
qed

lemma TryUpdate_rep:
  assumes "tr_db tr = db" and "R True (tr_root tr) t" and "wft t"
  shows "\<exists>n. TryUpdate key v tr = Some (Inr (tr\<lparr>tr_root := n\<rparr>)) \<and>
    R True n (if v = [] then tdel t (trie_key tr key) else tins t (trie_key tr key) (TVal v))"
proof (cases "v = []")
  case True
  then show ?thesis
    using TryDelete_rep [OF assms] by (simp add: TryUpdate_def TryDelete_def)
next
  case False
  let ?k = "trie_key tr key"
  obtain d n where "trie_insert (trie_fuel ?k) tr (tr_root tr) [] ?k (ValueNode v) = Some (Inr (d, n))"
    "R True n (tins t ?k (TVal v))"
    using insert_rep [OF assms(1,2), of ?k "trie_fuel ?k" "[]" v] slot_trie_key [OF assms(3)] enough_fuel by auto
  then show ?thesis
    using False by (intro exI [of _ n]) (simp add: TryUpdate_def)
qed

end

end
