(* ===== verification/Trie_Store.thy ===== *)
theory Trie_Store
  imports Trie
begin

text \<open>
  What the database holds for a reference tree.  The encoding \<open>tenc\<close> is that of a node whose large children are
  replaced by their hashes; a tree is stored when the database holds the encodings of its large subtrees under
  their hashes.  Decoding the encoding of a stored tree gives a node that represents it, which makes the database
  a store for the operations of \<^verbatim>\<open>trie/trie.go\<close>.
\<close>

section \<open>The encoding of a tree\<close>

text \<open>How a node refers to a child: by its encoding if that is short, by its hash otherwise.\<close>

definition trefer :: "keccak \<Rightarrow> bytes \<Rightarrow> bytes" where
  "trefer kec e = (if length e < 32 then e else rlp_string (Hash_Bytes (kec e)))"

lemma size_tree_drop [termination_simp]: "t \<in> set (drop n ts) \<Longrightarrow> size t < Suc (size_list size ts)"
  using size_list_estimation' [of t ts "size t" size] by (auto dest: in_set_dropD intro: le_imp_less_Suc)

fun tenc :: "keccak \<Rightarrow> tree \<Rightarrow> bytes" where
  "tenc kec TNil = rlp_string []"
| "tenc kec (TVal v) = rlp_string v"
| "tenc kec (TShort k t) =
     rlp_list (rlp_string (the (hexToCompact k)) @ (if is_TVal t then tenc kec t else trefer kec (tenc kec t)))"
| "tenc kec (TFull ts) =
     rlp_list (concat (map (\<lambda>t. trefer kec (tenc kec t)) (take 16 ts)) @ concat (map (tenc kec) (drop 16 ts)))"

definition thash :: "keccak \<Rightarrow> tree \<Rightarrow> hash" where
  "thash kec t = kec (tenc kec t)"

definition large :: "keccak \<Rightarrow> tree \<Rightarrow> bool" where
  "large kec t \<longleftrightarrow> 32 \<le> length (tenc kec t)"

fun stored :: "(hash \<Rightarrow> bytes option) \<Rightarrow> keccak \<Rightarrow> tree \<Rightarrow> bool" where
  "stored N kec TNil = True"
| "stored N kec (TVal v) = True"
| "stored N kec (TShort k t) =
     (stored N kec t \<and> (is_TVal t \<or> (large kec t \<longrightarrow> N (thash kec t) = Some (tenc kec t))))"
| "stored N kec (TFull ts) =
     (\<forall>t \<in> set (take 16 ts). stored N kec t \<and> (large kec t \<longrightarrow> N (thash kec t) = Some (tenc kec t)))"

text \<open>Bounds on the contents that keep all sizes below the limits of the encoding.\<close>

definition tsmall :: "tree \<Rightarrow> bool" where
  "tsmall t \<longleftrightarrow> (\<forall>key v. tlook t key = Some v \<longrightarrow> length key < 2 ^ 32 \<and> length v < 2 ^ 32)"

lemma tsmall_TVal: "tsmall (TVal v) \<Longrightarrow> length v < 2 ^ 32"
  by (auto simp: tsmall_def dest: spec [of _ "[]"])

lemma tsmall_TShort: "tsmall (TShort k t) \<Longrightarrow> tsmall t"
  unfolding tsmall_def tlook_TShort_Some by force

lemma tsmall_key: "tsmall (TShort k t) \<Longrightarrow> wft (TShort k t) \<Longrightarrow> length k < 2 ^ 32"
  using wft_inhabited [of "TShort k t"] unfolding tsmall_def tlook_TShort_Some by force

lemma tsmall_TFull:
  assumes "tsmall (TFull ts)" and "length ts = 17" and "i < 17"
  shows "tsmall (ts ! i)"
  unfolding tsmall_def
proof (intro allI impI)
  fix key v
  assume "tlook (ts ! i) key = Some v"
  then have "tlook (TFull ts) (of_nat i # key) = Some v"
    by (rule child_key [OF assms(2,3)])
  then have "length (of_nat i # key :: bytes) < 2 ^ 32 \<and> length v < 2 ^ 32"
    using assms(1) unfolding tsmall_def by blast
  then show "length key < 2 ^ 32 \<and> length v < 2 ^ 32"
    by simp
qed

section \<open>Sizes\<close>

lemma length_rlp_head: "n < 2 ^ 64 \<Longrightarrow> length (rlp_head st lt n) \<le> 9"
  using length_size_bytes [of n] by (auto simp: rlp_head_def)

lemma length_rlp_string_le: "length b < 2 ^ 64 \<Longrightarrow> length (rlp_string b) \<le> 9 + length b"
  using length_rlp_head [of "length b" "0x80" "0xB7"] by (auto simp: rlp_string_def)

lemma length_rlp_list_le: "length p < 2 ^ 64 \<Longrightarrow> length (rlp_list p) \<le> 9 + length p"
  using length_rlp_head [of "length p" "0xC0" "0xF7"] by (auto simp: rlp_list_def)

lemma length_trefer: "length (trefer kec e) \<le> 33"
  by (auto simp: trefer_def rlp_string_def rlp_head_def)

lemma length_concat_le: "\<forall>x \<in> set xs. length x \<le> n \<Longrightarrow> length (concat xs) \<le> n * length xs"
  by (induction xs) auto

lemma length_decodeNibbles: "decodeNibbles ns bs = Some r \<Longrightarrow> length r = length bs"
  by (induction ns bs arbitrary: r rule: decodeNibbles.induct) auto

lemma length_hexToCompact: "hexToCompact k = Some c \<Longrightarrow> length c \<le> Suc (length k)"
  by (auto simp: hexToCompact_def Let_def dest!: length_decodeNibbles split: if_splits)

lemma tenc_value_bound:
  assumes "t = TNil \<or> is_TVal t" and "tsmall t"
  shows "length (tenc kec t) \<le> 2 ^ 33"
proof -
  obtain v where v: "tenc kec t = rlp_string v" "length v < 2 ^ 32"
  proof (cases "t = TNil")
    case True
    then show thesis
      using that [of "[]"] by simp
  next
    case False
    then obtain v where "t = TVal v"
      using assms(1) by (auto elim: is_TValE)
    then show thesis
      using that [of v] tsmall_TVal [of v] assms(2) by simp
  qed
  show ?thesis
    using length_rlp_string_le [of v] v by simp
qed

lemma drop_16: "length ts = 17 \<Longrightarrow> drop 16 ts = [ts ! 16]"
  by (simp add: list_eq_iff_nth_eq)

lemma tenc_bound:
  assumes "wft t \<or> is_TVal t" and "tsmall t"
  shows "length (tenc kec t) < 2 ^ 40"
proof (cases t)
  case (TShort k u)
  have "hex_key k" "length k < 2 ^ 32"
    using assms tsmall_key by (auto simp: TShort hex_key_def split: if_splits)
  then obtain c where c: "hexToCompact k = Some c" "length c \<le> Suc (length k)"
    using compact_inverse length_hexToCompact by blast
  let ?u = "if is_TVal u then tenc kec u else trefer kec (tenc kec u)"
  have "length ?u \<le> 2 ^ 33"
    using assms(2) tsmall_TShort tenc_value_bound [of u kec] length_trefer [of kec "tenc kec u"] by (simp add: TShort)
  then have "length (rlp_string c @ ?u) \<le> 2 ^ 34"
    using c(2) \<open>length k < 2 ^ 32\<close> length_rlp_string_le [of c] by simp
  then show ?thesis
    using length_rlp_list_le [of "rlp_string c @ ?u"] by (simp add: TShort c(1))
next
  case (TFull ts)
  let ?a = "concat (map (\<lambda>t. trefer kec (tenc kec t)) (take 16 ts))"
  have ts: "length ts = 17" "drop 16 ts = [ts ! 16]" "ts ! 16 = TNil \<or> is_TVal (ts ! 16)"
    using assms(1) by (auto simp: TFull drop_16)
  have "length ?a \<le> 33 * 16"
    using length_concat_le [of "map (\<lambda>t. trefer kec (tenc kec t)) (take 16 ts)" 33] ts(1) by (simp add: length_trefer)
  moreover have "length (tenc kec (ts ! 16)) \<le> 2 ^ 33"
    using assms(2) tsmall_TFull [of ts 16] tenc_value_bound [OF ts(3)] ts by (simp add: TFull)
  ultimately show ?thesis
    using length_rlp_list_le [of "?a @ tenc kec (ts ! 16)"] by (simp add: TFull ts(2))
qed (use tenc_value_bound [of t kec] assms in auto)

section \<open>Decoding stored trees\<close>

text \<open>
  What a hash stands for, and what the cached hash of a node promises.  Only at the root may a hash stand for a
  tree with a short encoding, and a clean node without a hash is not the root and has a short encoding.
\<close>

definition hash_ok :: "(hash \<Rightarrow> bytes option) \<Rightarrow> keccak \<Rightarrow> bool \<Rightarrow> bytes \<Rightarrow> tree \<Rightarrow> bool" where
  "hash_ok N kec b h t \<longleftrightarrow>
     wft t \<and> t \<noteq> TNil \<and> tsmall t \<and> h = Hash_Bytes (thash kec t) \<and> (b \<or> large kec t) \<and>
     N (thash kec t) = Some (tenc kec t) \<and> stored N kec t"

definition flag_ok :: "(hash \<Rightarrow> bytes option) \<Rightarrow> keccak \<Rightarrow> bool \<Rightarrow> nodeFlag \<Rightarrow> tree \<Rightarrow> bool" where
  "flag_ok N kec b fl t \<longleftrightarrow>
     (\<forall>h. nf_hash fl = Some h \<longrightarrow> h = Hash_Bytes (thash kec t) \<and> (b \<or> large kec t) \<and>
        (\<not> nf_dirty fl \<longrightarrow> N (thash kec t) = Some (tenc kec t) \<and> stored N kec t)) \<and>
     (nf_hash fl = None \<and> \<not> nf_dirty fl \<longrightarrow> \<not> b \<and> \<not> large kec t)"

abbreviation trep :: "(hash \<Rightarrow> bytes option) \<Rightarrow> keccak \<Rightarrow> bool \<Rightarrow> node \<Rightarrow> tree \<Rightarrow> bool" where
  "trep N kec \<equiv> rep (hash_ok N kec) (flag_ok N kec)"

lemma flag_ok_None: "nf_hash fl = None \<Longrightarrow> \<not> large kec t \<Longrightarrow> flag_ok N kec False fl t"
  by (simp add: flag_ok_def)

lemma tenc_list: "wft t \<Longrightarrow> t \<noteq> TNil \<Longrightarrow> \<exists>p. tenc kec t = rlp_list p"
  by (cases t) (auto simp del: rlp_list_empty)

lemma trefer_item: "wft t \<Longrightarrow> rlp_item (trefer kec (tenc kec t))"
  using tenc_list [of t kec] unfolding trefer_def rlp_item_def by (cases "t = TNil") (auto simp del: rlp_string_empty)

lemma Hash_Bytes_nonempty [simp]: "Hash_Bytes h \<noteq> []"
  using length_Hash_Bytes [of h] by (metis list.size(3) zero_neq_numeral)

lemma decodeRef_tenc:
  assumes dec: "t \<noteq> TNil \<Longrightarrow> \<not> large kec t \<Longrightarrow> \<exists>n. dec None (tenc kec t @ rest) gen = Some (Inr n) \<and> trep N kec False n t"
    and wf: "wft t" "tsmall t" "stored N kec t" "large kec t \<longrightarrow> N (thash kec t) = Some (tenc kec t)"
    and len: "length (trefer kec (tenc kec t) @ rest) < 2 ^ 64"
  shows "\<exists>n. decodeRef dec (trefer kec (tenc kec t) @ rest) gen = Some (Inr (n, rest)) \<and> trep N kec False n t"
proof (cases "large kec t")
  case True
  then have t: "trefer kec (tenc kec t) = rlp_string (Hash_Bytes (thash kec t))" "t \<noteq> TNil"
    by (auto simp: trefer_def large_def thash_def)
  have "Split (trefer kec (tenc kec t) @ rest) = Inr (KString, Hash_Bytes (thash kec t), rest)"
    using Split_string [of "Hash_Bytes (thash kec t)" rest] len [unfolded t] by (simp add: t)
  then have "decodeRef dec (trefer kec (tenc kec t) @ rest) gen = Some (Inr (HashNode (Hash_Bytes (thash kec t)), rest))"
    by (simp add: decodeRef_def)
  then show ?thesis
    using True wf t(2) by (auto simp: hash_ok_def)
next
  case False
  then have t: "trefer kec (tenc kec t) = tenc kec t"
    by (simp add: trefer_def large_def)
  show ?thesis
  proof (cases "t = TNil")
    case True
    have "Split (rlp_string [] @ rest) = Inr (KString, [], rest)"
      using Split_string [of "[]" rest] len [unfolded t] by (simp add: True)
    then show ?thesis
      unfolding t by (simp add: True decodeRef_def rep_Nil)
  next
    case nil: False
    then obtain p where p: "tenc kec t = rlp_list p"
      using tenc_list wf(1) by blast
    have "Split (tenc kec t @ rest) = Inr (KList, p, rest)"
      using Split_list [of p rest] len [unfolded t] by (simp add: p)
    moreover obtain n where "dec None (tenc kec t @ rest) gen = Some (Inr n)" "trep N kec False n t"
      using dec nil False by blast
    ultimately show ?thesis
      using False unfolding t by (simp add: decodeRef_def hashLen_def HashLength_def large_def)
  qed
qed

lemma decodeChildren_tenc:
  assumes "\<And>t rest. t \<in> set ts \<Longrightarrow> length (trefer kec (tenc kec t) @ rest) \<le> l \<Longrightarrow>
      \<exists>n. decodeRef dec (trefer kec (tenc kec t) @ rest) gen = Some (Inr (n, rest)) \<and> trep N kec False n t"
    and "length (concat (map (\<lambda>t. trefer kec (tenc kec t)) ts) @ rest) \<le> l"
  shows "\<exists>ns. decodeChildren dec (length ts) (concat (map (\<lambda>t. trefer kec (tenc kec t)) ts) @ rest) gen = Some (Inr (ns, rest)) \<and>
    list_all2 (trep N kec False) ns ts"
  using assms
proof (induction ts)
  case (Cons t ts)
  let ?rest = "concat (map (\<lambda>t. trefer kec (tenc kec t)) ts) @ rest"
  obtain n where "decodeRef dec (trefer kec (tenc kec t) @ ?rest) gen = Some (Inr (n, ?rest))" "trep N kec False n t"
    using Cons.prems(1) [of t ?rest] Cons.prems(2) by auto
  moreover obtain ns where "decodeChildren dec (length ts) ?rest gen = Some (Inr (ns, rest))" "list_all2 (trep N kec False) ns ts"
    using Cons.IH Cons.prems by auto
  ultimately show ?case
    by simp
qed simp

text \<open>The items of the list that a short or a full node encodes to.\<close>

fun titems :: "keccak \<Rightarrow> tree \<Rightarrow> bytes list" where
  "titems kec (TShort k t) = [rlp_string (the (hexToCompact k)), if is_TVal t then tenc kec t else trefer kec (tenc kec t)]"
| "titems kec (TFull ts) = map (\<lambda>t. trefer kec (tenc kec t)) (take 16 ts) @ map (tenc kec) (drop 16 ts)"
| "titems kec _ = []"

lemma tenc_titems: "wft t \<Longrightarrow> t \<noteq> TNil \<Longrightarrow> tenc kec t = rlp_list (concat (titems kec t))"
  by (cases t) auto

lemma rlp_item_string: "rlp_item (rlp_string b)"
  by (auto simp: rlp_item_def)

lemma titems_item:
  assumes "wft t" and "e \<in> set (titems kec t)"
  shows "rlp_item e"
proof (cases t)
  case (TShort k u)
  then show ?thesis
    using assms trefer_item [of u kec] by (auto simp: rlp_item_string elim!: is_TValE split: if_splits)
next
  case (TFull ts)
  then show ?thesis
    using assms trefer_item drop_16 [of ts] rlp_item_string [of "[]"] by (auto simp: rlp_item_string elim!: is_TValE)
qed (use assms in auto)

lemma SplitString_string:
  "length (rlp_string b @ rest) < 2 ^ 64 \<Longrightarrow> SplitString (rlp_string b @ rest) = Inr (b, rest)"
  using Split_string [of b rest] by (simp add: SplitString_def)

lemma decodeShort_tenc:
  assumes "wft (TShort k u)" and "length (concat (titems kec (TShort k u))) < 2 ^ 64"
    and ref: "wft u \<Longrightarrow> \<exists>n. decodeRef dec (trefer kec (tenc kec u)) gen = Some (Inr (n, [])) \<and> trep N kec False n u"
    and "flag_ok N kec b \<lparr>nf_hash = hash, nf_gen = gen, nf_dirty = False\<rparr> (TShort k u)"
  shows "\<exists>n. decodeShort dec hash (concat (titems kec (TShort k u))) gen = Some (Inr n) \<and>
    trep N kec b n (TShort k u) \<and> \<not> is_HashNode n"
proof -
  have "hex_key k"
    using assms(1) by (auto simp: hex_key_def split: if_splits)
  then obtain c where c: "hexToCompact k = Some c" "compactToHex c = Some k"
    using compact_inverse by blast
  let ?u = "if is_TVal u then tenc kec u else trefer kec (tenc kec u)"
  have split: "SplitString (concat (titems kec (TShort k u))) = Inr (c, ?u)"
    using SplitString_string [of c ?u] assms(2) by (simp add: c(1))
  show ?thesis
  proof (cases "hasTerm k")
    case True
    then obtain v where v: "u = TVal v" "v \<noteq> []"
      using assms(1) by (auto elim: is_TValE)
    then have "SplitString (rlp_string v) = Inr (v, [])"
      using SplitString_string [of v "[]"] assms(2) by simp
    then show ?thesis
      using True v assms(4) unfolding decodeShort_def split by (simp add: c(2) rep_Value)
  next
    case False
    then obtain n where "decodeRef dec (trefer kec (tenc kec u)) gen = Some (Inr (n, []))" "trep N kec False n u"
      using ref assms(1) by auto
    moreover have "\<not> is_TVal u"
      using False assms(1) by (auto elim!: is_TFullE)
    ultimately show ?thesis
      using False assms(4) unfolding decodeShort_def split by (simp add: c(2))
  qed
qed

lemma decodeFull_tenc:
  assumes "wft (TFull ts)" and len: "length (concat (titems kec (TFull ts))) < 2 ^ 64"
    and ref: "\<And>t rest. t \<in> set (take 16 ts) \<Longrightarrow>
      length (trefer kec (tenc kec t) @ rest) \<le> length (concat (titems kec (TFull ts))) \<Longrightarrow>
      \<exists>n. decodeRef dec (trefer kec (tenc kec t) @ rest) gen = Some (Inr (n, rest)) \<and> trep N kec False n t"
    and "flag_ok N kec b \<lparr>nf_hash = hash, nf_gen = gen, nf_dirty = False\<rparr> (TFull ts)"
  shows "\<exists>n. decodeFull dec hash (concat (titems kec (TFull ts))) gen = Some (Inr n) \<and>
    trep N kec b n (TFull ts) \<and> \<not> is_HashNode n"
proof -
  have ts: "length ts = 17" "drop 16 ts = [ts ! 16]" "ts ! 16 = TNil \<or> is_TVal (ts ! 16)"
    using assms(1) by (auto simp: drop_16)
  let ?cs = "concat (map (\<lambda>t. trefer kec (tenc kec t)) (take 16 ts))"
  have elems: "concat (titems kec (TFull ts)) = ?cs @ tenc kec (ts ! 16)"
    by (simp add: ts(2))
  obtain v where v: "tenc kec (ts ! 16) = rlp_string v" "ts ! 16 = (if v = [] then TNil else TVal v)"
    using ts(3) that [of "[]"] by (auto elim!: is_TValE intro: that)
  have "SplitString (rlp_string v) = Inr (v, [])"
    using SplitString_string [of v "[]"] len unfolding elems v(1) by simp
  moreover obtain ns where "decodeChildren dec (length (take 16 ts)) (?cs @ tenc kec (ts ! 16)) gen = Some (Inr (ns, tenc kec (ts ! 16)))"
      "list_all2 (trep N kec False) ns (take 16 ts)"
    using decodeChildren_tenc [OF ref, of "take 16 ts"] unfolding elems by blast
  moreover from this have "list_all2 (trep N kec False) (ns @ [if length v > 0 then ValueNode v else NilNode]) (take 16 ts @ [ts ! 16])"
    using v(2) by (auto intro!: list_all2_appendI simp: rep_Nil rep_Value)
  then have "trep N kec b (FullNode (ns @ [if length v > 0 then ValueNode v else NilNode])
      \<lparr>nf_hash = hash, nf_gen = gen, nf_dirty = False\<rparr>) (TFull ts)"
    using append_take_drop_id [of 16 ts] assms(4) by (simp add: ts(2))
  ultimately show ?thesis
    unfolding elems decodeFull_def by (simp add: v(1) ts(1))
qed

lemma decodeNode_tenc:
  "wft t \<Longrightarrow> t \<noteq> TNil \<Longrightarrow> tsmall t \<Longrightarrow> stored N kec t \<Longrightarrow> length (tenc kec t @ rest) < f \<Longrightarrow>
   length (tenc kec t @ rest) < 2 ^ 64 \<Longrightarrow> flag_ok N kec b \<lparr>nf_hash = hash, nf_gen = gen, nf_dirty = False\<rparr> t \<Longrightarrow>
   \<exists>n. decodeNode f hash (tenc kec t @ rest) gen = Some (Inr n) \<and> trep N kec b n t \<and> \<not> is_HashNode n"
proof (induction f arbitrary: t rest b hash)
  case (Suc f)
  let ?es = "concat (titems kec t)"
  have enc: "tenc kec t = rlp_list ?es"
    using Suc.prems(1,2) by (rule tenc_titems)
  have len: "length ?es < length (tenc kec t)"
    unfolding enc by (auto simp: rlp_list_def rlp_head_def)
  have split: "SplitList (tenc kec t @ rest) = Inr (?es, rest)"
    using Split_list [of ?es rest] Suc.prems(6) by (simp add: enc SplitList_def)
  have count: "CountValues ?es = Inr (length (titems kec t))"
    using CountValues_loop_items [of "titems kec t" 0] titems_item [OF Suc.prems(1)] len Suc.prems(6) by (simp add: CountValues_def)
  have ref: "\<exists>n. decodeRef (decodeNode f) (trefer kec (tenc kec u) @ r) gen = Some (Inr (n, r)) \<and> trep N kec False n u"
    if "wft u" "tsmall u" "stored N kec u" "large kec u \<longrightarrow> N (thash kec u) = Some (tenc kec u)"
      "length (trefer kec (tenc kec u) @ r) \<le> length ?es" for u r
  proof (rule decodeRef_tenc)
    assume "u \<noteq> TNil" "\<not> large kec u"
    then have "trefer kec (tenc kec u) = tenc kec u"
      by (simp add: trefer_def large_def)
    then show "\<exists>n. decodeNode f None (tenc kec u @ r) gen = Some (Inr n) \<and> trep N kec False n u"
      using Suc.IH [of u r False None] that Suc.prems(5,6) len \<open>u \<noteq> TNil\<close> \<open>\<not> large kec u\<close> by (auto simp: flag_ok_None)
  qed (use that Suc.prems(6) len in simp_all)
  show ?case
  proof (cases t)
    case (TShort k u)
    then have "length (titems kec t) = 2"
      by simp
    moreover have "\<exists>n. decodeShort (decodeNode f) hash ?es gen = Some (Inr n) \<and> trep N kec b n t \<and> \<not> is_HashNode n"
      unfolding TShort
    proof (rule decodeShort_tenc)
      assume "wft u"
      then have "\<not> is_TVal u"
        by (cases u) auto
      then show "\<exists>n. decodeRef (decodeNode f) (trefer kec (tenc kec u)) gen = Some (Inr (n, [])) \<and> trep N kec False n u"
        using ref [of u "[]"] \<open>wft u\<close> Suc.prems(3,4) tsmall_TShort by (auto simp: TShort)
    qed (use Suc.prems len in \<open>simp_all add: TShort\<close>)
    ultimately show ?thesis
      using split count len by auto
  next
    case (TFull ts)
    then have "length (titems kec t) = 17"
      using Suc.prems(1) by simp
    moreover have "\<exists>n. decodeFull (decodeNode f) hash ?es gen = Some (Inr n) \<and> trep N kec b n t \<and> \<not> is_HashNode n"
      unfolding TFull
    proof (rule decodeFull_tenc)
      fix u r
      assume u: "u \<in> set (take 16 ts)" "length (trefer kec (tenc kec u) @ r) \<le> length (concat (titems kec (TFull ts)))"
      then have "tsmall u"
        using Suc.prems(1,3) tsmall_TFull [of ts] by (auto simp: TFull in_set_conv_nth)
      then show "\<exists>n. decodeRef (decodeNode f) (trefer kec (tenc kec u) @ r) gen = Some (Inr (n, r)) \<and> trep N kec False n u"
        using ref [of u r] u Suc.prems(1,4) by (simp add: TFull)
    qed (use Suc.prems len in \<open>simp_all add: TFull\<close>)
    ultimately show ?thesis
      using split count len by auto
  qed (use Suc.prems in auto)
qed simp

section \<open>The database as a store of nodes\<close>

definition db_lookup :: "Database option \<Rightarrow> hash \<Rightarrow> bytes option" where
  "db_lookup db h = (case db of None \<Rightarrow> None | Some d \<Rightarrow> db_Node d h)"

lemma mustDecodeNode_tenc:
  assumes "hash_ok N kec b h t"
  shows "\<exists>n. mustDecodeNode h (tenc kec t) gen = Some n \<and> trep N kec b n t \<and> \<not> is_HashNode n"
proof -
  have "length (tenc kec t) < 2 ^ 40"
    using assms tenc_bound [of t kec] by (simp add: hash_ok_def)
  then show ?thesis
    using assms decodeNode_tenc [of t N kec "[]" "decode_fuel (tenc kec t)" b "Some h" gen]
    by (auto simp: mustDecodeNode_def decode_fuel_def hash_ok_def flag_ok_def)
qed

interpretation ts: trie_store db "hash_ok (db_lookup db) kec" "flag_ok (db_lookup db) kec" for db kec
proof
  fix b h t and tr :: Trie and prefix
  assume ok: "hash_ok (db_lookup db) kec b h t" and tr: "tr_db tr = db"
  then obtain d where "db = Some d" "db_Node d (thash kec t) = Some (tenc kec t)" "h = Hash_Bytes (thash kec t)"
    by (auto simp: hash_ok_def db_lookup_def split: option.splits)
  then show "\<exists>n. resolveHash tr h prefix = Some (Inr n) \<and> trep (db_lookup db) kec b n t \<and> \<not> is_HashNode n"
    using mustDecodeNode_tenc [OF ok, of "tr_cachegen tr"] tr by (auto simp: resolveHash_def)
next
  fix b h t
  assume "hash_ok (db_lookup db) kec b h t"
  then show "(\<exists>k u. t = TShort k u) \<or> (\<exists>ts. t = TFull ts)"
    by (cases t) (auto simp: hash_ok_def)
qed (auto simp: flag_ok_def)

section \<open>Contents\<close>

text \<open>A reference tree holds a map from keys to values.\<close>

definition holds :: "tree \<Rightarrow> (bytes \<rightharpoonup> bytes) \<Rightarrow> bool" where
  "holds t m \<longleftrightarrow> wft t \<and> (\<forall>key. tlook t (keybytesToHex key) = m key) \<and>
     (\<forall>hex v. tlook t hex = Some v \<longrightarrow> (\<exists>key. hex = keybytesToHex key))"

definition msmall :: "(bytes \<rightharpoonup> bytes) \<Rightarrow> bool" where
  "msmall m \<longleftrightarrow> (\<forall>key v. m key = Some v \<longrightarrow> length key < 2 ^ 31 \<and> length v < 2 ^ 32)"

definition trie_holds :: "keccak \<Rightarrow> Trie \<Rightarrow> (bytes \<rightharpoonup> bytes) \<Rightarrow> bool" where
  "trie_holds kec tr m \<longleftrightarrow>
     (\<exists>t. trep (db_lookup (tr_db tr)) kec True (tr_root tr) t \<and> holds t m \<and> msmall m)"

lemma keybytesToHex_inject [simp]: "keybytesToHex a = keybytesToHex b \<longleftrightarrow> a = b"
  by (metis keybytes_inverse option.inject)

lemma holds_unique:
  assumes "holds t m" and "holds t' m"
  shows "t = t'"
proof (rule tree_canonical)
  show "tlook t = tlook t'"
  proof
    fix hex
    show "tlook t hex = tlook t' hex"
    proof (cases "\<exists>key. hex = keybytesToHex key")
      case False
      then have "tlook t hex = None" "tlook t' hex = None"
        using assms unfolding holds_def by (metis option.exhaust)+
      then show ?thesis
        by simp
    qed (use assms in \<open>auto simp: holds_def\<close>)
  qed
qed (use assms in \<open>simp_all add: holds_def\<close>)

lemma length_keybytesToHex: "length (keybytesToHex key) = Suc (2 * length key)"
  by (simp add: keybytesToHex_def length_concat comp_def sum_list_triv)

lemma holds_small:
  assumes "holds t m" and "msmall m"
  shows "tsmall t"
  unfolding tsmall_def
proof (intro allI impI)
  fix hex v
  assume hex: "tlook t hex = Some v"
  then obtain key where "hex = keybytesToHex key"
    using assms(1) unfolding holds_def by blast
  moreover from this have "length key < 2 ^ 31 \<and> length v < 2 ^ 32"
    using assms hex unfolding holds_def msmall_def by metis
  ultimately show "length hex < 2 ^ 32 \<and> length v < 2 ^ 32"
    by (simp add: length_keybytesToHex)
qed

text \<open>Two well-formed trees whose contents differ at one key.\<close>

lemma holds_change:
  assumes "holds t m" and "wft t'"
    and "\<And>hex. tkey hex \<Longrightarrow> tlook t' hex = (if hex = keybytesToHex key then r else tlook t hex)"
  shows "holds t' (m(key := r))"
  unfolding holds_def
proof (intro conjI allI impI)
  show "tlook t' (keybytesToHex key') = (m(key := r)) key'" for key'
    using assms(1,3) tkey_hex by (simp add: holds_def)
  fix hex v
  assume "tlook t' hex = Some v"
  then show "\<exists>key. hex = keybytesToHex key"
    using assms(1,3) tlook_tkey [OF assms(2)] unfolding holds_def by metis
qed (rule assms(2))

lemma holds_empty [simp]: "holds TNil Map.empty"
  by (simp add: holds_def)

lemma holds_tins:
  assumes "holds t m" and "v \<noteq> []"
  shows "holds (tins t (keybytesToHex key) (TVal v)) (m(key \<mapsto> v))"
  using assms tkey_hex by (intro holds_change [OF assms(1)]) (auto simp: holds_def tlook_tins dest: wft_tins)

lemma holds_tdel:
  assumes "holds t m"
  shows "holds (tdel t (keybytesToHex key)) (m(key := None))"
  using assms tdel_ok tkey_hex by (intro holds_change [OF assms(1)]) (auto simp: holds_def)

lemma msmall_update: "msmall m \<Longrightarrow> (\<And>v. r = Some v \<Longrightarrow> length key < 2 ^ 31 \<and> length v < 2 ^ 32) \<Longrightarrow> msmall (m(key := r))"
  by (simp add: msmall_def)

lemma trie_holds_rep:
  assumes "trep (db_lookup (tr_db tr)) kec True n t" and "holds t m" and "msmall m"
  shows "trie_holds kec (tr\<lparr>tr_root := n\<rparr>) m"
  using assms by (auto simp: trie_holds_def)

lemma TryUpdate_holds:
  assumes "trie_holds kec tr m" and "length (full_key tr key) < 2 ^ 31" and "length v < 2 ^ 32"
  shows "\<exists>n. TryUpdate key v tr = Some (Inr (tr\<lparr>tr_root := n\<rparr>)) \<and>
    trie_holds kec (tr\<lparr>tr_root := n\<rparr>) (m(full_key tr key := if v = [] then None else Some v))"
proof -
  obtain t where t: "trep (db_lookup (tr_db tr)) kec True (tr_root tr) t" "holds t m" "msmall m"
    using assms(1) by (auto simp: trie_holds_def)
  then have wf: "wft t"
    by (simp add: holds_def)
  let ?t = "if v = [] then tdel t (trie_key tr key) else tins t (trie_key tr key) (TVal v)"
  let ?m = "m(full_key tr key := if v = [] then None else Some v)"
  obtain n where "TryUpdate key v tr = Some (Inr (tr\<lparr>tr_root := n\<rparr>))" "trep (db_lookup (tr_db tr)) kec True n ?t"
    using ts.TryUpdate_rep [OF refl t(1) wf] by blast
  moreover have "holds ?t ?m"
    using holds_tins [OF t(2)] holds_tdel [OF t(2)] by (simp add: trie_key_def)
  moreover have "msmall ?m"
    using assms(2,3) by (intro msmall_update t(3)) (auto split: if_splits)
  ultimately show ?thesis
    using trie_holds_rep by blast
qed

lemma TryGet_holds:
  assumes "trie_holds kec tr m"
  shows "\<exists>n. TryGet key tr = Some (Inr (m (full_key tr key), tr\<lparr>tr_root := n\<rparr>)) \<and> trie_holds kec (tr\<lparr>tr_root := n\<rparr>) m"
proof -
  obtain t where t: "trep (db_lookup (tr_db tr)) kec True (tr_root tr) t" "holds t m" "msmall m"
    using assms by (auto simp: trie_holds_def)
  then have wf: "wft t" and get: "tlook t (trie_key tr key) = m (full_key tr key)"
    by (simp_all add: holds_def trie_key_def)
  show ?thesis
    using ts.TryGet_rep [OF refl t(1) wf, of key] trie_holds_rep [OF _ t(2,3)] unfolding get by blast
qed

lemma TryDelete_holds:
  assumes "trie_holds kec tr m"
  shows "\<exists>n. TryDelete key tr = Some (Inr (tr\<lparr>tr_root := n\<rparr>)) \<and>
    trie_holds kec (tr\<lparr>tr_root := n\<rparr>) (m(full_key tr key := None))"
proof -
  obtain t where t: "trep (db_lookup (tr_db tr)) kec True (tr_root tr) t" "holds t m" "msmall m"
    using assms by (auto simp: trie_holds_def)
  then have wf: "wft t"
    by (simp add: holds_def)
  have "holds (tdel t (trie_key tr key)) (m(full_key tr key := None))" "msmall (m(full_key tr key := None))"
    using holds_tdel [OF t(2)] msmall_update [OF t(3), of None] by (simp_all add: trie_key_def)
  then show ?thesis
    using ts.TryDelete_rep [OF refl t(1) wf, of key] trie_holds_rep by blast
qed

text \<open>
  C35: the trie implements a map.  Let the trie hold the map \<open>m\<close>, with any part of it still in the database, with
  or without a key prefix.  Then a lookup returns what \<open>m\<close> has for the key, an update with a value stores it, an
  update with an empty value and a deletion remove the key, and the trie holds the map so changed.  No operation
  panics or reports a missing node, although a deletion may have to load a sibling to merge it.
\<close>

theorem trie_refines_map:
  assumes "trie_holds kec tr m"
  shows "(\<exists>n. TryGet key tr = Some (Inr (m (full_key tr key), tr\<lparr>tr_root := n\<rparr>)) \<and> trie_holds kec (tr\<lparr>tr_root := n\<rparr>) m) \<and>
    (length (full_key tr key) < 2 ^ 31 \<and> length v < 2 ^ 32 \<longrightarrow>
      (\<exists>n. TryUpdate key v tr = Some (Inr (tr\<lparr>tr_root := n\<rparr>)) \<and>
        trie_holds kec (tr\<lparr>tr_root := n\<rparr>) (m(full_key tr key := if v = [] then None else Some v)))) \<and>
    (\<exists>n. TryDelete key tr = Some (Inr (tr\<lparr>tr_root := n\<rparr>)) \<and>
      trie_holds kec (tr\<lparr>tr_root := n\<rparr>) (m(full_key tr key := None)))"
  using TryGet_holds [OF assms] TryUpdate_holds [OF assms] TryDelete_holds [OF assms] by blast

definition sample_trie :: Trie where
  "sample_trie = \<lparr>tr_db = None, tr_root = NilNode, tr_originalRoot = 0, tr_prefix = Some [0xAB], tr_cachegen = 0, tr_cachelimit = 0\<rparr>"

lemma sample_trie_holds: "trie_holds kec sample_trie Map.empty"
  by (auto simp: trie_holds_def sample_trie_def msmall_def intro: holds_empty)

theorem trie_refines_map_witness:
  "\<exists>tr n. TryUpdate [0x12] [7] sample_trie = Some (Inr tr) \<and>
     TryGet [0x12] tr = Some (Inr (Some [7], tr\<lparr>tr_root := n\<rparr>)) \<and>
     trie_holds (\<lambda>_. 0) (tr\<lparr>tr_root := n\<rparr>) [[0xAB, 0x12] \<mapsto> [7]]"
proof -
  have key: "full_key (sample_trie\<lparr>tr_root := n\<rparr>) [0x12] = [0xAB, 0x12]" "full_key sample_trie [0x12] = [0xAB, 0x12]" for n
    by (simp_all add: full_key_def sample_trie_def)
  obtain n where n: "TryUpdate [0x12] [7] sample_trie = Some (Inr (sample_trie\<lparr>tr_root := n\<rparr>))"
    "trie_holds (\<lambda>_. 0) (sample_trie\<lparr>tr_root := n\<rparr>) [[0xAB, 0x12] \<mapsto> [7]]"
    using trie_refines_map [OF sample_trie_holds, where kec = "\<lambda>_. 0" and key = "[0x12]" and v = "[7]"] by (auto simp: key)
  show ?thesis
    using n(1) trie_refines_map [OF n(2), where key = "[0x12]"] by (auto simp: key)
qed

end

