(* ===== verification/Trie_Hasher.thy ===== *)
theory Trie_Hasher
  imports Trie_Store
begin

text \<open>
  \<^verbatim>\<open>trie/hasher.go\<close> and the hashing methods of \<^verbatim>\<open>trie/trie.go\<close>: computing the root hash of a trie, with or
  without writing its nodes to the database, reusing cached hashes and unloading old nodes.  The hash function is
  the argument \<open>kec\<close>.  Nothing in these methods returns an error, so the error result is left out; \<open>None\<close> is a
  panic.
\<close>

section \<open>Operations\<close>

text \<open>The callback for leaves can change the database; its error is ignored by the code.\<close>

type_synonym LeafCallback = "bytes \<Rightarrow> hash \<Rightarrow> Database \<Rightarrow> Database option"

record hasher =
  hs_cachegen :: "16 word"
  hs_cachelimit :: "16 word"
  hs_onleaf :: "LeafCallback option"

definition newHasher :: "16 word \<Rightarrow> 16 word \<Rightarrow> LeafCallback option \<Rightarrow> hasher" where
  "newHasher cachegen cachelimit onleaf = \<lparr>hs_cachegen = cachegen, hs_cachelimit = cachelimit, hs_onleaf = onleaf\<rparr>"

text \<open>The direct children of a collapsed node that the code looks at after storing it.\<close>

fun direct_children :: "node \<Rightarrow> node list" where
  "direct_children (ShortNode k v fl) = [v]"
| "direct_children (FullNode cs fl) = take 16 cs"
| "direct_children _ = []"

fun addReferences :: "hash \<Rightarrow> node list \<Rightarrow> Database \<Rightarrow> Database option" where
  "addReferences hash [] db = Some db"
| "addReferences hash (HashNode child # cs) db =
     (case db_reference (BytesToHash child) hash db of None \<Rightarrow> None | Some db' \<Rightarrow> addReferences hash cs db')"
| "addReferences hash (c # cs) db = addReferences hash cs db"

fun reportLeaves :: "LeafCallback \<Rightarrow> hash \<Rightarrow> node list \<Rightarrow> Database \<Rightarrow> Database option" where
  "reportLeaves onleaf hash [] db = Some db"
| "reportLeaves onleaf hash (ValueNode child # cs) db =
     (case onleaf child hash db of None \<Rightarrow> None | Some db' \<Rightarrow> reportLeaves onleaf hash cs db')"
| "reportLeaves onleaf hash (c # cs) db = reportLeaves onleaf hash cs db"

definition writeNode :: "hasher \<Rightarrow> node \<Rightarrow> hash \<Rightarrow> bytes \<Rightarrow> Database \<Rightarrow> Database option" where
  "writeNode h n hash enc db =
     (case addReferences hash (direct_children n) (db_insert hash enc db) of
        None \<Rightarrow> None
      | Some db' \<Rightarrow>
          (case hs_onleaf h of
             None \<Rightarrow> Some db'
           | Some onleaf \<Rightarrow> reportLeaves onleaf hash (direct_children n) db'))"

definition hasher_store :: "keccak \<Rightarrow> hasher \<Rightarrow> node \<Rightarrow> Database option \<Rightarrow> bool \<Rightarrow> (node \<times> Database option) option" where
  "hasher_store kec h n db force =
     (if is_HashNode n \<or> n = NilNode then Some (n, db)
      else
        (case Encode (node_rval n) of
           Inl err \<Rightarrow> None
         | Inr ws \<Rightarrow>
             let tmp = concat ws
             in if length tmp < 32 \<and> \<not> force then Some (n, db)
                else
                  (case node_cache n of
                     None \<Rightarrow> None
                   | Some (cached, _) \<Rightarrow>
                       let hash = (case cached of None \<Rightarrow> Hash_Bytes (kec tmp) | Some c \<Rightarrow> c)
                       in (case db of
                             None \<Rightarrow> Some (HashNode hash, None)
                           | Some d \<Rightarrow>
                               map_option (\<lambda>d'. (HashNode hash, Some d')) (writeNode h n (BytesToHash hash) tmp d)))))"

fun nil_value :: "node \<Rightarrow> node" where
  "nil_value NilNode = ValueNode []"
| "nil_value n = n"

fun is_ValueNode :: "node \<Rightarrow> bool" where
  "is_ValueNode (ValueNode v) = True"
| "is_ValueNode _ = False"

fun setCached :: "node \<Rightarrow> bool \<Rightarrow> node \<Rightarrow> node" where
  "setCached hashed clean (ShortNode k v fl) =
     ShortNode k v (fl\<lparr>nf_hash := (case hashed of HashNode h \<Rightarrow> Some h | _ \<Rightarrow> None),
       nf_dirty := (if clean then False else nf_dirty fl)\<rparr>)"
| "setCached hashed clean (FullNode cs fl) =
     FullNode cs (fl\<lparr>nf_hash := (case hashed of HashNode h \<Rightarrow> Some h | _ \<Rightarrow> None),
       nf_dirty := (if clean then False else nf_dirty fl)\<rparr>)"
| "setCached hashed clean n = n"

text \<open>The part of \<^verbatim>\<open>hash\<close> that answers from the cached hash.\<close>

definition cachedResult :: "hasher \<Rightarrow> node \<Rightarrow> Database option \<Rightarrow> (node \<times> node) option" where
  "cachedResult h n db =
     (case node_cache n of
        Some (Some hash, dirty) \<Rightarrow>
          if db = None then Some (HashNode hash, n)
          else if canUnload n (hs_cachegen h) (hs_cachelimit h) = Some True then Some (HashNode hash, HashNode hash)
          else if \<not> dirty then Some (HashNode hash, n)
          else None
      | _ \<Rightarrow> None)"

lemma size_list_take: "size_list f (take n xs) \<le> size_list f xs"
  by (induction xs arbitrary: n) (auto simp: take_Cons split: nat.split)

lemma size_list_take_double: "2 * size_list f (take n xs) < Suc (Suc (2 * size_list f xs))"
  using size_list_take [of f n xs] by simp

function (sequential) hasher_hash :: "keccak \<Rightarrow> hasher \<Rightarrow> node \<Rightarrow> Database option \<Rightarrow> bool \<Rightarrow> (node \<times> node \<times> Database option) option"
  and hashChildren :: "keccak \<Rightarrow> hasher \<Rightarrow> node \<Rightarrow> Database option \<Rightarrow> (node \<times> node \<times> Database option) option"
  and hashList :: "keccak \<Rightarrow> hasher \<Rightarrow> node list \<Rightarrow> Database option \<Rightarrow> (node list \<times> node list \<times> Database option) option"
where
  "hasher_hash kec h n db force =
     (if n = NilNode then None
      else
        case cachedResult h n db of
          Some (hashed, cached) \<Rightarrow> Some (hashed, cached, db)
        | None \<Rightarrow> do {
            (collapsed, cached, db1) \<leftarrow> hashChildren kec h n db;
            (hashed, db2) \<leftarrow> hasher_store kec h collapsed db1 force;
            Some (hashed, setCached hashed (db \<noteq> None) cached, db2)
          })"
| "hashChildren kec h (ShortNode k v fl) db =
     do {
       ck \<leftarrow> hexToCompact k;
       if is_ValueNode v then Some (ShortNode ck v fl, ShortNode k v fl, db)
       else do {
         (cv, chv, db1) \<leftarrow> hasher_hash kec h v db False;
         Some (ShortNode ck (nil_value cv) fl, ShortNode k chv fl, db1)
       }
     }"
| "hashChildren kec h (FullNode cs fl) db =
     do {
       (ccs, chs, db1) \<leftarrow> hashList kec h (take 16 cs) db;
       Some (FullNode (ccs @ map nil_value (drop 16 cs)) fl, FullNode (chs @ drop 16 cs) fl, db1)
     }"
| "hashChildren kec h n db = Some (n, n, db)"
| "hashList kec h [] db = Some ([], [], db)"
| "hashList kec h (c # cs) db =
     (if c = NilNode then do {
        (ccs, chs, db1) \<leftarrow> hashList kec h cs db;
        Some (ValueNode [] # ccs, NilNode # chs, db1)
      }
      else do {
        (cc, ch, db1) \<leftarrow> hasher_hash kec h c db False;
        (ccs, chs, db2) \<leftarrow> hashList kec h cs db1;
        Some (cc # ccs, ch # chs, db2)
      })"
  by pat_completeness auto

termination
  by (relation "measure (case_sum (\<lambda>(_, _, n, _, _). 2 * size n + 1)
      (case_sum (\<lambda>(_, _, n, _). 2 * size n) (\<lambda>(_, _, cs, _). 2 * size_list size cs)))")
    (auto simp: size_list_take_double)

declare hasher_hash.simps [simp del]

definition hashRoot :: "keccak \<Rightarrow> Database option \<Rightarrow> LeafCallback option \<Rightarrow> Trie \<Rightarrow> (node \<times> node \<times> Database option) option" where
  "hashRoot kec db onleaf t =
     (if tr_root t = NilNode then Some (HashNode (Hash_Bytes emptyRoot), NilNode, db)
      else hasher_hash kec (newHasher (tr_cachegen t) (tr_cachelimit t) onleaf) (tr_root t) db True)"

fun asHash :: "node \<Rightarrow> hash option" where
  "asHash (HashNode h) = Some (BytesToHash h)"
| "asHash _ = None"

definition Trie_Hash :: "keccak \<Rightarrow> Trie \<Rightarrow> (hash \<times> Trie) option" where
  "Trie_Hash kec t =
     do {
       (hash, cached, _) \<leftarrow> hashRoot kec None None t;
       h \<leftarrow> asHash hash;
       Some (h, t\<lparr>tr_root := cached\<rparr>)
     }"

definition Trie_Commit :: "keccak \<Rightarrow> LeafCallback option \<Rightarrow> Trie \<Rightarrow> (hash \<times> Trie) option" where
  "Trie_Commit kec onleaf t =
     (if tr_db t = None then None
      else do {
        (hash, cached, db) \<leftarrow> hashRoot kec (tr_db t) onleaf t;
        h \<leftarrow> asHash hash;
        Some (h, t\<lparr>tr_db := db, tr_root := cached, tr_cachegen := tr_cachegen t + 1\<rparr>)
      })"

text \<open>\<^verbatim>\<open>CommitTo\<close> writes to a database other than that of the trie.\<close>

definition CommitTo :: "keccak \<Rightarrow> Database option \<Rightarrow> Trie \<Rightarrow> (hash \<times> Trie \<times> Database option) option" where
  "CommitTo kec db t =
     (if tr_db t = None then None
      else do {
        (hash, cached, db') \<leftarrow> hashRoot kec db None t;
        h \<leftarrow> asHash hash;
        Some (h, t\<lparr>tr_root := cached, tr_cachegen := tr_cachegen t + 1\<rparr>, db')
      })"

section \<open>Growing databases\<close>

text \<open>The encodings that storing a tree may write.\<close>

fun encs :: "keccak \<Rightarrow> tree \<Rightarrow> bytes set" where
  "encs kec (TShort k t) = insert (tenc kec (TShort k t)) (encs kec t)"
| "encs kec (TFull ts) = insert (tenc kec (TFull ts)) (\<Union>t \<in> set (take 16 ts). encs kec t)"
| "encs kec _ = {}"

text \<open>
  The node lookup that a trie sees: that of the database the hasher writes to, or \<open>N\<close> when it only hashes.
\<close>

definition view :: "(hash \<Rightarrow> bytes option) \<Rightarrow> Database option \<Rightarrow> hash \<Rightarrow> bytes option" where
  "view N db = (case db of None \<Rightarrow> N | Some d \<Rightarrow> db_Node d)"

lemma view_simps [simp]: "view N None = N" "view N (Some d) = db_Node d"
  by (simp_all add: view_def)

definition db_good :: "keccak \<Rightarrow> bytes set \<Rightarrow> Database option \<Rightarrow> bool" where
  "db_good kec E db \<longleftrightarrow> (\<forall>d. db = Some d \<longrightarrow> inj_on kec E \<and>
     (\<forall>e \<in> E. \<forall>n. map_of (db_nodes d) (kec e) = Some n \<longrightarrow> cn_blob n = Some e))"

lemma db_good_None [simp]: "db_good kec E None"
  by (simp add: db_good_def)

lemma db_good_Some: "db_good kec E (Some d) \<longleftrightarrow> inj_on kec E \<and> (\<forall>e \<in> E. \<forall>n. map_of (db_nodes d) (kec e) = Some n \<longrightarrow> cn_blob n = Some e)"
  by (auto simp: db_good_def)

definition grows :: "keccak \<Rightarrow> bytes set \<Rightarrow> (hash \<Rightarrow> bytes option) \<Rightarrow> (hash \<Rightarrow> bytes option) \<Rightarrow> bool" where
  "grows kec E N N' \<longleftrightarrow> (\<forall>e \<in> E. N (kec e) = Some e \<longrightarrow> N' (kec e) = Some e)"

lemma grows_refl [simp]: "grows kec E N N"
  by (simp add: grows_def)

lemma grows_trans: "grows kec E N N' \<Longrightarrow> grows kec E N' N'' \<Longrightarrow> grows kec E N N''"
  by (simp add: grows_def)

lemma enc_in: "wft t \<Longrightarrow> t \<noteq> TNil \<Longrightarrow> tenc kec t \<in> encs kec t"
  by (cases t) auto

lemma large_not_Nil: "large kec t \<Longrightarrow> t \<noteq> TNil"
  by (auto simp: large_def)

lemma wft_TShort_cases: "wft (TShort k u) \<Longrightarrow> is_TVal u \<or> wft u"
  by (auto split: if_splits)

lemma grows_large:
  assumes "grows kec E N N'" and "wft t" and "encs kec t \<subseteq> E" and "large kec t \<longrightarrow> N (thash kec t) = Some (tenc kec t)"
  shows "large kec t \<longrightarrow> N' (thash kec t) = Some (tenc kec t)"
  using assms enc_in [of t kec] large_not_Nil [of kec t] by (auto simp: grows_def thash_def)

lemma stored_mono:
  "stored N kec t \<Longrightarrow> wft t \<or> is_TVal t \<Longrightarrow> encs kec t \<subseteq> E \<Longrightarrow> grows kec E N N' \<Longrightarrow> stored N' kec t"
proof (induction t)
  case (TShort k t)
  then have t: "is_TVal t \<or> wft t" "encs kec t \<subseteq> E"
    using wft_TShort_cases by auto
  then show ?case
    using TShort.IH TShort.prems(1,4) grows_large [OF TShort.prems(4) _ t(2)] by auto
next
  case (TFull ts)
  have "stored N' kec t \<and> (large kec t \<longrightarrow> N' (thash kec t) = Some (tenc kec t))" if t: "t \<in> set (take 16 ts)" for t
  proof -
    have "wft t" "encs kec t \<subseteq> E" "stored N kec t" "large kec t \<longrightarrow> N (thash kec t) = Some (tenc kec t)"
      using t TFull.prems(1-3) by auto
    then show ?thesis
      using TFull.IH [OF in_set_takeD [OF t]] grows_large [OF TFull.prems(4)] TFull.prems(4) by blast
  qed
  then show ?case
    by simp
qed auto

lemma flag_mono:
  assumes "flag_ok N kec b fl t" and "wft t" and "t \<noteq> TNil" and "encs kec t \<subseteq> E" and "grows kec E N N'"
  shows "flag_ok N' kec b fl t"
  using assms stored_mono [OF _ disjI1 [OF assms(2)] assms(4,5)] enc_in [OF assms(2,3), of kec]
  by (auto simp: flag_ok_def grows_def thash_def)

lemma wft_child_cases:
  assumes "wft (TFull ts)" and "i < 17"
  shows "wft (ts ! i) \<or> is_TVal (ts ! i)" and "encs kec (ts ! i) \<subseteq> encs kec (TFull ts)"
proof -
  consider "i < 16" | "i = 16"
    using assms(2) by linarith
  then have "(wft (ts ! i) \<or> is_TVal (ts ! i)) \<and> encs kec (ts ! i) \<subseteq> encs kec (TFull ts)"
  proof cases
    case 1
    then have "ts ! i \<in> set (take 16 ts)"
      using assms(1) by (intro nth_take_set) auto
    then show ?thesis
      using assms(1) by auto
  next
    case 2
    then show ?thesis
      using assms(1) by (auto elim!: is_TValE)
  qed
  then show "wft (ts ! i) \<or> is_TVal (ts ! i)" "encs kec (ts ! i) \<subseteq> encs kec (TFull ts)"
    by simp_all
qed

lemma trep_mono:
  "trep N kec b n t \<Longrightarrow> wft t \<or> is_TVal t \<Longrightarrow> encs kec t \<subseteq> E \<Longrightarrow> grows kec E N N' \<Longrightarrow> trep N' kec b n t"
proof (induction rule: rep.induct)
  case (rep_Short n t b fl k)
  have wf: "wft (TShort k t)" "wft t \<or> is_TVal t" "encs kec t \<subseteq> E"
    using wft_TShort_cases [of k t] rep_Short.prems(1,2) by auto
  moreover have "flag_ok N' kec b fl (TShort k t)"
    using flag_mono [OF rep_Short.hyps(2) wf(1) _ rep_Short.prems(2,3)] by simp
  ultimately show ?case
    using rep_Short.IH rep_Short.prems(3) by simp
next
  case (rep_Full ns ts b fl)
  have wf: "wft (TFull ts)"
    using rep_Full.prems(1) by simp
  then have len: "length ns = 17" "length ts = 17"
    using list_all2_lengthD [OF rep_Full.IH] by simp_all
  have "trep N' kec False (ns ! i) (ts ! i)" if "i < 17" for i
    using list_all2_nthD [OF rep_Full.IH, of i] wft_child_cases(1) [OF wf that]
      subset_trans [OF wft_child_cases(2) [OF wf that] rep_Full.prems(2)] rep_Full.prems(3) that len by simp
  then have "list_all2 (trep N' kec False) ns ts"
    using len by (simp add: list_all2_conv_all_nth)
  moreover have "flag_ok N' kec b fl (TFull ts)"
    using flag_mono [OF rep_Full.hyps(1) wf _ rep_Full.prems(2,3)] by simp
  ultimately show ?case
    by simp
next
  case (rep_Hash b h t)
  then have "wft t" "t \<noteq> TNil" "stored N kec t" "N (thash kec t) = Some (tenc kec t)"
    by (auto simp: hash_ok_def)
  then have "stored N' kec t" "N' (thash kec t) = Some (tenc kec t)"
    using stored_mono rep_Hash.prems enc_in [of t kec] by (auto simp: grows_def thash_def)
  then show ?case
    using rep_Hash.hyps by (auto simp: hash_ok_def)
qed (auto simp: rep_Nil rep_Value)

section \<open>Writing a node\<close>

definition same_blobs :: "Database \<Rightarrow> Database \<Rightarrow> bool" where
  "same_blobs d d' \<longleftrightarrow> db_disk d' = db_disk d \<and>
     (\<forall>x. map_option cn_blob (map_of (db_nodes d') x) = map_option cn_blob (map_of (db_nodes d) x))"

text \<open>A callback for leaves may only add references.\<close>

definition leaf_ok :: "LeafCallback option \<Rightarrow> bool" where
  "leaf_ok onleaf \<longleftrightarrow> (\<forall>f v x d. onleaf = Some f \<longrightarrow> map_of (db_nodes d) x \<noteq> None \<longrightarrow>
     (\<exists>d'. f v x d = Some d' \<and> same_blobs d d'))"

lemma same_blobs_refl [simp]: "same_blobs d d"
  by (simp add: same_blobs_def)

lemma same_blobs_trans: "same_blobs a b \<Longrightarrow> same_blobs b c \<Longrightarrow> same_blobs a c"
  by (simp add: same_blobs_def)

lemma same_blobs_known: "same_blobs d d' \<Longrightarrow> map_of (db_nodes d') x = None \<longleftrightarrow> map_of (db_nodes d) x = None"
  unfolding same_blobs_def by (metis map_option_is_None)

lemma same_blobs_blob: "same_blobs d d' \<Longrightarrow> map_of (db_nodes d') x = Some n' \<Longrightarrow> \<exists>n. map_of (db_nodes d) x = Some n \<and> cn_blob n = cn_blob n'"
  unfolding same_blobs_def by (cases "map_of (db_nodes d) x") (auto dest: spec [of _ x])

lemma same_blobs_Node:
  assumes "same_blobs d d'"
  shows "db_Node d' = db_Node d"
proof
  fix x
  have "db_disk d' = db_disk d"
    using assms by (simp add: same_blobs_def)
  then show "db_Node d' x = db_Node d x"
    using same_blobs_blob [OF assms, of x] same_blobs_known [OF assms, of x]
    by (cases "map_of (db_nodes d') x") (auto simp: db_Node_def)
qed

lemma same_blobs_good: "same_blobs d d' \<Longrightarrow> db_good kec E (Some d) \<Longrightarrow> db_good kec E (Some d')"
  unfolding db_good_Some by (metis same_blobs_blob)

lemma db_reference_blobs: "db_reference child parent d = Some d' \<Longrightarrow> same_blobs d d'"
  by (auto simp: db_reference_def same_blobs_def map_of_map_entry_other option.map_comp comp_def split: option.splits if_splits)

lemma addReferences_ok:
  "map_of (db_nodes d) x \<noteq> None \<Longrightarrow> \<exists>d'. addReferences x cs d = Some d' \<and> same_blobs d d'"
proof (induction x cs d rule: addReferences.induct)
  case (2 x child cs d)
  then obtain d1 where d1: "db_reference (BytesToHash child) x d = Some d1" "same_blobs d d1"
    using db_reference_returns db_reference_blobs by blast
  then show ?case
    using 2 same_blobs_known [OF d1(2)] same_blobs_trans [OF d1(2)] by fastforce
qed auto

lemma reportLeaves_ok:
  "leaf_ok (Some f) \<Longrightarrow> map_of (db_nodes d) x \<noteq> None \<Longrightarrow> \<exists>d'. reportLeaves f x cs d = Some d' \<and> same_blobs d d'"
proof (induction f x cs d rule: reportLeaves.induct)
  case (2 f x child cs d)
  then obtain d1 where d1: "f child x d = Some d1" "same_blobs d d1"
    unfolding leaf_ok_def by blast
  then show ?case
    using 2 same_blobs_known [OF d1(2)] same_blobs_trans [OF d1(2)] by fastforce
qed auto

lemma writeNode_ok:
  assumes "db_good kec E (Some d)" and "e \<in> E" and "leaf_ok (hs_onleaf h)"
  shows "\<exists>d'. writeNode h n (kec e) e d = Some d' \<and> db_good kec E (Some d') \<and>
    grows kec E (db_Node d) (db_Node d') \<and> db_Node d' (kec e) = Some e"
proof -
  let ?d = "db_insert (kec e) e d"
  have known: "map_of (db_nodes ?d) (kec e) \<noteq> None"
    by (simp add: db_insert_def update_conv')
  have good: "db_good kec E (Some ?d)"
    using assms(1,2) by (auto simp: db_good_Some db_insert_def update_conv' inj_on_def)
  have node: "db_Node ?d (kec e) = Some e"
    using assms(1,2) unfolding db_Node_insert db_good_Some by (auto simp: db_Node_def)
  have grow: "grows kec E (db_Node d) (db_Node ?d)"
    using assms(1,2) by (auto simp: grows_def db_Node_insert db_good_Some inj_on_def)
  obtain d1 where d1: "addReferences (kec e) (direct_children n) ?d = Some d1" "same_blobs ?d d1"
    using addReferences_ok [OF known] by blast
  obtain d2 where "writeNode h n (kec e) e d = Some d2" "same_blobs ?d d2"
  proof (cases "hs_onleaf h")
    case None
    then show thesis
      using that [of d1] d1 by (simp add: writeNode_def)
  next
    case (Some f)
    then obtain d2 where "reportLeaves f (kec e) (direct_children n) d1 = Some d2" "same_blobs d1 d2"
      using reportLeaves_ok [of f d1 "kec e" "direct_children n"] assms(3) known same_blobs_known [OF d1(2)] by auto
    then show thesis
      using that [of d2] d1 Some same_blobs_trans by (simp add: writeNode_def)
  qed
  then show ?thesis
    using same_blobs_good [OF _ good] same_blobs_Node node grow by fastforce
qed

section \<open>Hashing computes the reference hash\<close>

text \<open>What a node is replaced by in its parent, and what committing a tree has stored.\<close>

definition collapsed_ok :: "keccak \<Rightarrow> bool \<Rightarrow> node \<Rightarrow> tree \<Rightarrow> bool" where
  "collapsed_ok kec b hs t \<longleftrightarrow>
     (if b \<or> large kec t then hs = HashNode (Hash_Bytes (thash kec t))
      else rlp_encodable (node_rval hs) \<and> rlp_spec (node_rval hs) = tenc kec t \<and> \<not> is_HashNode hs \<and> hs \<noteq> NilNode)"

definition kept :: "(hash \<Rightarrow> bytes option) \<Rightarrow> keccak \<Rightarrow> bool \<Rightarrow> tree \<Rightarrow> bool" where
  "kept N kec b t \<longleftrightarrow> stored N kec t \<and> (b \<or> large kec t \<longrightarrow> N (thash kec t) = Some (tenc kec t))"

text \<open>The effect on the database.\<close>

definition db_step :: "keccak \<Rightarrow> bytes set \<Rightarrow> (hash \<Rightarrow> bytes option) \<Rightarrow> Database option \<Rightarrow> Database option \<Rightarrow> bool" where
  "db_step kec E N db db' \<longleftrightarrow> db_good kec E db' \<and> (db' = None \<longleftrightarrow> db = None) \<and> grows kec E (view N db) (view N db')"

definition refer_ok :: "keccak \<Rightarrow> node \<Rightarrow> tree \<Rightarrow> bool" where
  "refer_ok kec hs t \<longleftrightarrow> rlp_encodable (node_rval hs) \<and> rlp_spec (node_rval hs) = trefer kec (tenc kec t) \<and> hs \<noteq> NilNode"

lemma collapsed_refer: "collapsed_ok kec False hs t \<Longrightarrow> refer_ok kec hs t"
  by (auto simp: collapsed_ok_def refer_ok_def trefer_def large_def thash_def split: if_splits)

lemma db_step_refl: "db_good kec E db \<Longrightarrow> db_step kec E N db db"
  by (simp add: db_step_def)

lemma db_step_trans: "db_step kec E N a b \<Longrightarrow> db_step kec E N b c \<Longrightarrow> db_step kec E N a c"
  by (auto simp: db_step_def intro: grows_trans)

lemma store_ok:
  assumes n: "\<not> is_HashNode n" "n \<noteq> NilNode" "node_cache n = Some (ch, dirty)" "ch \<noteq> None \<Longrightarrow> ch = Some (Hash_Bytes (thash kec t))"
    and enc: "rlp_encodable (node_rval n)" "rlp_spec (node_rval n) = tenc kec t" "length (tenc kec t) < 2 ^ 64"
    and E: "tenc kec t \<in> E" "db_good kec E db" "leaf_ok (hs_onleaf h)"
  shows "\<exists>hs db'. hasher_store kec h n db b = Some (hs, db') \<and> collapsed_ok kec b hs t \<and> db_step kec E N db db' \<and>
    (db \<noteq> None \<and> (b \<or> large kec t) \<longrightarrow> view N db' (thash kec t) = Some (tenc kec t))"
proof -
  obtain ws where ws: "Encode (node_rval n) = Inr ws" "concat ws = tenc kec t"
    using EncodeToBytes_spec(2) [OF enc(1)] enc(2,3) by (auto simp: map_sum_eq_Inr)
  have ch: "ch = None \<or> ch = Some (Hash_Bytes (thash kec t))"
    using n(4) by blast
  show ?thesis
  proof (cases "b \<or> large kec t")
    case False
    then have "hasher_store kec h n db b = Some (n, db)"
      using n ws by (simp add: hasher_store_def large_def)
    then show ?thesis
      using False n enc(1,2) E(2) by (auto simp: collapsed_ok_def db_step_refl)
  next
    case True
    then have eq: "hasher_store kec h n db b =
        (case db of
           None \<Rightarrow> Some (HashNode (Hash_Bytes (thash kec t)), None)
         | Some d \<Rightarrow> map_option (\<lambda>d'. (HashNode (Hash_Bytes (thash kec t)), Some d')) (writeNode h n (thash kec t) (tenc kec t) d))"
      using ch n(1-3) ws by (auto simp: hasher_store_def large_def Let_def thash_def split: option.split)
    show ?thesis
    proof (cases db)
      case None
      then show ?thesis
        using eq True by (auto simp: collapsed_ok_def db_step_refl)
    next
      case (Some d)
      obtain d' where "writeNode h n (thash kec t) (tenc kec t) d = Some d'" "db_good kec E (Some d')"
          "grows kec E (db_Node d) (db_Node d')" "db_Node d' (thash kec t) = Some (tenc kec t)"
        using writeNode_ok [OF _ E(1,3)] E(2) unfolding Some thash_def by blast
      then show ?thesis
        using eq True by (auto simp: Some collapsed_ok_def db_step_def)
    qed
  qed
qed

fun set_flag :: "nodeFlag \<Rightarrow> node \<Rightarrow> node" where
  "set_flag fl (ShortNode k v _) = ShortNode k v fl"
| "set_flag fl (FullNode cs _) = FullNode cs fl"
| "set_flag fl n = n"

fun get_flag :: "node \<Rightarrow> nodeFlag option" where
  "get_flag (ShortNode k v fl) = Some fl"
| "get_flag (FullNode cs fl) = Some fl"
| "get_flag n = None"

lemma get_flag_facts:
  assumes "get_flag n = Some fl"
  shows "n \<noteq> NilNode" and "\<not> is_HashNode n" and "node_cache n = Some (nf_hash fl, nf_dirty fl)"
    and "canUnload n g l = Some (flag_canUnload fl g l)"
    and "setCached hs clean n = set_flag (fl\<lparr>nf_hash := (case hs of HashNode x \<Rightarrow> Some x | _ \<Rightarrow> None),
           nf_dirty := (if clean then False else nf_dirty fl)\<rparr>) n"
  using assms by (cases n; simp)+

lemma hash_cached:
  assumes n: "get_flag n = Some fl" "trep (view N db) kec b n t" "flag_ok (view N db) kec b fl t"
    and t: "wft t" "t \<noteq> TNil" "tsmall t"
    and res: "cachedResult h n db = Some (hs, c)"
  shows "collapsed_ok kec b hs t \<and> trep (view N db) kec b c t \<and> (db \<noteq> None \<longrightarrow> kept (view N db) kec b t)"
proof -
  obtain x where x: "nf_hash fl = Some x" "hs = HashNode x"
    using res get_flag_facts(3) [OF n(1)] by (auto simp: cachedResult_def split: option.splits if_splits)
  then have ok: "x = Hash_Bytes (thash kec t)" "b \<or> large kec t"
      "\<not> nf_dirty fl \<Longrightarrow> view N db (thash kec t) = Some (tenc kec t) \<and> stored (view N db) kec t"
    using n(3) by (auto simp: flag_ok_def)
  have c: "c = n \<and> (db \<noteq> None \<longrightarrow> \<not> nf_dirty fl) \<or> c = HashNode x \<and> \<not> nf_dirty fl"
    using res x get_flag_facts(3,4) [OF n(1)] by (auto simp: cachedResult_def flag_canUnload_def split: if_splits)
  then show ?thesis
    using ok x n(2) t by (auto simp: collapsed_ok_def kept_def hash_ok_def)
qed

lemma hash_finish:
  assumes walk: "cachedResult h n db = None" "hashChildren kec h n db = Some (col, cch, db1)"
    and fl: "get_flag n = Some fl" "get_flag col = Some fl" "get_flag cch = Some fl" "flag_ok (view N db) kec b fl t"
    and enc: "rlp_encodable (node_rval col)" "rlp_spec (node_rval col) = tenc kec t" "length (tenc kec t) < 2 ^ 64"
    and E: "encs kec t \<subseteq> E" "leaf_ok (hs_onleaf h)"
    and db1: "db_step kec E N db db1" "db \<noteq> None \<longrightarrow> stored (view N db1) kec t"
    and t: "wft t" "t \<noteq> TNil"
    and rep: "\<And>N' fl'. grows kec E (view N db1) N' \<Longrightarrow> flag_ok N' kec b fl' t \<Longrightarrow> trep N' kec b (set_flag fl' cch) t"
  shows "\<exists>hs c db'. hasher_hash kec h n db b = Some (hs, c, db') \<and> collapsed_ok kec b hs t \<and>
    trep (view N db') kec b c t \<and> db_step kec E N db db' \<and> (db \<noteq> None \<longrightarrow> kept (view N db') kec b t)"
proof -
  have in_E: "tenc kec t \<in> E"
    using E(1) enc_in [OF t] by blast
  have ch: "nf_hash fl \<noteq> None \<Longrightarrow> nf_hash fl = Some (Hash_Bytes (thash kec t))"
    using fl(4) by (auto simp: flag_ok_def)
  have good: "db_good kec E db1"
    using db1(1) by (simp add: db_step_def)
  obtain hs db' where st: "hasher_store kec h col db1 b = Some (hs, db')" "collapsed_ok kec b hs t" "db_step kec E N db1 db'"
      "db1 \<noteq> None \<and> (b \<or> large kec t) \<longrightarrow> view N db' (thash kec t) = Some (tenc kec t)"
    using store_ok [OF get_flag_facts(2,1,3) [OF fl(2)] ch enc in_E good E(2), of b N] by blast
  have kept: "db \<noteq> None \<longrightarrow> kept (view N db') kec b t"
    using st(3,4) db1 stored_mono [OF _ disjI1 [OF t(1)] E(1), of "view N db1" "view N db'"] by (auto simp: kept_def db_step_def)
  let ?fl = "fl\<lparr>nf_hash := (case hs of HashNode x \<Rightarrow> Some x | _ \<Rightarrow> None), nf_dirty := (if db \<noteq> None then False else nf_dirty fl)\<rparr>"
  have clean: "db = None \<Longrightarrow> \<not> nf_dirty fl \<Longrightarrow> \<not> b \<and> \<not> large kec t"
    using walk(1) fl(4) get_flag_facts(3) [OF fl(1)] by (auto simp: cachedResult_def flag_ok_def split: option.splits)
  have "flag_ok (view N db') kec b ?fl t"
  proof (cases "b \<or> large kec t")
    case True
    then have "hs = HashNode (Hash_Bytes (thash kec t))"
      using st(2) by (simp add: collapsed_ok_def)
    then show ?thesis
      using True kept clean by (auto simp: flag_ok_def kept_def)
  next
    case False
    then have "\<not> is_HashNode hs"
      using st(2) by (simp add: collapsed_ok_def)
    then show ?thesis
      using False by (cases hs) (auto simp: flag_ok_def)
  qed
  then have "trep (view N db') kec b (set_flag ?fl cch) t"
    using rep st(3) by (simp add: db_step_def)
  moreover have "hasher_hash kec h n db b = Some (hs, set_flag ?fl cch, db')"
    using walk st(1) get_flag_facts(1) [OF fl(1)] get_flag_facts(5) [OF fl(3)] by (simp add: hasher_hash.simps)
  ultimately show ?thesis
    using st(2) kept db_step_trans [OF db1(1) st(3)] by blast
qed

definition hashes :: "keccak \<Rightarrow> bytes set \<Rightarrow> (hash \<Rightarrow> bytes option) \<Rightarrow> hasher \<Rightarrow> tree \<Rightarrow> bool" where
  "hashes kec E N h t \<longleftrightarrow> (\<forall>n b db. trep (view N db) kec b n t \<longrightarrow> db_good kec E db \<longrightarrow>
     (\<exists>hs c db'. hasher_hash kec h n db b = Some (hs, c, db') \<and> collapsed_ok kec b hs t \<and>
        trep (view N db') kec b c t \<and> db_step kec E N db db' \<and> (db \<noteq> None \<longrightarrow> kept (view N db') kec b t)))"

lemma hashesD:
  "hashes kec E N h t \<Longrightarrow> trep (view N db) kec b n t \<Longrightarrow> db_good kec E db \<Longrightarrow>
     \<exists>hs c db'. hasher_hash kec h n db b = Some (hs, c, db') \<and> collapsed_ok kec b hs t \<and>
        trep (view N db') kec b c t \<and> db_step kec E N db db' \<and> (db \<noteq> None \<longrightarrow> kept (view N db') kec b t)"
  by (simp add: hashes_def)

lemma hash_HashNode: "hasher_hash kec h (HashNode x) db b = Some (HashNode x, HashNode x, db)"
  by (simp add: hasher_hash.simps cachedResult_def hasher_store_def)

lemma kept_mono:
  assumes "kept N kec b t" and "wft t" and "t \<noteq> TNil" and "encs kec t \<subseteq> E" and "grows kec E N N'"
  shows "kept N' kec b t"
  using assms stored_mono [OF _ disjI1 [OF assms(2)] assms(4,5)] enc_in [OF assms(2,3), of kec]
  by (auto simp: kept_def grows_def thash_def)

lemma kept_Nil [simp]: "kept N kec False TNil"
  by (simp add: kept_def large_def)

lemma option_bind_case: "Option.bind x f = (case x of None \<Rightarrow> None | Some y \<Rightarrow> f y)"
  by (cases x) simp_all

lemma trep_list_mono:
  assumes "list_all2 (trep N kec False) ns ts" and "\<forall>t \<in> set ts. wft t \<and> encs kec t \<subseteq> E" and "grows kec E N N'"
  shows "list_all2 (trep N' kec False) ns ts"
  unfolding list_all2_conv_all_nth
proof (intro conjI allI impI)
  fix i
  assume i: "i < length ns"
  then have "wft (ts ! i)" "encs kec (ts ! i) \<subseteq> E"
    using assms(2) list_all2_lengthD [OF assms(1)] by simp_all
  then show "trep N' kec False (ns ! i) (ts ! i)"
    using trep_mono [OF list_all2_nthD [OF assms(1) i]] assms(3) by blast
qed (use assms(1) in \<open>simp add: list_all2_lengthD\<close>)

lemma hashList_ok:
  assumes "\<forall>t \<in> set ts. wft t \<and> encs kec t \<subseteq> E \<and> (t \<noteq> TNil \<longrightarrow> hashes kec E N h t)"
    and "list_all2 (trep (view N db) kec False) ns ts" and "db_good kec E db"
  shows "\<exists>ccs chs db'. hashList kec h ns db = Some (ccs, chs, db') \<and> list_all2 (refer_ok kec) ccs ts \<and>
    list_all2 (trep (view N db') kec False) chs ts \<and> db_step kec E N db db' \<and>
    (db \<noteq> None \<longrightarrow> (\<forall>t \<in> set ts. kept (view N db') kec False t))"
  using assms
proof (induction ts arbitrary: ns db)
  case Nil
  then show ?case
    by (auto simp: db_step_refl)
next
  case (Cons t ts)
  obtain n ns' where ns: "ns = n # ns'" "trep (view N db) kec False n t" "list_all2 (trep (view N db) kec False) ns' ts"
    using Cons.prems(2) by (auto simp: list_all2_Cons2)
  have t: "wft t" "encs kec t \<subseteq> E" "t \<noteq> TNil \<Longrightarrow> hashes kec E N h t"
    using Cons.prems(1) by auto
  have nil: "n = NilNode \<longleftrightarrow> t = TNil"
    using ns(2) by (cases n) (auto simp: hash_ok_def)
  obtain cc ch db1 where c: "refer_ok kec cc t" "trep (view N db1) kec False ch t" "db_step kec E N db db1"
      "db \<noteq> None \<longrightarrow> kept (view N db1) kec False t"
      "hashList kec h ns db = (case hashList kec h ns' db1 of None \<Rightarrow> None | Some (ccs, chs, db2) \<Rightarrow> Some (cc # ccs, ch # chs, db2))"
  proof (cases "t = TNil")
    case True
    then show thesis
      using that [of "ValueNode []" db NilNode] nil Cons.prems(3)
      by (simp add: ns(1) refer_ok_def trefer_def rep_Nil db_step_refl option_bind_case)
  next
    case False
    then obtain hs c db1 where "hasher_hash kec h n db False = Some (hs, c, db1)" "collapsed_ok kec False hs t"
        "trep (view N db1) kec False c t" "db_step kec E N db db1" "db \<noteq> None \<longrightarrow> kept (view N db1) kec False t"
      using t(3) ns(2) Cons.prems(3) unfolding hashes_def by blast
    then show thesis
      using that [of hs db1 c] nil False by (simp add: ns(1) collapsed_refer option_bind_case)
  qed
  have "list_all2 (trep (view N db1) kec False) ns' ts"
  proof (rule trep_list_mono [OF ns(3)])
    show "\<forall>t \<in> set ts. wft t \<and> encs kec t \<subseteq> E"
      using Cons.prems(1) by simp
    show "grows kec E (view N db) (view N db1)"
      using c(3) by (simp add: db_step_def)
  qed
  then obtain ccs chs db2 where r: "hashList kec h ns' db1 = Some (ccs, chs, db2)" "list_all2 (refer_ok kec) ccs ts"
      "list_all2 (trep (view N db2) kec False) chs ts" "db_step kec E N db1 db2"
      "db1 \<noteq> None \<longrightarrow> (\<forall>t \<in> set ts. kept (view N db2) kec False t)"
    using Cons.IH [of db1 ns'] Cons.prems(1) c(3) by (auto simp: db_step_def)
  have grow: "grows kec E (view N db1) (view N db2)" "db1 = None \<longleftrightarrow> db = None"
    using r(4) c(3) by (simp_all add: db_step_def)
  have "trep (view N db2) kec False ch t" "db \<noteq> None \<longrightarrow> kept (view N db2) kec False t"
    using trep_mono [OF c(2) disjI1 [OF t(1)] t(2) grow(1)] c(4) kept_mono [OF _ t(1) _ t(2) grow(1)] by (auto, cases "t = TNil") auto
  then show ?case
    using c(1,3,5) r grow(2) db_step_trans [OF c(3) r(4)] by auto
qed

text \<open>What walking the children of a node gives, before the node itself is stored.\<close>

definition walks :: "keccak \<Rightarrow> bytes set \<Rightarrow> (hash \<Rightarrow> bytes option) \<Rightarrow> hasher \<Rightarrow> bool \<Rightarrow> nodeFlag \<Rightarrow> node \<Rightarrow> tree \<Rightarrow> Database option \<Rightarrow> bool" where
  "walks kec E N h b fl n t db \<longleftrightarrow> (\<exists>col cch db1. hashChildren kec h n db = Some (col, cch, db1) \<and>
     get_flag col = Some fl \<and> get_flag cch = Some fl \<and> rlp_encodable (node_rval col) \<and> rlp_spec (node_rval col) = tenc kec t \<and>
     db_step kec E N db db1 \<and> (db \<noteq> None \<longrightarrow> stored (view N db1) kec t) \<and>
     (\<forall>N' fl'. grows kec E (view N db1) N' \<longrightarrow> flag_ok N' kec b fl' t \<longrightarrow> trep N' kec b (set_flag fl' cch) t))"

lemma hashesI:
  assumes E: "leaf_ok (hs_onleaf h)" "encs kec t \<subseteq> E"
    and t: "wft t" "t \<noteq> TNil" "tsmall t"
    and walk: "\<And>n b db fl. get_flag n = Some fl \<Longrightarrow> trep (view N db) kec b n t \<Longrightarrow> db_good kec E db \<Longrightarrow>
      flag_ok (view N db) kec b fl t \<and> walks kec E N h b fl n t db"
  shows "hashes kec E N h t"
  unfolding hashes_def
proof (intro allI impI)
  fix n b db
  assume n: "trep (view N db) kec b n t" and good: "db_good kec E db"
  show "\<exists>hs c db'. hasher_hash kec h n db b = Some (hs, c, db') \<and> collapsed_ok kec b hs t \<and>
      trep (view N db') kec b c t \<and> db_step kec E N db db' \<and> (db \<noteq> None \<longrightarrow> kept (view N db') kec b t)"
  proof (cases "get_flag n")
    case None
    then obtain x where "n = HashNode x" "hash_ok (view N db) kec b x t"
      using n t by (cases n) auto
    then show ?thesis
      using n good by (auto simp: hash_HashNode hash_ok_def collapsed_ok_def kept_def db_step_refl)
  next
    case (Some fl)
    note w = walk [OF Some n good]
    show ?thesis
    proof (cases "cachedResult h n db")
      case None
      have "length (tenc kec t) < 2 ^ 64"
        using tenc_bound [OF disjI1 [OF t(1)] t(3), of kec] by simp
      then show ?thesis
        using hash_finish [OF None _ Some _ _ _ _ _ _ E(2,1) _ _ t(1,2)] w unfolding walks_def by blast
    next
      case res: (Some r)
      obtain hs c where r: "r = (hs, c)"
        by (cases r)
      have "hasher_hash kec h n db b = Some (hs, c, db)"
        using res get_flag_facts(1) [OF Some] by (simp add: hasher_hash.simps r)
      then show ?thesis
        using hash_cached [OF Some n _ t res [unfolded r]] w db_step_refl [OF good] by blast
    qed
  qed
qed

lemma walks_TShort:
  assumes "wft (TShort k u)" and "encs kec u \<subseteq> E" and IH: "wft u \<Longrightarrow> hashes kec E N h u"
    and "trep (view N db) kec False v u" and "db_good kec E db"
  shows "walks kec E N h b fl (ShortNode k v fl) (TShort k u) db"
proof -
  have "hex_key k"
    using assms(1) by (auto simp: hex_key_def split: if_splits)
  then obtain ck where ck: "hexToCompact k = Some ck"
    using compact_inverse by blast
  show ?thesis
  proof (cases "is_TVal u")
    case True
    then obtain x where x: "u = TVal x" "x \<noteq> []"
      by (rule is_TValE)
    then have "v = ValueNode x"
      using assms(4) by (cases v) (auto simp: hash_ok_def)
    then show ?thesis
      using assms(5) x ck by (auto simp: walks_def db_step_refl rep_Value)
  next
    case False
    then have u: "wft u" "u \<noteq> TNil"
      using assms(1) by (auto split: if_splits)
    then obtain hs c db1 where r: "hasher_hash kec h v db False = Some (hs, c, db1)" "refer_ok kec hs u"
        "trep (view N db1) kec False c u" "db_step kec E N db db1" "db \<noteq> None \<longrightarrow> kept (view N db1) kec False u"
      using IH assms(4,5) collapsed_refer unfolding hashes_def by blast
    have "\<not> is_ValueNode v"
      using assms(4) u by (cases v) auto
    moreover have "nil_value hs = hs"
      using r(2) by (cases hs) (auto simp: refer_ok_def)
    ultimately have "hashChildren kec h (ShortNode k v fl) db = Some (ShortNode ck hs fl, ShortNode k c fl, db1)"
      using r(1) ck by simp
    moreover have "trep N' kec False c u" if "grows kec E (view N db1) N'" for N'
      using trep_mono [OF r(3) disjI1 [OF u(1)] assms(2) that] .
    ultimately show ?thesis
      using r(2,4,5) False ck by (auto simp: walks_def refer_ok_def kept_def)
  qed
qed

lemma refer_list:
  assumes "list_all2 (refer_ok kec) ccs ts"
  shows "map (\<lambda>c. rlp_spec (node_rval c)) ccs = map (\<lambda>t. trefer kec (tenc kec t)) ts"
    and "\<forall>c \<in> set ccs. rlp_encodable (node_rval c)"
  using assms by (induction rule: list_all2_induct) (auto simp: refer_ok_def)

lemma walks_TFull:
  assumes "wft (TFull ts)" and "encs kec (TFull ts) \<subseteq> E"
    and IH: "\<And>t. t \<in> set (take 16 ts) \<Longrightarrow> t \<noteq> TNil \<Longrightarrow> hashes kec E N h t"
    and "list_all2 (trep (view N db) kec False) ns ts" and "db_good kec E db"
  shows "walks kec E N h b fl (FullNode ns fl) (TFull ts) db"
proof -
  have len: "length ts = 17" "length ns = 17"
    using assms(1) list_all2_lengthD [OF assms(4)] by simp_all
  have sub: "\<forall>t \<in> set (take 16 ts). wft t \<and> encs kec t \<subseteq> E"
    using assms(1,2) by auto
  then have all: "\<forall>t \<in> set (take 16 ts). wft t \<and> encs kec t \<subseteq> E \<and> (t \<noteq> TNil \<longrightarrow> hashes kec E N h t)"
    using IH by blast
  obtain ccs chs db1 where r: "hashList kec h (take 16 ns) db = Some (ccs, chs, db1)"
      "list_all2 (refer_ok kec) ccs (take 16 ts)" "list_all2 (trep (view N db1) kec False) chs (take 16 ts)"
      "db_step kec E N db db1" "db \<noteq> None \<longrightarrow> (\<forall>t \<in> set (take 16 ts). kept (view N db1) kec False t)"
    using hashList_ok [OF all list_all2_takeI [OF assms(4)] assms(5)] by blast
  have last: "drop 16 ns = [ns ! 16]" "drop 16 ts = [ts ! 16]" "take 16 ts @ [ts ! 16] = ts"
    using len append_take_drop_id [of 16 ts] by (simp_all add: drop_16 list_eq_iff_nth_eq)
  have slot: "(ns ! 16 = NilNode \<and> ts ! 16 = TNil) \<or> (\<exists>v. ns ! 16 = ValueNode v \<and> ts ! 16 = TVal v)"
    using list_all2_nthD [OF assms(4), of 16] assms(1) len by (cases "ns ! 16") (auto simp: hash_ok_def elim!: is_TValE)
  let ?col = "FullNode (ccs @ [nil_value (ns ! 16)]) fl"
  have "rlp_encodable (node_rval ?col) \<and> rlp_spec (node_rval ?col) = tenc kec (TFull ts)"
    using slot refer_list [OF r(2)] by (auto simp: last(2) comp_def)
  moreover have "list_all2 (trep N' kec False) (chs @ [ns ! 16]) ts" if "grows kec E (view N db1) N'" for N'
  proof -
    have "list_all2 (trep N' kec False) (chs @ [ns ! 16]) (take 16 ts @ [ts ! 16])"
      using trep_list_mono [OF r(3) sub that] slot by (intro list_all2_appendI) (auto simp: rep_Nil rep_Value)
    then show ?thesis
      by (simp only: last(3))
  qed
  ultimately show ?thesis
    using r(1,4,5) by (auto simp: walks_def last(1) kept_def)
qed

lemma hashes_tree:
  assumes leaf: "leaf_ok (hs_onleaf h)"
  shows "wft t \<Longrightarrow> t \<noteq> TNil \<Longrightarrow> tsmall t \<Longrightarrow> encs kec t \<subseteq> E \<Longrightarrow> hashes kec E N h t"
proof (induction t)
  case (TShort k u)
  have IH: "hashes kec E N h u" if "wft u"
  proof -
    have "is_TFull u"
      using TShort.prems(1) that by (cases u) (auto split: if_splits)
    then show ?thesis
      using TShort.IH that tsmall_TShort TShort.prems(3,4) by (auto elim!: is_TFullE)
  qed
  show ?case
  proof (rule hashesI [OF leaf TShort.prems(4,1-3)])
    fix n b db fl
    assume n: "get_flag n = Some fl" "trep (view N db) kec b n (TShort k u)" "db_good kec E db"
    then obtain v where v: "n = ShortNode k v fl" "trep (view N db) kec False v u" "flag_ok (view N db) kec b fl (TShort k u)"
      by (cases n) auto
    then show "flag_ok (view N db) kec b fl (TShort k u) \<and> walks kec E N h b fl n (TShort k u) db"
      using walks_TShort [OF TShort.prems(1) _ IH v(2) n(3)] TShort.prems(4) by simp
  qed
next
  case (TFull ts)
  have IH: "hashes kec E N h t" if "t \<in> set (take 16 ts)" "t \<noteq> TNil" for t
  proof -
    have "wft t" "encs kec t \<subseteq> E"
      using TFull.prems(1,4) that(1) by auto
    moreover have "tsmall t"
      using TFull.prems(1,3) that(1) tsmall_TFull [of ts] by (auto simp: in_set_conv_nth)
    ultimately show ?thesis
      using TFull.IH [OF in_set_takeD [OF that(1)]] that(2) by blast
  qed
  show ?case
  proof (rule hashesI [OF leaf TFull.prems(4,1-3)])
    fix n b db fl
    assume n: "get_flag n = Some fl" "trep (view N db) kec b n (TFull ts)" "db_good kec E db"
    then obtain ns where ns: "n = FullNode ns fl" "list_all2 (trep (view N db) kec False) ns ts" "flag_ok (view N db) kec b fl (TFull ts)"
      by (cases n) auto
    then show "flag_ok (view N db) kec b fl (TFull ts) \<and> walks kec E N h b fl n (TFull ts) db"
      using walks_TFull [OF TFull.prems(1,4) IH ns(2) n(3)] by simp
  qed
qed auto

end
