(* ===== verification/Trie_Root.thy ===== *)
theory Trie_Root
  imports Trie_Hasher
begin

text \<open>
  What the root hash of a trie says about its contents, and that a committed trie can be opened again from its
  root hash.
\<close>

definition root_hash :: "keccak \<Rightarrow> tree \<Rightarrow> hash" where
  "root_hash kec t = (if t = TNil then emptyRoot else thash kec t)"

section \<open>Computing the root hash\<close>

lemma leaf_ok_None [simp]: "leaf_ok None"
  by (simp add: leaf_ok_def)

lemma newHasher_onleaf [simp]: "hs_onleaf (newHasher g l f) = f"
  by (simp add: newHasher_def)

lemma hashRoot_rep:
  assumes "trep (view N db) kec True (tr_root tr) t" and "wft t" and "tsmall t" and "encs kec t \<subseteq> E"
    and "leaf_ok onleaf" and "db_good kec E db"
  shows "\<exists>c db'. hashRoot kec db onleaf tr = Some (HashNode (Hash_Bytes (root_hash kec t)), c, db') \<and>
    trep (view N db') kec True c t \<and> (db' = None \<longleftrightarrow> db = None) \<and> (db \<noteq> None \<and> t \<noteq> TNil \<longrightarrow> kept (view N db') kec True t)"
proof -
  have nil: "tr_root tr = NilNode \<longleftrightarrow> t = TNil"
    using assms(1) by (cases "tr_root tr") (auto simp: hash_ok_def)
  show ?thesis
  proof (cases "t = TNil")
    case True
    then show ?thesis
      using nil by (auto simp: hashRoot_def root_hash_def rep_Nil)
  next
    case False
    let ?h = "newHasher (tr_cachegen tr) (tr_cachelimit tr) onleaf"
    have "hashes kec E N ?h t"
      using assms(2-5) False by (intro hashes_tree) simp_all
    then obtain hs c db' where "hasher_hash kec ?h (tr_root tr) db True = Some (hs, c, db')" "collapsed_ok kec True hs t"
        "trep (view N db') kec True c t" "db_step kec E N db db'" "db \<noteq> None \<longrightarrow> kept (view N db') kec True t"
      using hashesD [OF _ assms(1,6)] by blast
    then show ?thesis
      using nil False by (auto simp: hashRoot_def root_hash_def collapsed_ok_def db_step_def)
  qed
qed

lemma Trie_Hash_holds:
  assumes "trep (db_lookup (tr_db tr)) kec True (tr_root tr) t" and "holds t m" and "msmall m"
  shows "\<exists>n. Trie_Hash kec tr = Some (root_hash kec t, tr\<lparr>tr_root := n\<rparr>) \<and> trie_holds kec (tr\<lparr>tr_root := n\<rparr>) m"
proof -
  have "wft t" "tsmall t"
    using assms(2,3) holds_small by (auto simp: holds_def)
  then obtain c where "hashRoot kec None None tr = Some (HashNode (Hash_Bytes (root_hash kec t)), c, None)"
      "trep (db_lookup (tr_db tr)) kec True c t"
    using hashRoot_rep [of "db_lookup (tr_db tr)" None kec tr t "encs kec t" None] assms(1) by auto
  then show ?thesis
    using trie_holds_rep assms(2,3) by (auto simp: Trie_Hash_def)
qed

section \<open>The root hash identifies the contents\<close>

lemma stored_all:
  "wft t \<or> is_TVal t \<Longrightarrow> \<forall>e \<in> encs kec t. N (kec e) = Some e \<Longrightarrow> stored N kec t"
proof (induction t)
  case (TShort k t)
  then have "wft t \<or> is_TVal t" "wft t \<Longrightarrow> t \<noteq> TNil \<Longrightarrow> tenc kec t \<in> encs kec t"
    using wft_TShort_cases enc_in by auto
  then show ?case
    using TShort.IH TShort.prems(2) large_not_Nil by (auto simp: thash_def)
next
  case (TFull ts)
  have "stored N kec t \<and> (large kec t \<longrightarrow> N (thash kec t) = Some (tenc kec t))" if t: "t \<in> set (take 16 ts)" for t
  proof -
    have "wft t" "\<forall>e \<in> encs kec t. N (kec e) = Some e"
      using TFull.prems t by auto
    then show ?thesis
      using TFull.IH [OF in_set_takeD [OF t]] enc_in [of t kec] large_not_Nil [of kec t] by (auto simp: thash_def)
  qed
  then show ?case
    by simp
qed auto

text \<open>For a set of encodings without collisions there is a store that holds them all.\<close>

lemma full_store:
  assumes "inj_on kec E"
  obtains N where "\<And>t. wft t \<Longrightarrow> t \<noteq> TNil \<Longrightarrow> tsmall t \<Longrightarrow> encs kec t \<subseteq> E \<Longrightarrow> hash_ok N kec True (Hash_Bytes (thash kec t)) t"
proof
  define N where "N h = (if h \<in> kec ` E then Some (inv_into E kec h) else None)" for h
  have N: "N (kec e) = Some e" if "e \<in> E" for e
    using assms that by (simp add: N_def)
  show "hash_ok N kec True (Hash_Bytes (thash kec t)) t" if "wft t" "t \<noteq> TNil" "tsmall t" "encs kec t \<subseteq> E" for t
    using that stored_all [of t kec N] enc_in [of t kec] N by (auto simp: hash_ok_def thash_def)
qed

lemma tenc_inject:
  assumes t: "wft t" "t \<noteq> TNil" "tsmall t" and t': "wft t'" "t' \<noteq> TNil" "tsmall t'"
    and E: "encs kec t \<subseteq> E" "encs kec t' \<subseteq> E" "inj_on kec E" and eq: "tenc kec t = tenc kec t'"
  shows "t = t'"
proof (rule tree_canonical [OF t(1) t'(1)])
  obtain N where ok: "\<And>u. wft u \<Longrightarrow> u \<noteq> TNil \<Longrightarrow> tsmall u \<Longrightarrow> encs kec u \<subseteq> E \<Longrightarrow>
      hash_ok N kec True (Hash_Bytes (thash kec u)) u"
    using full_store [OF E(3)] by blast
  define d where "d = \<lparr>db_disk = (\<lambda>k. N (BytesToHash k)), db_nodes = [], db_preimages = []\<rparr>"
  define tr where "tr = \<lparr>tr_db = Some d, tr_root = NilNode, tr_originalRoot = 0, tr_prefix = None, tr_cachegen = 0, tr_cachelimit = 0\<rparr>"
  have lookup: "db_lookup (Some d) = N"
    by (auto simp: db_lookup_def db_Node_def d_def)
  have R: "trep (db_lookup (Some d)) kec True (HashNode (Hash_Bytes (thash kec t))) t"
      "trep (db_lookup (Some d)) kec True (HashNode (Hash_Bytes (thash kec t))) t'"
    using ok [OF t E(1)] ok [OF t' E(2)] unfolding lookup by (simp_all add: thash_def eq)
  show "tlook t = tlook t'"
  proof
    fix key
    show "tlook t key = tlook t' key"
    proof (cases "tkey key")
      case True
      then have slot: "slot t (drop 0 key)" "slot t' (drop 0 key)"
        using t(1) t'(1) by (auto simp: slot_def)
      have "tr_db tr = Some d"
        by (simp add: tr_def)
      then show ?thesis
        using ts.tryGet_rep [OF _ R(1) slot(1), of tr "trie_fuel key"] ts.tryGet_rep [OF _ R(2) slot(2), of tr "trie_fuel key"]
        by (simp add: trie_fuel_def) force
    next
      case False
      then show ?thesis
        using tlook_tkey t(1) t'(1) by (metis option.exhaust)
    qed
  qed
qed

text \<open>The encodings of the nodes of the trie that holds a map.\<close>

definition map_encs :: "keccak \<Rightarrow> (bytes \<rightharpoonup> bytes) \<Rightarrow> bytes set" where
  "map_encs kec m = {e. \<exists>t. holds t m \<and> e \<in> encs kec t}"

definition collision_free :: "keccak \<Rightarrow> bytes set \<Rightarrow> bool" where
  "collision_free kec E \<longleftrightarrow> inj_on kec E \<and> 0 \<notin> kec ` E \<and> emptyRoot \<notin> kec ` E"

lemma map_encs_tree: "holds t m \<Longrightarrow> map_encs kec m = encs kec t"
  using holds_unique by (auto simp: map_encs_def)

lemma holds_map_unique: "holds t m \<Longrightarrow> holds t m' \<Longrightarrow> m = m'"
  by (auto simp: holds_def)

lemma root_hash_inject:
  assumes t: "holds t m" "msmall m" and t': "holds t' m'" "msmall m'"
    and free: "collision_free kec (encs kec t \<union> encs kec t')" and eq: "root_hash kec t = root_hash kec t'"
  shows "m = m'"
proof -
  have wf: "wft t" "wft t'" "tsmall t" "tsmall t'"
    using t t' holds_small by (auto simp: holds_def)
  have "t = t'"
  proof (cases "t = TNil \<or> t' = TNil")
    case True
    have "thash kec u \<noteq> emptyRoot" if "u = t \<or> u = t'" "u \<noteq> TNil" for u
    proof -
      have "tenc kec u \<in> encs kec t \<union> encs kec t'"
        using that wf enc_in [of u kec] by auto
      then show ?thesis
        using free unfolding collision_free_def thash_def by (metis imageI)
    qed
    then show ?thesis
      using True eq by (auto simp: root_hash_def split: if_splits)
  next
    case False
    then have "thash kec t = thash kec t'"
      using eq by (simp add: root_hash_def)
    then have "tenc kec t = tenc kec t'"
      using free False wf enc_in [of t kec] enc_in [of t' kec] unfolding collision_free_def thash_def by (meson UnCI inj_onD)
    then show ?thesis
      using tenc_inject [of t t' kec "encs kec t \<union> encs kec t'"] False wf free by (simp add: collision_free_def)
  qed
  then show ?thesis
    using t(1) t'(1) holds_map_unique by blast
qed

text \<open>
  C0: the root hash stands for the contents.  Two tries with the same contents have the same root hash, whatever
  the order of the updates and deletions that built them, whatever parts of them are loaded and whatever hashes
  are cached; computing the hash changes the contents of neither.  Two tries with equal root hashes have the same
  contents, unless the hash function collides on the encodings of their nodes.
\<close>

theorem root_hash_contents:
  assumes "trie_holds kec tr m" and "trie_holds kec tr' m'"
  shows "\<exists>h n h' n'. Trie_Hash kec tr = Some (h, tr\<lparr>tr_root := n\<rparr>) \<and> trie_holds kec (tr\<lparr>tr_root := n\<rparr>) m \<and>
    Trie_Hash kec tr' = Some (h', tr'\<lparr>tr_root := n'\<rparr>) \<and> trie_holds kec (tr'\<lparr>tr_root := n'\<rparr>) m' \<and>
    (m = m' \<longrightarrow> h = h') \<and>
    (collision_free kec (map_encs kec m \<union> map_encs kec m') \<longrightarrow> h = h' \<longrightarrow> m = m')"
proof -
  obtain t where t: "trep (db_lookup (tr_db tr)) kec True (tr_root tr) t" "holds t m" "msmall m"
    using assms(1) by (auto simp: trie_holds_def)
  obtain t' where t': "trep (db_lookup (tr_db tr')) kec True (tr_root tr') t'" "holds t' m'" "msmall m'"
    using assms(2) by (auto simp: trie_holds_def)
  have "m = m' \<longrightarrow> root_hash kec t = root_hash kec t'"
    using holds_unique t(2) t'(2) by auto
  moreover have "collision_free kec (map_encs kec m \<union> map_encs kec m') \<longrightarrow> root_hash kec t = root_hash kec t' \<longrightarrow> m = m'"
    using root_hash_inject [OF t(2,3) t'(2,3)] by (simp add: map_encs_tree [OF t(2)] map_encs_tree [OF t'(2)])
  ultimately show ?thesis
    using Trie_Hash_holds [OF t] Trie_Hash_holds [OF t'] by blast
qed

theorem root_hash_contents_witness:
  "\<exists>tr1 tr2 h n n'. TryUpdate [0x12] [7] sample_trie = Some (Inr tr1) \<and> TryDelete [0x12] tr1 = Some (Inr tr2) \<and>
     Trie_Hash (\<lambda>_. 0) tr2 = Some (h, n) \<and> Trie_Hash (\<lambda>_. 0) sample_trie = Some (h, n')"
proof -
  have key: "full_key (sample_trie\<lparr>tr_root := n\<rparr>) [0x12] = [0xAB, 0x12]" "full_key sample_trie [0x12] = [0xAB, 0x12]" for n
    by (simp_all add: full_key_def sample_trie_def)
  obtain n where n: "TryUpdate [0x12] [7] sample_trie = Some (Inr (sample_trie\<lparr>tr_root := n\<rparr>))"
    "trie_holds (\<lambda>_. 0) (sample_trie\<lparr>tr_root := n\<rparr>) [[0xAB, 0x12] \<mapsto> [7]]"
    using TryUpdate_holds [OF sample_trie_holds, where kec = "\<lambda>_. 0" and key = "[0x12]" and v = "[7]"] by (auto simp: key)
  obtain n' where n': "TryDelete [0x12] (sample_trie\<lparr>tr_root := n\<rparr>) = Some (Inr (sample_trie\<lparr>tr_root := n'\<rparr>))"
    "trie_holds (\<lambda>_. 0) (sample_trie\<lparr>tr_root := n'\<rparr>) Map.empty"
    using TryDelete_holds [OF n(2), where key = "[0x12]"] by (auto simp: key)
  show ?thesis
    using n(1) n'(1) root_hash_contents [OF n'(2) sample_trie_holds] by auto
qed

section \<open>Commit and reopen\<close>

text \<open>The database holds no other node under the hash of one of the encodings.\<close>

definition no_clash :: "keccak \<Rightarrow> bytes set \<Rightarrow> Database \<Rightarrow> bool" where
  "no_clash kec E d \<longleftrightarrow> (\<forall>e \<in> E. \<forall>n. map_of (db_nodes d) (kec e) = Some n \<longrightarrow> cn_blob n = Some e)"

lemma Trie_New_kept:
  assumes "kept (db_Node d) kec True t" and "wft t" and "t \<noteq> TNil" and "tsmall t"
    and "thash kec t \<noteq> 0" and "thash kec t \<noteq> emptyRoot"
  shows "\<exists>tr. Trie_New (thash kec t) (Some d) = Some (Inr tr) \<and> tr_db tr = Some d \<and> trep (db_Node d) kec True (tr_root tr) t"
proof -
  let ?tr = "\<lparr>tr_db = Some d, tr_root = NilNode, tr_originalRoot = thash kec t, tr_prefix = None, tr_cachegen = 0, tr_cachelimit = 0\<rparr>"
  have lookup: "db_lookup (Some d) = db_Node d"
    by (auto simp: db_lookup_def)
  have "hash_ok (db_Node d) kec True (Hash_Bytes (thash kec t)) t"
    using assms(1-4) by (simp add: hash_ok_def kept_def)
  then obtain n where "resolveHash ?tr (Hash_Bytes (thash kec t)) [] = Some (Inr n)" "trep (db_Node d) kec True n t"
    using ts.resolved [of "Some d" kec True _ t ?tr "[]"] unfolding lookup by auto
  then show ?thesis
    using assms(5,6) by (simp add: Trie_New_def)
qed

text \<open>
  C0: a committed trie can be opened again.  Committing returns the root hash, leaves a trie with the same
  contents, some of whose nodes may now be unloaded, and opening a trie at that hash on the database gives the
  same contents.  The hash function must not collide on the encodings of the nodes, neither with each other nor
  with nodes that the database already holds, and a callback for leaves may only add references.
\<close>

theorem commit_reopen:
  assumes "trie_holds kec tr m" and "tr_db tr = Some d" and "leaf_ok onleaf"
    and "collision_free kec (map_encs kec m)" and "no_clash kec (map_encs kec m) d"
  shows "\<exists>h n tr1 tr2. Trie_Hash kec tr = Some (h, tr\<lparr>tr_root := n\<rparr>) \<and>
    Trie_Commit kec onleaf tr = Some (h, tr1) \<and> trie_holds kec tr1 m \<and>
    Trie_New h (tr_db tr1) = Some (Inr tr2) \<and> trie_holds kec tr2 m"
proof -
  obtain t where t: "trep (db_lookup (tr_db tr)) kec True (tr_root tr) t" "holds t m" "msmall m"
    using assms(1) by (auto simp: trie_holds_def)
  have wf: "wft t" "tsmall t"
    using t(2,3) holds_small by (auto simp: holds_def)
  have E: "map_encs kec m = encs kec t"
    by (rule map_encs_tree [OF t(2)])
  have lookup: "db_lookup (Some x) = db_Node x" for x
    by (auto simp: db_lookup_def)
  have "db_good kec (encs kec t) (Some d)"
    using assms(4,5) by (simp add: db_good_Some collision_free_def no_clash_def E)
  then obtain c d' where r: "hashRoot kec (Some d) onleaf tr = Some (HashNode (Hash_Bytes (root_hash kec t)), c, Some d')"
      "trep (db_Node d') kec True c t" "t \<noteq> TNil \<longrightarrow> kept (db_Node d') kec True t"
    using hashRoot_rep [of "db_lookup (tr_db tr)" "Some d" kec tr t "encs kec t" onleaf] t(1) wf assms(2,3) lookup [of d]
    by auto
  let ?tr1 = "tr\<lparr>tr_db := Some d', tr_root := c, tr_cachegen := tr_cachegen tr + 1\<rparr>"
  have commit: "Trie_Commit kec onleaf tr = Some (root_hash kec t, ?tr1)"
    using r(1) assms(2) by (simp add: Trie_Commit_def)
  have "trie_holds kec ?tr1 m"
    using r(2) t(2,3) lookup [of d'] by (auto simp: trie_holds_def)
  moreover obtain tr2 where "Trie_New (root_hash kec t) (Some d') = Some (Inr tr2)" "trie_holds kec tr2 m"
  proof (cases "t = TNil")
    case True
    then show thesis
      using that t(2,3) by (auto simp: Trie_New_def root_hash_def trie_holds_def rep_Nil)
  next
    case False
    then have "thash kec t \<noteq> 0" "thash kec t \<noteq> emptyRoot"
      using assms(4) enc_in [OF wf(1) False, of kec] unfolding collision_free_def thash_def E by (metis imageI)+
    then obtain tr2 where "Trie_New (thash kec t) (Some d') = Some (Inr tr2)" "tr_db tr2 = Some d'"
        "trep (db_Node d') kec True (tr_root tr2) t"
      using Trie_New_kept [of d' kec t] r(3) wf False by blast
    then show thesis
      using that [of tr2] t(2,3) False lookup [of d'] by (auto simp: root_hash_def trie_holds_def)
  qed
  ultimately show ?thesis
    using commit Trie_Hash_holds [OF t] by auto
qed

definition sample_db_trie :: Trie where
  "sample_db_trie = sample_trie\<lparr>tr_db := Some (NewDatabase (\<lambda>_. None))\<rparr>"

lemma sample_db_trie_holds: "trie_holds kec sample_db_trie Map.empty"
  by (auto simp: trie_holds_def sample_db_trie_def sample_trie_def msmall_def intro: holds_empty)

lemma sample_encs: "\<exists>e. map_encs kec [key \<mapsto> v] = {e}" if "v \<noteq> []"
proof -
  have hex: "keybytesToHex key \<noteq> []"
    by (simp add: keybytesToHex_def)
  then have "tins TNil (keybytesToHex key) (TVal v) = TShort (keybytesToHex key) (TVal v)"
    by (cases "keybytesToHex key") auto
  then show ?thesis
    using map_encs_tree [OF holds_tins [OF holds_empty that]] by (auto simp del: tenc.simps)
qed

theorem commit_reopen_witness:
  "\<exists>tr h tr1 tr2. TryUpdate [0x12] [7] sample_db_trie = Some (Inr tr) \<and> Trie_Commit (\<lambda>_. 1) None tr = Some (h, tr1) \<and>
     Trie_New h (tr_db tr1) = Some (Inr tr2) \<and> trie_holds (\<lambda>_. 1) tr2 [[0xAB, 0x12] \<mapsto> [7]]"
proof -
  have key: "full_key sample_db_trie [0x12] = [0xAB, 0x12]"
    by (simp add: full_key_def sample_db_trie_def sample_trie_def)
  obtain n where n: "TryUpdate [0x12] [7] sample_db_trie = Some (Inr (sample_db_trie\<lparr>tr_root := n\<rparr>))"
    "trie_holds (\<lambda>_. 1) (sample_db_trie\<lparr>tr_root := n\<rparr>) [[0xAB, 0x12] \<mapsto> [7]]"
    using TryUpdate_holds [OF sample_db_trie_holds, where kec = "\<lambda>_. 1" and key = "[0x12]" and v = "[7]"] by (auto simp: key)
  obtain e where e: "map_encs (\<lambda>_. 1) [[0xAB, 0x12] \<mapsto> [7]] = {e}"
    using sample_encs by blast
  have "collision_free (\<lambda>_. 1) {e}" "no_clash (\<lambda>_. 1) {e} (NewDatabase (\<lambda>_. None))"
    by (simp_all add: collision_free_def no_clash_def emptyRoot_def NewDatabase_def)
  then show ?thesis
    using n(1) commit_reopen [OF n(2), of "NewDatabase (\<lambda>_. None)" None, unfolded e] by (auto simp: sample_db_trie_def)
qed

end
