(* ===== verification/Spec2Isabelle.thy ===== *)
theory Spec2Isabelle
  imports BFT_Limits Poa_Produce Poa_Recents Trie_Root
begin

text \<open>
  A verification development of linkeye, a Go blockchain node derived from go-ethereum with a Byzantine
  fault tolerant consensus engine.  All paths are below \<^verbatim>\<open>src/\<close>.

  \<^bold>\<open>The program.\<close>  Nodes exchange blocks and signed consensus messages, encoded with RLP
  (\<^verbatim>\<open>rlp\<close>).  A block (\<^verbatim>\<open>core/types\<close>) carries signed transactions.  A set of validators
  (\<^verbatim>\<open>consensus/dbft/validator\<close>) agrees on each block with a three-phase protocol run by
  \<^verbatim>\<open>consensus/dbft/core\<close>: the proposer of a round sends a PRE-PREPARE, the validators answer
  with PREPARE, then COMMIT; a round that does not finish is changed by ROUND CHANGE messages.  The
  package \<^verbatim>\<open>consensus/bft\<close> is a copy of \<^verbatim>\<open>consensus/dbft\<close>; the theories follow the
  latter.  The engine \<^verbatim>\<open>consensus/poa\<close> instead lets a set of signers take turns; the set is a function
  of the votes in the headers, kept in snapshots.  Accounts, storage and the data of a block are held in Merkle
  tries (\<^verbatim>\<open>trie\<close>), whose root hashes stand in the headers.

  \<^bold>\<open>Conventions.\<close>  Addresses, hashes and fixed-width integers are words, byte slices are lists of
  8-bit words, a \<^verbatim>\<open>*big.Int\<close> is an \<open>int\<close> (an option where nil occurs).  An error is a value of a
  sum type, a panic or a decoder that does not return is \<open>None\<close>.  The Keccak hash, the recovery of a
  signer and the backend of the consensus core are arguments.  State is passed explicitly; what a handler
  sends is appended to a list of effects.

  \<^bold>\<open>Theories.\<close>
  \<^item> \<^verbatim>\<open>Prelude\<close>, \<^verbatim>\<open>Common_Types\<close>: shared lemmas, bytes, addresses and hashes
    (\<^verbatim>\<open>common/types.go\<close>).
  \<^item> \<^verbatim>\<open>Validator_Set\<close>: the sorted validator set, proposer selection and the fault bound \<open>F\<close>.  The
    locale \<open>quorum_system\<close> holds the counting argument for quorums and is interpreted on the validator
    set.
  \<^item> \<^verbatim>\<open>Go_Heap\<close>: \<^verbatim>\<open>container/heap\<close> and the priority queue of the backlog.  The locale
    \<open>heap_order\<close> is interpreted on the order of the queue.
  \<^item> \<^verbatim>\<open>RLP_Encode\<close>, \<^verbatim>\<open>RLP_Raw\<close>, \<^verbatim>\<open>RLP_Decode\<close>, \<^verbatim>\<open>RLP_Codec\<close>: the two-pass
    encoder, the splitters and the stream decoder.  Go's reflection is replaced by a universe of values
    \<open>rval\<close> and a universe of types \<open>rtype\<close>.  The encoder equals the recursive definition of
    RLP, and decoding inverts encoding.  The stream decoder takes fuel for its nesting and its list
    loops; the round trip theorems show that the fuel of \<open>DecodeBytes\<close> is enough.
  \<^item> \<^verbatim>\<open>Transaction\<close>, \<^verbatim>\<open>Block_Types\<close>: transactions with their signers, headers, blocks and
    the consensus data in a header; round trips, and what hashes and signatures cover.
  \<^item> \<^verbatim>\<open>BFT_Types\<close>, \<^verbatim>\<open>BFT_State\<close>, \<^verbatim>\<open>BFT_Core\<close>: messages, vote sets, the state of a
    round, and every handler of the consensus core.
  \<^item> \<^verbatim>\<open>BFT_Frame\<close>, \<^verbatim>\<open>BFT_Invariant\<close>, \<^verbatim>\<open>BFT_Effects\<close>: what each operation
    leaves alone, the invariant of the core over all runs, and what each event may send.
  \<^item> \<^verbatim>\<open>BFT_Sample\<close>: a network of one validator and a run of it, used in instances.
  \<^item> \<^verbatim>\<open>BFT_Safety\<close>: views move forward, votes are sound, locks are kept, commits carry a quorum,
    and two nodes agree within a view.
  \<^item> \<^verbatim>\<open>BFT_Limits\<close>: ranges of priorities and timeouts, conservation of the backlog, and what
    the signature and the seal of a message do not cover.
  \<^item> \<^verbatim>\<open>Poa_Snapshot\<close>: the votes and signers of \<^verbatim>\<open>consensus/poa/snapshot.go\<close>, turns,
    difficulties and the checks of a seal.
  \<^item> \<^verbatim>\<open>Poa_Engine\<close>: the engine of \<^verbatim>\<open>consensus/poa/poa.go\<close>.  A snapshot is found through the
    caches, the disk and the chain, and equals the one computed from the genesis block.  Verifying a header
    verifies the genesis header on the way; its fuel bounds this recursion, and two levels are enough.
  \<^item> \<^verbatim>\<open>Poa_Recents\<close>, \<^verbatim>\<open>Poa_Produce\<close>: accepted headers can be applied to the snapshot, and
    blocks that an engine produces are accepted by the others.
  \<^item> \<^verbatim>\<open>Trie_Encoding\<close>: the byte, nibble and compact forms of a trie key.
  \<^item> \<^verbatim>\<open>Trie_Tree\<close>: a reference trie, pure and fully loaded.  Its operations are those of a map, and a
    well-formed tree is determined by its contents.
  \<^item> \<^verbatim>\<open>Trie_Node\<close>, \<^verbatim>\<open>Trie_Database\<close>, \<^verbatim>\<open>Trie\<close>: the nodes and their decoder, the node
    database, and lookup, insertion and deletion in a partly loaded trie.  Fuel bounds the depth of embedded
    nodes by the length of the input, and the path of an operation by twice the length of the key plus two.
    The locale \<open>trie_store\<close> states what the operations need of hashes and cache flags, and shows that they
    refine those of the reference trie.
  \<^item> \<^verbatim>\<open>Trie_Store\<close>: the encoding of a tree, and that decoding stored nodes gives back the tree.  This
    interprets \<open>trie_store\<close> on the database; a trie implements a map.
  \<^item> \<^verbatim>\<open>Trie_Hasher\<close>, \<^verbatim>\<open>Trie_Root\<close>: hashing and committing with cached hashes and unloading.  The
    root hash is a function of the contents, identifies them unless the hash function collides, and a
    committed trie can be opened again.

  \<^bold>\<open>Not modelled.\<close>  Networking, databases, the command line and the user interfaces are input and
  output.  Mutexes and goroutines are left out: each event is one step.  Logs, metrics and JSON forms do
  not influence the modelled state.
\<close>

end
